(* ===== verification/Clib4_Prelude.thy ===== *)
theory Clib4_Prelude
  imports Main "HOL-Library.Word" "HOL-Library.Signed_Division"
begin

text \<open>
  Shared vocabulary of the development: the machine types of the 32-bit PowerPC target, the flag
  macros of \<^verbatim>\<open>src/library/macros.h\<close>, the \<^verbatim>\<open>errno\<close> values of
  \<^verbatim>\<open>src/library/include/errno.h\<close> that the modelled code sets, and the generic lemmas on lists
  and flag words that the component theories rely on.
\<close>

unbundle bit_operations_syntax

section \<open>Machine types\<close>

type_synonym byte = "8 word"
type_synonym ulong = "32 word"

text \<open>A comparison function, as \<^verbatim>\<open>qsort\<close> and others take it.\<close>

type_synonym 'a cmp = "'a \<Rightarrow> 'a \<Rightarrow> int"

named_theorems flag_simps \<open>which bits of a flag word an update keeps or sets\<close>
named_theorems model_defs \<open>definitions unfolded when a model is executed or analysed by cases\<close>

section \<open>Result and error codes\<close>

text \<open>The values are those of \<^verbatim>\<open>macros.h\<close>, \<^verbatim>\<open>stdio.h\<close> and \<^verbatim>\<open>errno.h\<close>.\<close>

abbreviation (input) OK :: int where "OK \<equiv> 0"
abbreviation (input) ERROR :: int where "ERROR \<equiv> - 1"
abbreviation (input) EOF :: int where "EOF \<equiv> - 1"
abbreviation (input) CHANGE_FILE_ERROR :: int where "CHANGE_FILE_ERROR \<equiv> 0"
abbreviation (input) GETPOSITION_ERROR :: int where "GETPOSITION_ERROR \<equiv> - 1"

abbreviation (input) EPERM :: int where "EPERM \<equiv> 1"
abbreviation (input) EIO :: int where "EIO \<equiv> 5"
abbreviation (input) ENXIO :: int where "ENXIO \<equiv> 6"
abbreviation (input) ENOEXEC :: int where "ENOEXEC \<equiv> 8"
abbreviation (input) EBADF :: int where "EBADF \<equiv> 9"
abbreviation (input) ENOMEM :: int where "ENOMEM \<equiv> 12"
abbreviation (input) EACCES :: int where "EACCES \<equiv> 13"
abbreviation (input) EFAULT :: int where "EFAULT \<equiv> 14"
abbreviation (input) EBUSY :: int where "EBUSY \<equiv> 16"
abbreviation (input) EINVAL :: int where "EINVAL \<equiv> 22"
abbreviation (input) EPIPE :: int where "EPIPE \<equiv> 32"
abbreviation (input) EDOM :: int where "EDOM \<equiv> 33"
abbreviation (input) ERANGE :: int where "ERANGE \<equiv> 34"
abbreviation (input) EAGAIN :: int where "EAGAIN \<equiv> 35"
abbreviation (input) ENOTSOCK :: int where "ENOTSOCK \<equiv> 38"
abbreviation (input) ENOENT :: int where "ENOENT \<equiv> 2"
abbreviation (input) ESRCH :: int where "ESRCH \<equiv> 3"
abbreviation (input) EINTR :: int where "EINTR \<equiv> 4"
abbreviation (input) EDEADLK :: int where "EDEADLK \<equiv> 11"
abbreviation (input) EEXIST :: int where "EEXIST \<equiv> 17"
abbreviation (input) EXDEV :: int where "EXDEV \<equiv> 18"
abbreviation (input) ENOTDIR :: int where "ENOTDIR \<equiv> 20"
abbreviation (input) EISDIR :: int where "EISDIR \<equiv> 21"
abbreviation (input) EFBIG :: int where "EFBIG \<equiv> 27"
abbreviation (input) ENOSPC :: int where "ENOSPC \<equiv> 28"
abbreviation (input) ESPIPE :: int where "ESPIPE \<equiv> 29"
abbreviation (input) EROFS :: int where "EROFS \<equiv> 30"
abbreviation (input) EWOULDBLOCK :: int where "EWOULDBLOCK \<equiv> 35"
abbreviation (input) ETIMEDOUT :: int where "ETIMEDOUT \<equiv> 60"
abbreviation (input) ENAMETOOLONG :: int where "ENAMETOOLONG \<equiv> 63"
abbreviation (input) ENOTEMPTY :: int where "ENOTEMPTY \<equiv> 66"
abbreviation (input) ENOLCK :: int where "ENOLCK \<equiv> 77"
abbreviation (input) ENOSYS :: int where "ENOSYS \<equiv> 78"
abbreviation (input) EFTYPE :: int where "EFTYPE \<equiv> 79"
abbreviation (input) EOVERFLOW :: int where "EOVERFLOW \<equiv> 84"
abbreviation (input) EILSEQ :: int where "EILSEQ \<equiv> 85"
abbreviation (input) ENOBUFS :: int where "ENOBUFS \<equiv> 55"

section \<open>Flag macros\<close>

definition FLAG_IS_SET :: "ulong \<Rightarrow> ulong \<Rightarrow> bool" where
  "FLAG_IS_SET v f \<longleftrightarrow> v AND f = f"

definition FLAG_IS_CLEAR :: "ulong \<Rightarrow> ulong \<Rightarrow> bool" where
  "FLAG_IS_CLEAR v f \<longleftrightarrow> v AND f = 0"

definition SET_FLAG :: "ulong \<Rightarrow> ulong \<Rightarrow> ulong" where
  "SET_FLAG v f = v OR f"

definition CLEAR_FLAG :: "ulong \<Rightarrow> ulong \<Rightarrow> ulong" where
  "CLEAR_FLAG v f = v AND NOT f"

lemma FLAG_IS_SET_single_bit:
  assumes "n < 32"
  shows "FLAG_IS_SET v (2 ^ n) \<longleftrightarrow> \<not> FLAG_IS_CLEAR v (2 ^ n)"
proof -
  have "v AND 2 ^ n = (if bit v n then 2 ^ n else 0)"
    by (rule bit_word_eqI) (auto simp: bit_simps)
  moreover have "(2 :: ulong) ^ n \<noteq> 0"
    using assms by simp
  ultimately show ?thesis
    by (simp add: FLAG_IS_SET_def FLAG_IS_CLEAR_def)
qed

lemma mask_SET_FLAG [flag_simps]: "f AND g = 0 \<Longrightarrow> SET_FLAG v f AND g = v AND g"
  by (simp add: SET_FLAG_def bit.conj_disj_distrib2)

lemma mask_CLEAR_FLAG [flag_simps]: "f AND g = 0 \<Longrightarrow> CLEAR_FLAG v f AND g = v AND g"
proof (rule bit_word_eqI)
  fix n
  assume "f AND g = 0" and n: "n < LENGTH(32)"
  then have "\<not> bit (f AND g) n"
    by simp
  with n show "bit (CLEAR_FLAG v f AND g) n \<longleftrightarrow> bit (v AND g) n"
    by (auto simp: CLEAR_FLAG_def bit_simps)
qed

lemma FLAG_IS_SET_SET_FLAG_other [flag_simps]:
  "f AND g = 0 \<Longrightarrow> FLAG_IS_SET (SET_FLAG v f) g = FLAG_IS_SET v g"
  by (simp add: FLAG_IS_SET_def mask_SET_FLAG)

lemma FLAG_IS_CLEAR_SET_FLAG_other [flag_simps]:
  "f AND g = 0 \<Longrightarrow> FLAG_IS_CLEAR (SET_FLAG v f) g = FLAG_IS_CLEAR v g"
  by (simp add: FLAG_IS_CLEAR_def mask_SET_FLAG)

lemma FLAG_IS_SET_CLEAR_FLAG_other [flag_simps]:
  "f AND g = 0 \<Longrightarrow> FLAG_IS_SET (CLEAR_FLAG v f) g = FLAG_IS_SET v g"
  by (simp add: FLAG_IS_SET_def mask_CLEAR_FLAG)

lemma FLAG_IS_CLEAR_CLEAR_FLAG_other [flag_simps]:
  "f AND g = 0 \<Longrightarrow> FLAG_IS_CLEAR (CLEAR_FLAG v f) g = FLAG_IS_CLEAR v g"
  by (simp add: FLAG_IS_CLEAR_def mask_CLEAR_FLAG)

lemma FLAG_IS_SET_SET_FLAG_same [flag_simps]: "FLAG_IS_SET (SET_FLAG v f) f"
  by (simp add: FLAG_IS_SET_def SET_FLAG_def bit.conj_disj_distrib2 word_bw_comms)

lemma FLAG_IS_CLEAR_CLEAR_FLAG_same [flag_simps]: "FLAG_IS_CLEAR (CLEAR_FLAG v f) f"
  by (simp add: FLAG_IS_CLEAR_def CLEAR_FLAG_def word_bw_assocs)

lemma FLAG_IS_SET_not_clear: "f \<noteq> 0 \<Longrightarrow> FLAG_IS_SET v f \<Longrightarrow> \<not> FLAG_IS_CLEAR v f"
  by (simp add: FLAG_IS_SET_def FLAG_IS_CLEAR_def)

lemma FLAG_IS_SET_CLEAR_FLAG_same [flag_simps]: "f \<noteq> 0 \<Longrightarrow> \<not> FLAG_IS_SET (CLEAR_FLAG v f) f"
  using FLAG_IS_SET_not_clear FLAG_IS_CLEAR_CLEAR_FLAG_same by blast

section \<open>Lists as memory\<close>

text \<open>
  \<^verbatim>\<open>memmove(&buf[pos], src, n)\<close> on a buffer held as a list: the bytes \<open>pos .. pos + n - 1\<close> are
  replaced.
\<close>

definition mem_splice :: "'a list \<Rightarrow> nat \<Rightarrow> 'a list \<Rightarrow> 'a list" where
  "mem_splice buf pos src = take pos buf @ src @ drop (pos + length src) buf"

lemma length_mem_splice [simp]: "pos + length src \<le> length buf \<Longrightarrow> length (mem_splice buf pos src) = length buf"
  by (simp add: mem_splice_def)

lemma take_mem_splice [simp]:
  "pos \<le> length buf \<Longrightarrow> take (pos + length src) (mem_splice buf pos src) = take pos buf @ src"
  by (simp add: mem_splice_def)

lemma take_mem_splice_len:
  "pos \<le> length buf \<Longrightarrow> n = length src \<Longrightarrow> take (pos + n) (mem_splice buf pos src) = take pos buf @ src"
  by simp

lemma mem_splice_single: "pos < length buf \<Longrightarrow> mem_splice buf pos [c] = buf[pos := c]"
  by (simp add: mem_splice_def upd_conv_take_nth_drop)

lemma take_Suc_update: "pos < length buf \<Longrightarrow> take (Suc pos) (buf[pos := c]) = take pos buf @ [c]"
  by (simp add: take_Suc_conv_app_nth)

lemma drop_take_nth:
  "pos < n \<Longrightarrow> n \<le> length buf \<Longrightarrow> drop pos (take n buf) = buf ! pos # drop (Suc pos) (take n buf)"
  by (simp add: Cons_nth_drop_Suc [symmetric])

section \<open>Arithmetic on \<^verbatim>\<open>size_t\<close>\<close>

text \<open>The product and the sum of two 32-bit \<^verbatim>\<open>size_t\<close> values, which wrap around.\<close>

definition size_mult :: "nat \<Rightarrow> nat \<Rightarrow> nat" where
  "size_mult a b = nat ((int a * int b) mod 4294967296)"

lemma size_mult_id:
  assumes "a * b < 2 ^ 32" shows "size_mult a b = a * b"
proof -
  have "int (a * b) < int (2 ^ 32)" using assms by (simp only: of_nat_less_iff)
  then have "int a * int b < 4294967296" by simp
  then have "int a * int b mod 4294967296 = int (a * b)" by simp
  then show ?thesis unfolding size_mult_def by (simp only: nat_int)
qed

definition size_add :: "nat \<Rightarrow> nat \<Rightarrow> nat" where
  "size_add a b = nat ((int a + int b) mod 4294967296)"

lemma size_add_id:
  assumes "a + b < 2 ^ 32" shows "size_add a b = a + b"
proof -
  have "int (a + b) < int (2 ^ 32)" using assms by (simp only: of_nat_less_iff)
  then have "int a + int b < 4294967296" by simp
  then have "(int a + int b) mod 4294967296 = int (a + b)" by simp
  then show ?thesis unfolding size_add_def by (simp only: nat_int)
qed

text \<open>Measures of loops that count a word down.\<close>

lemma unat_pred_less: "(w :: ulong) \<noteq> 0 \<Longrightarrow> unat (w - 1) < unat w"
  by (metis One_nat_def diff_Suc_1 lessI less_one not_gr_zero unat_eq_zero unat_minus_one zero_less_diff
      less_nat_zero_code diff_less)

lemma unat_drop_bit_1_less: "(w :: ulong) \<noteq> 0 \<Longrightarrow> unat (drop_bit 1 w) < unat w"
  by (simp add: unat_drop_bit_eq unat_gt_0 drop_bit_Suc unat_div)

section \<open>Comparison functions\<close>

text \<open>A comparison function is an order when it is antisymmetric in its sign and transitive.\<close>

definition key_order :: "'k cmp \<Rightarrow> bool" where
  "key_order cmp \<longleftrightarrow> (\<forall>x y. sgn (cmp x y) = - sgn (cmp y x)) \<and>
     (\<forall>x y z. cmp x y \<le> 0 \<longrightarrow> cmp y z \<le> 0 \<longrightarrow> cmp x z \<le> 0)"

lemma key_order_flip: "key_order cmp \<Longrightarrow> (cmp x y < 0 \<longleftrightarrow> cmp y x > 0) \<and> (cmp x y = 0 \<longleftrightarrow> cmp y x = 0)"
proof -
  assume "key_order cmp"
  then have "sgn (cmp x y) = - sgn (cmp y x)" unfolding key_order_def by (elim conjE allE)
  then show ?thesis by (simp add: sgn_if split: if_splits)
qed

lemma key_order_le_less:
  assumes "key_order cmp" "cmp x y \<le> 0" "cmp y z < 0" shows "cmp x z < 0"
proof (rule ccontr)
  have tr: "cmp a b \<le> 0 \<Longrightarrow> cmp b c \<le> 0 \<Longrightarrow> cmp a c \<le> 0" for a b c
    using assms(1) by (auto simp: key_order_def)
  assume "\<not> cmp x z < 0"
  then have "cmp z x \<le> 0" using key_order_flip [OF assms(1), of z x] key_order_flip [OF assms(1), of x z] by linarith
  from tr [OF this assms(2)] key_order_flip [OF assms(1), of y z] assms(3) show False by linarith
qed

lemma key_order_less_le:
  assumes "key_order cmp" "cmp x y < 0" "cmp y z \<le> 0" shows "cmp x z < 0"
proof (rule ccontr)
  have tr: "cmp a b \<le> 0 \<Longrightarrow> cmp b c \<le> 0 \<Longrightarrow> cmp a c \<le> 0" for a b c
    using assms(1) by (auto simp: key_order_def)
  assume "\<not> cmp x z < 0"
  then have "cmp z x \<le> 0" using key_order_flip [OF assms(1), of z x] key_order_flip [OF assms(1), of x z] by linarith
  from tr [OF assms(3) this] key_order_flip [OF assms(1), of x y] assms(2) show False by linarith
qed

lemma key_order_same:
  assumes o: "key_order cmp" and k: "cmp k k' = 0" shows "cmp k x = 0 \<longleftrightarrow> cmp k' x = 0"
proof -
  have k': "cmp k' k = 0" using key_order_flip [OF o, of k k'] k by blast
  have lt: "cmp a x < 0 \<longleftrightarrow> cmp b x < 0" if "cmp a b = 0" "cmp b a = 0" for a b
    using key_order_le_less [OF o, of a b x] key_order_le_less [OF o, of b a x] that by auto
  have gt: "cmp x a < 0 \<longleftrightarrow> cmp x b < 0" if "cmp a b = 0" "cmp b a = 0" for a b
    using key_order_less_le [OF o, of x a b] key_order_less_le [OF o, of x b a] that by auto
  show ?thesis using lt [OF k k'] gt [OF k k'] key_order_flip [OF o, of x k] key_order_flip [OF o, of x k'] by linarith
qed

end
