(* ===== verification/Clib4_State.thy ===== *)
theory Clib4_State
  imports Clib4_Prelude
begin

text \<open>
  The state of the library that the stdio layer works on: \<^verbatim>\<open>struct iob\<close> and
  \<^verbatim>\<open>struct fd\<close> of \<^verbatim>\<open>src/library/stdio/stdio_headers.h\<close>, the file action message of
  \<^verbatim>\<open>src/library/stdio/clib4_io.h\<close>, and the part of \<^verbatim>\<open>struct _clib4\<close> that holds their
  tables. Structures live at addresses (\<open>nat\<close>) in a store, because descriptors and streams are
  shared and aliased; a pointer that may be \<^verbatim>\<open>NULL\<close> is an \<open>nat option\<close>.

  Code outside the repository (exec.library semaphores and mutexes, dos.library, the bsdsocket
  calls) is reached through the fields of \<open>env\<close> only. Its state is abstract: \<open>'x\<close> for
  exec.library, \<open>'d\<close> for dos.library. The indirect call through \<^verbatim>\<open>fd->fd_Action\<close> is the
  field \<open>env_fd_Action\<close>, since that pointer can be replaced by the program
  (\<^verbatim>\<open>__change_fd_action\<close>).
\<close>

section \<open>File action messages\<close>

datatype file_action_t =
    file_action_read
  | file_action_write
  | file_action_seek
  | file_action_close
  | file_action_set_blocking
  | file_action_set_async
  | file_action_examine

text \<open>
  \<^verbatim>\<open>fam_Data\<close> is a pointer in the source; here it is the memory it points to. A read action
  returns the message with the new contents.
\<close>

record file_action_message =
  fam_Action :: file_action_t
  fam_Data :: "byte list"
  fam_Size :: nat
  fam_Offset :: int
  fam_Mode :: int
  fam_Arg :: int
  fam_Error :: int
  fam_DOSMode :: int

section \<open>Buffered files\<close>

text \<open>The buffering modes and flag bits of \<^verbatim>\<open>iob_Flags\<close>.\<close>

abbreviation (input) IOBF_BUFFER_MODE_FULL :: ulong where "IOBF_BUFFER_MODE_FULL \<equiv> 0"
abbreviation (input) IOBF_BUFFER_MODE_LINE :: ulong where "IOBF_BUFFER_MODE_LINE \<equiv> 1"
abbreviation (input) IOBF_BUFFER_MODE_NONE :: ulong where "IOBF_BUFFER_MODE_NONE \<equiv> 2"
abbreviation (input) IOBF_BUFFER_MODE :: ulong where "IOBF_BUFFER_MODE \<equiv> 3"
abbreviation (input) IOBF_EOF_REACHED :: ulong where "IOBF_EOF_REACHED \<equiv> 4"
abbreviation (input) IOBF_READ :: ulong where "IOBF_READ \<equiv> 8"
abbreviation (input) IOBF_WRITE :: ulong where "IOBF_WRITE \<equiv> 16"
abbreviation (input) IOBF_IN_USE :: ulong where "IOBF_IN_USE \<equiv> 32"
abbreviation (input) IOBF_ERROR :: ulong where "IOBF_ERROR \<equiv> 64"
abbreviation (input) IOBF_NO_NUL :: ulong where "IOBF_NO_NUL \<equiv> 256"
abbreviation (input) IOBF_INTERNAL :: ulong where "IOBF_INTERNAL \<equiv> 512"
abbreviation (input) IOBF_LOCKED :: ulong where "IOBF_LOCKED \<equiv> 1024"
abbreviation (input) IOBF_LITTLE_ENDIAN :: ulong where "IOBF_LITTLE_ENDIAN \<equiv> 4096"
abbreviation (input) SERR :: ulong where "SERR \<equiv> 4096"

text \<open>The functions that \<^verbatim>\<open>iob_Action\<close> is set to in the source.\<close>

datatype file_action_iob_t =
    iob_hook
  | vsnprintf_hook
  | vsprintf_hook
  | sscanf_hook

text \<open>
  The fields of \<^verbatim>\<open>struct iob\<close> that the modelled operations use. \<^verbatim>\<open>iob_Buffer\<close> and
  \<^verbatim>\<open>iob_String\<close> are the memory the pointers refer to; \<^verbatim>\<open>iob_Lock\<close> is the address of the
  semaphore and \<^verbatim>\<open>iob_TaskLock\<close> the task that set \<^verbatim>\<open>IOBF_LOCKED\<close>.
\<close>

record iob =
  iob_Flags :: ulong
  iob_Buffer :: "byte list"
  iob_BufferSize :: nat
  iob_BufferPosition :: nat
  iob_BufferReadBytes :: nat
  iob_BufferWriteBytes :: nat
  iob_Flags2 :: ulong
  iob_Action :: file_action_iob_t
  iob_SlotNumber :: int
  iob_Descriptor :: int
  iob_String :: "byte list"
  iob_StringSize :: int
  iob_StringPosition :: nat
  iob_StringLength :: nat
  iob_Lock :: "nat option"
  iob_TaskLock :: "nat option"

section \<open>File descriptors\<close>

abbreviation (input) FDF_READ :: ulong where "FDF_READ \<equiv> 1"
abbreviation (input) FDF_WRITE :: ulong where "FDF_WRITE \<equiv> 2"
abbreviation (input) FDF_APPEND :: ulong where "FDF_APPEND \<equiv> 4"
abbreviation (input) FDF_NON_BLOCKING :: ulong where "FDF_NON_BLOCKING \<equiv> 16"
abbreviation (input) FDF_IS_SOCKET :: ulong where "FDF_IS_SOCKET \<equiv> 32"
abbreviation (input) FDF_IN_USE :: ulong where "FDF_IN_USE \<equiv> 128"
abbreviation (input) FDF_CACHE_POSITION :: ulong where "FDF_CACHE_POSITION \<equiv> 512"
abbreviation (input) FDF_IS_INTERACTIVE :: ulong where "FDF_IS_INTERACTIVE \<equiv> 2048"
abbreviation (input) FDF_STDIO :: ulong where "FDF_STDIO \<equiv> 4096"
abbreviation (input) FDF_NO_CLOSE :: ulong where "FDF_NO_CLOSE \<equiv> 8"
abbreviation (input) FDF_CREATED :: ulong where "FDF_CREATED \<equiv> 256"
abbreviation (input) FDF_TERMIOS :: ulong where "FDF_TERMIOS \<equiv> 8192"
abbreviation (input) FDF_NO_CLOSE_BPTR :: ulong where "FDF_NO_CLOSE_BPTR \<equiv> 8388608"
abbreviation (input) FDF_IS_DIRECTORY :: ulong where "FDF_IS_DIRECTORY \<equiv> 32768"
abbreviation (input) FDF_PATH_ONLY :: ulong where "FDF_PATH_ONLY \<equiv> 65536"
abbreviation (input) FDF_STDIN_AS_SOCKET :: ulong where "FDF_STDIN_AS_SOCKET \<equiv> 131072"
abbreviation (input) FDF_STDIN_READ_MARK :: ulong where "FDF_STDIN_READ_MARK \<equiv> 262144"
abbreviation (input) FDF_PIPE :: ulong where "FDF_PIPE \<equiv> 524288"
abbreviation (input) FDF_LITTLE_ENDIAN :: ulong where "FDF_LITTLE_ENDIAN \<equiv> 4194304"

text \<open>
  \<^verbatim>\<open>fd_Action\<close> and \<^verbatim>\<open>fd_Cleanup\<close> are code addresses; \<^verbatim>\<open>fd_File\<close> is the file handle
  (0 is \<^verbatim>\<open>BZERO\<close>) of the default union.
\<close>

record fd =
  fd_Version :: int
  fd_Action :: nat
  fd_UserData :: nat
  fd_Flags :: ulong
  fd_File :: nat
  fd_Lock :: "nat option"
  fd_Position :: int
  fd_Cleanup :: "nat option"
  fd_Original :: "nat option"
  fd_NextAlias :: "nat option"
  fd_Aux :: "nat option"

text \<open>The structure after \<^verbatim>\<open>memset(fd, 0, sizeof(*fd))\<close>.\<close>

definition zero_fd :: fd where
  "zero_fd = \<lparr>fd_Version = 0, fd_Action = 0, fd_UserData = 0, fd_Flags = 0, fd_File = 0,
     fd_Lock = None, fd_Position = 0, fd_Cleanup = None, fd_Original = None,
     fd_NextAlias = None, fd_Aux = None\<rparr>"

text \<open>A file to be unlinked when it is closed, at its address.\<close>

record unlink_node =
  uln_address :: nat
  uln_Lock :: nat
  uln_Name :: string

section \<open>The library state and its environment\<close>

text \<open>
  \<open>c_iobs\<close> and \<open>c_fds\<close> are the memory holding the structures; \<open>c_iob\<close> and \<open>c_fd\<close> are the
  tables \<^verbatim>\<open>__iob\<close> and \<^verbatim>\<open>__fd\<close>, whose lengths are \<^verbatim>\<open>__num_iob\<close> and
  \<^verbatim>\<open>__num_fd\<close>; \<open>c_fd_base\<close> is the address of the latter. \<open>c_self\<close> is the running task.
\<close>

record ('x, 'd) clib4 =
  c_errno :: int
  c_iobs :: "nat \<Rightarrow> iob"
  c_iob :: "nat option list"
  c_fds :: "nat \<Rightarrow> fd"
  c_fd :: "nat option list"
  c_fd_base :: "nat option"
  c_stdio_lock :: "nat option"
  c_unix_path_semantics :: bool
  c_unlink_list :: "unlink_node list"
  c_self :: nat
  c_exec :: 'x
  c_dos :: 'd

text \<open>
  Symbolic dos.library error codes, as \<^verbatim>\<open>translateioerror.c\<close> names them; \<open>dos_ok\<close> is a zero
  result of \<^verbatim>\<open>IoErr()\<close> and \<open>dos_other\<close> any code the table does not list.
\<close>

datatype dos_error =
    dos_ok
  | ERROR_NO_FREE_STORE | ERROR_TASK_TABLE_FULL | ERROR_BAD_TEMPLATE | ERROR_BAD_NUMBER
  | ERROR_REQUIRED_ARG_MISSING | ERROR_KEY_NEEDS_ARG | ERROR_TOO_MANY_ARGS
  | ERROR_UNMATCHED_QUOTES | ERROR_LINE_TOO_LONG | ERROR_FILE_NOT_OBJECT | ERROR_OBJECT_IN_USE
  | ERROR_OBJECT_EXISTS | ERROR_DIR_NOT_FOUND | ERROR_OBJECT_NOT_FOUND | ERROR_BAD_STREAM_NAME
  | ERROR_OBJECT_TOO_LARGE | ERROR_ACTION_NOT_KNOWN | ERROR_INVALID_COMPONENT_NAME
  | ERROR_INVALID_LOCK | ERROR_OBJECT_WRONG_TYPE | ERROR_DISK_NOT_VALIDATED
  | ERROR_DISK_WRITE_PROTECTED | ERROR_RENAME_ACROSS_DEVICES | ERROR_DIRECTORY_NOT_EMPTY
  | ERROR_TOO_MANY_LEVELS | ERROR_DEVICE_NOT_MOUNTED | ERROR_COMMENT_TOO_BIG | ERROR_DISK_FULL
  | ERROR_DELETE_PROTECTED | ERROR_WRITE_PROTECTED | ERROR_READ_PROTECTED
  | ERROR_NOT_A_DOS_DISK | ERROR_NO_DISK | ERROR_IS_SOFT_LINK | ERROR_BAD_HUNK
  | ERROR_NOT_IMPLEMENTED | ERROR_LOCK_COLLISION | ERROR_BREAK | ERROR_NOT_EXECUTABLE
  | ERROR_WOULD_BLOCK
  | dos_other int

text \<open>
  \<open>env_malloc\<close> and \<open>env_free\<close> are the allocator (its wmem back end is not modelled here): a
  request for a number of bytes either fails or yields an address. \<open>env_recv\<close> and \<open>env_send\<close>
  are the bsdsocket.library calls on a socket, with the buffer length or data, the flags and
  \<^verbatim>\<open>errno\<close>; they return their result, the bytes received and the new \<^verbatim>\<open>errno\<close>.
  \<open>env_garbage\<close> is the indeterminate content of the uninitialised \<^verbatim>\<open>fam_Error\<close> of a message
  that the caller keeps on its stack, like its other fields that the caller does not set.
\<close>

record ('x, 'd) env =
  env_ObtainSemaphore :: "nat \<Rightarrow> nat \<Rightarrow> 'x \<Rightarrow> 'x"
  env_ObtainSemaphoreShared :: "nat \<Rightarrow> nat \<Rightarrow> 'x \<Rightarrow> 'x"
  env_AttemptSemaphore :: "nat \<Rightarrow> nat \<Rightarrow> 'x \<Rightarrow> bool \<times> 'x"
  env_ReleaseSemaphore :: "nat \<Rightarrow> nat \<Rightarrow> 'x \<Rightarrow> 'x"
  env_ss_NestCount :: "nat \<Rightarrow> 'x \<Rightarrow> int"
  env_ss_Owner :: "nat \<Rightarrow> 'x \<Rightarrow> nat option"
  env_MutexObtain :: "nat \<Rightarrow> nat \<Rightarrow> 'x \<Rightarrow> 'x"
  env_MutexRelease :: "nat \<Rightarrow> nat \<Rightarrow> 'x \<Rightarrow> 'x"
  env_malloc :: "nat \<Rightarrow> 'x \<Rightarrow> nat option \<times> 'x"
  env_sizeof_fd :: nat
  env_sizeof_iob :: nat
  env_free :: "nat \<Rightarrow> 'x \<Rightarrow> 'x"
  env_LockMem :: "nat \<Rightarrow> 'x \<Rightarrow> 'x"
  env_UnlockMem :: "nat \<Rightarrow> 'x \<Rightarrow> 'x"
  env_fd_Action :: "('x, 'd) clib4 \<Rightarrow> nat \<Rightarrow> file_action_message
    \<Rightarrow> int \<times> file_action_message \<times> ('x, 'd) clib4"
  env_IoErr :: "'d \<Rightarrow> dos_error"
  env_recv :: "nat \<Rightarrow> nat \<Rightarrow> int \<Rightarrow> int \<Rightarrow> 'x \<Rightarrow> int \<times> byte list \<times> int \<times> 'x"
  env_send :: "nat \<Rightarrow> byte list \<Rightarrow> int \<Rightarrow> int \<Rightarrow> 'x \<Rightarrow> int \<times> int \<times> 'x"
  env_garbage :: int

text \<open>A message on the stack of the caller, before the fields the caller does not set.\<close>

definition new_fam :: "('x, 'd) env \<Rightarrow> file_action_t \<Rightarrow> file_action_message" where
  "new_fam E act = \<lparr>fam_Action = act, fam_Data = [], fam_Size = 0, fam_Offset = 0, fam_Mode = 0,
     fam_Arg = env_garbage E, fam_Error = env_garbage E, fam_DOSMode = env_garbage E\<rparr>"

lemma new_fam_sel [simp]:
  "fam_Action (new_fam E act) = act" "fam_Error (new_fam E act) = env_garbage E"
  by (simp_all add: new_fam_def)

definition set_errno :: "int \<Rightarrow> ('x, 'd) clib4 \<Rightarrow> ('x, 'd) clib4" where
  "set_errno e s = s\<lparr>c_errno := e\<rparr>"

text \<open>Assignments to fields of one structure in the store.\<close>

definition upd_iob :: "nat \<Rightarrow> (iob \<Rightarrow> iob) \<Rightarrow> ('x, 'd) clib4 \<Rightarrow> ('x, 'd) clib4" where
  "upd_iob f g s = s\<lparr>c_iobs := (c_iobs s)(f := g (c_iobs s f))\<rparr>"

definition upd_fd :: "nat \<Rightarrow> (fd \<Rightarrow> fd) \<Rightarrow> ('x, 'd) clib4 \<Rightarrow> ('x, 'd) clib4" where
  "upd_fd a g s = s\<lparr>c_fds := (c_fds s)(a := g (c_fds s a))\<rparr>"

lemmas [simp] = set_errno_def upd_iob_def upd_fd_def

definition set_iob_flag :: "nat \<Rightarrow> ulong \<Rightarrow> ('x, 'd) clib4 \<Rightarrow> ('x, 'd) clib4" where
  "set_iob_flag f b = upd_iob f (\<lambda>i. i\<lparr>iob_Flags := SET_FLAG (iob_Flags i) b\<rparr>)"

definition clear_iob_flag :: "nat \<Rightarrow> ulong \<Rightarrow> ('x, 'd) clib4 \<Rightarrow> ('x, 'd) clib4" where
  "clear_iob_flag f b = upd_iob f (\<lambda>i. i\<lparr>iob_Flags := CLEAR_FLAG (iob_Flags i) b\<rparr>)"

lemmas [simp] = set_iob_flag_def clear_iob_flag_def

section \<open>Table access\<close>

text \<open>\<^verbatim>\<open>__clib4->__fd[file_descriptor]\<close>; an index outside the table has no entry.\<close>

definition fd_slot :: "('x, 'd) clib4 \<Rightarrow> int \<Rightarrow> nat option" where
  "fd_slot s d = (if 0 \<le> d \<and> d < int (length (c_fd s)) then c_fd s ! nat d else None)"

section \<open>A concrete environment\<close>

text \<open>
  An environment for evaluating the model: the exec.library state is the list of allocated
  addresses, \<^verbatim>\<open>malloc\<close> never fails, locks are free, and the action of every descriptor is
  the given function.
\<close>

definition fresh_address :: "nat list \<Rightarrow> nat" where
  "fresh_address x = Suc (foldr max x 0)"

lemma le_foldr_max: "a \<in> set x \<Longrightarrow> a \<le> foldr max x (0 :: nat)"
  by (induction x) auto

lemma fresh_address [simp]: "fresh_address x \<notin> set x"
  by (auto simp: fresh_address_def dest: le_foldr_max)

definition demo_env ::
  "((nat list, 'd) clib4 \<Rightarrow> nat \<Rightarrow> file_action_message
     \<Rightarrow> int \<times> file_action_message \<times> (nat list, 'd) clib4) \<Rightarrow> (nat list, 'd) env" where
  "demo_env act =
     \<lparr>env_ObtainSemaphore = \<lambda>_ _ x. x, env_ObtainSemaphoreShared = \<lambda>_ _ x. x,
      env_AttemptSemaphore = \<lambda>_ _ x. (True, x), env_ReleaseSemaphore = \<lambda>_ _ x. x,
      env_ss_NestCount = \<lambda>_ _. 1, env_ss_Owner = \<lambda>_ _. None,
      env_MutexObtain = \<lambda>_ _ x. x, env_MutexRelease = \<lambda>_ _ x. x,
      env_malloc = \<lambda>_ x. (Some (fresh_address x), fresh_address x # x),
      env_sizeof_fd = 52, env_sizeof_iob = 128, env_free = \<lambda>a x. removeAll a x,
      env_LockMem = \<lambda>_ x. x, env_UnlockMem = \<lambda>_ x. x, env_fd_Action = act,
      env_IoErr = \<lambda>_. dos_ok, env_recv = \<lambda>_ _ _ e x. (0, [], e, x),
      env_send = \<lambda>_ _ _ e x. (0, e, x), env_garbage = 0\<rparr>"

text \<open>
  A state with one open file: descriptor 0 is the structure at address 1, readable and writable
  with file handle 7; address 2 is the table; the stream at address 5 is fully buffered over
  four bytes and uses descriptor 0.
\<close>

definition demo_iob :: iob where
  "demo_iob = \<lparr>iob_Flags = IOBF_IN_USE OR IOBF_READ OR IOBF_WRITE, iob_Buffer = [0, 0, 0, 0],
     iob_BufferSize = 4, iob_BufferPosition = 0, iob_BufferReadBytes = 0, iob_BufferWriteBytes = 0,
     iob_Flags2 = 0, iob_Action = iob_hook, iob_SlotNumber = 0, iob_Descriptor = 0, iob_String = [],
     iob_StringSize = 0, iob_StringPosition = 0, iob_StringLength = 0, iob_Lock = None,
     iob_TaskLock = None\<rparr>"

definition demo_state :: "'d \<Rightarrow> (nat list, 'd) clib4" where
  "demo_state d = \<lparr>c_errno = 0, c_iobs = \<lambda>_. demo_iob, c_iob = [Some 5],
     c_fds = (\<lambda>_. zero_fd)(1 := zero_fd\<lparr>fd_Flags := FDF_IN_USE OR FDF_READ OR FDF_WRITE, fd_File := 7\<rparr>),
     c_fd = [Some 1], c_fd_base = Some 2, c_stdio_lock = None, c_unix_path_semantics = True,
     c_unlink_list = [], c_self = 1, c_exec = [1, 2],
     c_dos = d\<rparr>"

end
