(* ===== verification/Fd_Table.thy ===== *)
theory Fd_Table
  imports Clib4_State
begin

text \<open>
  The file descriptor table: locking (\<^verbatim>\<open>stdio/lock.c\<close>, \<^verbatim>\<open>unistd/lock.c\<close>), lookup
  (\<^verbatim>\<open>stdio/get_file_descriptor.c\<close>), growth and vacant entries, the alias lists that
  \<^verbatim>\<open>dup()\<close> builds and \<^verbatim>\<open>close()\<close> takes apart (\<^verbatim>\<open>stdio/duplicate_fd.c\<close>,
  \<^verbatim>\<open>stdio/remove_fd_alias.c\<close>), and the unbuffered \<^verbatim>\<open>read()\<close>, \<^verbatim>\<open>write()\<close>,
  \<^verbatim>\<open>lseek()\<close>, \<^verbatim>\<open>close()\<close>, \<^verbatim>\<open>dup()\<close> and \<^verbatim>\<open>dup2()\<close>.
  The lemmas show that the alias lists stay well formed, that the original of a group hands its
  resources to its first alias, and what each operation returns on its error branches.
\<close>

section \<open>Locks\<close>

definition SemaphoreIsMine :: "('x, 'd) env \<Rightarrow> nat \<Rightarrow> ('x, 'd) clib4 \<Rightarrow> bool" where
  "SemaphoreIsMine E sem s \<longleftrightarrow>
     env_ss_NestCount E sem (c_exec s) > 0 \<and> env_ss_Owner E sem (c_exec s) = Some (c_self s)"

definition stdio_lock :: "('x, 'd) env \<Rightarrow> ('x, 'd) clib4 \<Rightarrow> ('x, 'd) clib4" where
  "stdio_lock E s = (case c_stdio_lock s of
     None \<Rightarrow> s
   | Some sem \<Rightarrow> s\<lparr>c_exec := env_ObtainSemaphoreShared E sem (c_self s) (c_exec s)\<rparr>)"

definition stdio_unlock :: "('x, 'd) env \<Rightarrow> ('x, 'd) clib4 \<Rightarrow> ('x, 'd) clib4" where
  "stdio_unlock E s = (case c_stdio_lock s of
     None \<Rightarrow> s
   | Some sem \<Rightarrow>
       if SemaphoreIsMine E sem s
       then s\<lparr>c_exec := env_ReleaseSemaphore E sem (c_self s) (c_exec s)\<rparr> else s)"

definition fd_lock :: "('x, 'd) env \<Rightarrow> nat \<Rightarrow> ('x, 'd) clib4 \<Rightarrow> ('x, 'd) clib4" where
  "fd_lock E a s = (case fd_Lock (c_fds s a) of
     None \<Rightarrow> s
   | Some m \<Rightarrow> s\<lparr>c_exec := env_MutexObtain E m (c_self s) (c_exec s)\<rparr>)"

definition fd_unlock :: "('x, 'd) env \<Rightarrow> nat \<Rightarrow> ('x, 'd) clib4 \<Rightarrow> ('x, 'd) clib4" where
  "fd_unlock E a s = (case fd_Lock (c_fds s a) of
     None \<Rightarrow> s
   | Some m \<Rightarrow> s\<lparr>c_exec := env_MutexRelease E m (c_self s) (c_exec s)\<rparr>)"

text \<open>Lock calls change nothing but the state of exec.library.\<close>

definition same_but_exec :: "('x, 'd) clib4 \<Rightarrow> ('x, 'd) clib4 \<Rightarrow> bool" where
  "same_but_exec s t \<longleftrightarrow> t = s\<lparr>c_exec := c_exec t\<rparr>"

lemma lock_frame:
  "same_but_exec s (stdio_lock E s)" "same_but_exec s (stdio_unlock E s)"
  "same_but_exec s (fd_lock E a s)" "same_but_exec s (fd_unlock E a s)"
  by (simp_all add: same_but_exec_def stdio_lock_def stdio_unlock_def fd_lock_def fd_unlock_def
      split: option.split)

lemma lock_sel [simp]:
  "c_errno (stdio_lock E s) = c_errno s" "c_iobs (stdio_lock E s) = c_iobs s"
  "c_iob (stdio_lock E s) = c_iob s" "c_fds (stdio_lock E s) = c_fds s"
  "c_fd (stdio_lock E s) = c_fd s" "c_self (stdio_lock E s) = c_self s"
  "c_dos (stdio_lock E s) = c_dos s" "c_stdio_lock (stdio_lock E s) = c_stdio_lock s"
  "c_fd_base (stdio_lock E s) = c_fd_base s"
  "c_unix_path_semantics (stdio_lock E s) = c_unix_path_semantics s" "c_unlink_list (stdio_lock E s) = c_unlink_list s"
  "c_errno (stdio_unlock E s) = c_errno s" "c_iobs (stdio_unlock E s) = c_iobs s"
  "c_iob (stdio_unlock E s) = c_iob s" "c_fds (stdio_unlock E s) = c_fds s"
  "c_fd (stdio_unlock E s) = c_fd s" "c_self (stdio_unlock E s) = c_self s"
  "c_dos (stdio_unlock E s) = c_dos s" "c_stdio_lock (stdio_unlock E s) = c_stdio_lock s"
  "c_fd_base (stdio_unlock E s) = c_fd_base s"
  "c_unix_path_semantics (stdio_unlock E s) = c_unix_path_semantics s" "c_unlink_list (stdio_unlock E s) = c_unlink_list s"
  by (simp_all add: stdio_lock_def stdio_unlock_def split: option.split)

lemma fd_lock_sel [simp]:
  "c_errno (fd_lock E a s) = c_errno s" "c_iobs (fd_lock E a s) = c_iobs s"
  "c_iob (fd_lock E a s) = c_iob s" "c_fds (fd_lock E a s) = c_fds s"
  "c_fd (fd_lock E a s) = c_fd s" "c_self (fd_lock E a s) = c_self s"
  "c_dos (fd_lock E a s) = c_dos s" "c_stdio_lock (fd_lock E a s) = c_stdio_lock s"
  "c_fd_base (fd_lock E a s) = c_fd_base s"
  "c_unix_path_semantics (fd_lock E a s) = c_unix_path_semantics s" "c_unlink_list (fd_lock E a s) = c_unlink_list s"
  "c_errno (fd_unlock E a s) = c_errno s" "c_iobs (fd_unlock E a s) = c_iobs s"
  "c_iob (fd_unlock E a s) = c_iob s" "c_fds (fd_unlock E a s) = c_fds s"
  "c_fd (fd_unlock E a s) = c_fd s" "c_self (fd_unlock E a s) = c_self s"
  "c_dos (fd_unlock E a s) = c_dos s" "c_stdio_lock (fd_unlock E a s) = c_stdio_lock s"
  "c_fd_base (fd_unlock E a s) = c_fd_base s"
  "c_unix_path_semantics (fd_unlock E a s) = c_unix_path_semantics s" "c_unlink_list (fd_unlock E a s) = c_unlink_list s"
  by (simp_all add: fd_lock_def fd_unlock_def split: option.split)

section \<open>Lookup\<close>

datatype resolution_mode_t = resolution_mode_exact | resolution_mode_alias

definition get_file_descriptor_mode ::
  "('x, 'd) env \<Rightarrow> ('x, 'd) clib4 \<Rightarrow> int \<Rightarrow> resolution_mode_t \<Rightarrow> nat option \<times> ('x, 'd) clib4" where
  "get_file_descriptor_mode E s d mode =
     (let s1 = stdio_lock E s;
          result =
            (if d < 0 \<or> d \<ge> int (length (c_fd s1)) then None
             else case c_fd s1 ! nat d of
                 None \<Rightarrow> None
               | Some a \<Rightarrow>
                   if FLAG_IS_CLEAR (fd_Flags (c_fds s1 a)) FDF_IN_USE then None
                   else if mode = resolution_mode_alias \<and> fd_Original (c_fds s1 a) \<noteq> None
                   then fd_Original (c_fds s1 a)
                   else Some a)
      in (result, stdio_unlock E s1))"

definition get_file_descriptor ::
  "('x, 'd) env \<Rightarrow> ('x, 'd) clib4 \<Rightarrow> int \<Rightarrow> nat option \<times> ('x, 'd) clib4" where
  "get_file_descriptor E s d = get_file_descriptor_mode E s d resolution_mode_alias"

definition get_file_descriptor_dont_resolve ::
  "('x, 'd) env \<Rightarrow> ('x, 'd) clib4 \<Rightarrow> int \<Rightarrow> nat option \<times> ('x, 'd) clib4" where
  "get_file_descriptor_dont_resolve E s d = get_file_descriptor_mode E s d resolution_mode_exact"

text \<open>What the lookup finds, without the lock calls around it.\<close>

definition resolved_fd :: "('x, 'd) clib4 \<Rightarrow> int \<Rightarrow> nat option" where
  "resolved_fd s d = (case fd_slot s d of
     None \<Rightarrow> None
   | Some a \<Rightarrow>
       if FLAG_IS_CLEAR (fd_Flags (c_fds s a)) FDF_IN_USE then None
       else (case fd_Original (c_fds s a) of None \<Rightarrow> Some a | Some r \<Rightarrow> Some r))"

lemma fst_get_file_descriptor: "fst (get_file_descriptor E s d) = resolved_fd s d"
  by (auto simp: get_file_descriptor_def get_file_descriptor_mode_def resolved_fd_def fd_slot_def
      Let_def split: option.split)

lemma snd_get_file_descriptor:
  "snd (get_file_descriptor E s d) = stdio_unlock E (stdio_lock E s)"
  by (simp add: get_file_descriptor_def get_file_descriptor_mode_def Let_def)

lemma get_file_descriptor_eq [simp]:
  "get_file_descriptor E s d = (resolved_fd s d, stdio_unlock E (stdio_lock E s))"
  by (rule prod_eqI) (simp_all add: fst_get_file_descriptor snd_get_file_descriptor)

lemma snd_get_file_descriptor_dont_resolve [simp]:
  "snd (get_file_descriptor_dont_resolve E s d) = stdio_unlock E (stdio_lock E s)"
  by (simp add: get_file_descriptor_dont_resolve_def get_file_descriptor_mode_def Let_def)

section \<open>Aliases\<close>

definition initialize_fd ::
  "nat \<Rightarrow> nat \<Rightarrow> nat \<Rightarrow> ulong \<Rightarrow> nat option \<Rightarrow> ('x, 'd) clib4 \<Rightarrow> ('x, 'd) clib4" where
  "initialize_fd a action_function default_file flags lock =
     upd_fd a (\<lambda>_. zero_fd\<lparr>fd_Version := 1, fd_File := default_file, fd_Flags := flags,
       fd_Action := action_function, fd_Lock := lock, fd_Aux := None\<rparr>)"

definition duplicate_fd ::
  "('x, 'd) env \<Rightarrow> nat \<Rightarrow> nat \<Rightarrow> ('x, 'd) clib4 \<Rightarrow> ('x, 'd) clib4" where
  "duplicate_fd E duplicate original s =
     (let s1 = fd_lock E original s;
          o1 = c_fds s1 original;
          s2 = initialize_fd duplicate (fd_Action o1) (fd_File o1) (fd_Flags o1) (fd_Lock o1) s1;
          root = (case fd_Original (c_fds s2 original) of Some r \<Rightarrow> r | None \<Rightarrow> original);
          s3 = upd_fd duplicate (\<lambda>d. d\<lparr>fd_Original := Some root\<rparr>) s2;
          s4 = upd_fd duplicate (\<lambda>d. d\<lparr>fd_NextAlias := fd_NextAlias (c_fds s3 root)\<rparr>) s3;
          s5 = upd_fd root (\<lambda>d. d\<lparr>fd_NextAlias := Some duplicate\<rparr>) s4
      in fd_unlock E original s5)"

text \<open>
  The two loops of \<^verbatim>\<open>__remove_fd_alias\<close> follow \<^verbatim>\<open>fd_NextAlias\<close> pointers, which nothing in
  the type keeps from being cyclic: a loop that does not end is \<open>None\<close>.
\<close>

partial_function (option) unlink_alias ::
  "nat \<Rightarrow> nat option \<Rightarrow> (nat \<Rightarrow> fd) \<Rightarrow> (nat \<Rightarrow> fd) option" where
  "unlink_alias fd p h = (case p of
     None \<Rightarrow> Some h
   | Some l \<Rightarrow>
       if fd_NextAlias (h l) = Some fd
       then Some (h(l := (h l)\<lparr>fd_NextAlias := fd_NextAlias (h fd)\<rparr>))
       else unlink_alias fd (fd_NextAlias (h l)) h)"

partial_function (option) migrate_aliases ::
  "nat \<Rightarrow> nat option \<Rightarrow> (nat \<Rightarrow> fd) \<Rightarrow> (nat \<Rightarrow> fd) option" where
  "migrate_aliases first p h = (case p of
     None \<Rightarrow> Some h
   | Some l \<Rightarrow> migrate_aliases first (fd_NextAlias (h l)) (h(l := (h l)\<lparr>fd_Original := Some first\<rparr>)))"

definition remove_fd_alias ::
  "('x, 'd) env \<Rightarrow> nat \<Rightarrow> ('x, 'd) clib4 \<Rightarrow> ('x, 'd) clib4 option" where
  "remove_fd_alias E fd s =
     (let s1 = stdio_lock E s; h = c_fds s1;
          result =
            (case fd_Original (h fd) of
               Some original \<Rightarrow> unlink_alias fd (Some original) h
             | None \<Rightarrow>
                 (case fd_NextAlias (h fd) of
                    Some first_alias \<Rightarrow>
                      (let next_alias = fd_NextAlias (h first_alias);
                           h1 = h(first_alias := h fd);
                           h2 = h1(first_alias := (h1 first_alias)
                                  \<lparr>fd_NextAlias := next_alias, fd_Original := None\<rparr>)
                       in migrate_aliases first_alias next_alias h2)
                  | None \<Rightarrow> Some h))
      in map_option (\<lambda>h'. stdio_unlock E (s1\<lparr>c_fds := h'\<rparr>)) result)"

subsection \<open>Well-formed alias groups\<close>

primrec chain :: "(nat \<Rightarrow> fd) \<Rightarrow> nat option \<Rightarrow> nat list \<Rightarrow> bool" where
  "chain h p [] \<longleftrightarrow> p = None"
| "chain h p (a # as) \<longleftrightarrow> p = Some a \<and> chain h (fd_NextAlias (h a)) as"

text \<open>
  \<open>alias_group h r as\<close>: the descriptor at \<open>r\<close> is an original, and \<open>as\<close> are its aliases in list
  order; each points back to \<open>r\<close>.
\<close>

definition alias_group :: "(nat \<Rightarrow> fd) \<Rightarrow> nat \<Rightarrow> nat list \<Rightarrow> bool" where
  "alias_group h r as \<longleftrightarrow>
     fd_Original (h r) = None \<and> chain h (fd_NextAlias (h r)) as \<and> distinct (r # as) \<and>
     (\<forall>a \<in> set as. fd_Original (h a) = Some r)"

lemma chain_upd_other [simp]: "b \<notin> set as \<Longrightarrow> chain (h(b := d)) p as = chain h p as"
  by (induction as arbitrary: p) auto

lemma chain_cong:
  "(\<And>a. a \<in> set as \<Longrightarrow> fd_NextAlias (h' a) = fd_NextAlias (h a)) \<Longrightarrow> chain h' p as = chain h p as"
  by (induction as arbitrary: p) auto

lemma chain_unique: "chain h p as \<Longrightarrow> chain h p bs \<Longrightarrow> as = bs"
  by (induction as arbitrary: p bs) (case_tac bs; auto)+

lemma duplicate_fd_sel [simp]:
  "c_fd (duplicate_fd E d a s) = c_fd s" "c_iobs (duplicate_fd E d a s) = c_iobs s"
  "c_iob (duplicate_fd E d a s) = c_iob s" "c_errno (duplicate_fd E d a s) = c_errno s"
  "c_dos (duplicate_fd E d a s) = c_dos s" "c_fd_base (duplicate_fd E d a s) = c_fd_base s"
  "c_stdio_lock (duplicate_fd E d a s) = c_stdio_lock s"
  by (simp_all add: duplicate_fd_def initialize_fd_def Let_def)

lemma duplicate_fd_root:
  assumes "fd_Original (c_fds s r) = None" and "dup \<noteq> r"
  shows "c_fds (duplicate_fd E dup r s) =
    (let h = c_fds s; ob = h r in
     h(dup := zero_fd\<lparr>fd_Version := 1, fd_File := fd_File ob, fd_Flags := fd_Flags ob,
         fd_Action := fd_Action ob, fd_Lock := fd_Lock ob, fd_Aux := None,
         fd_Original := Some r, fd_NextAlias := fd_NextAlias (h r)\<rparr>,
       r := (h r)\<lparr>fd_NextAlias := Some dup\<rparr>))"
  using assms by (auto simp: duplicate_fd_def initialize_fd_def Let_def)

lemma duplicate_fd_store:
  assumes "alias_group (c_fds s) r as" and "orig \<in> set (r # as)" and "dup \<notin> set (r # as)"
  shows "c_fds (duplicate_fd E dup orig s) =
    (let h = c_fds s; ob = h orig in
     h(dup := zero_fd\<lparr>fd_Version := 1, fd_File := fd_File ob, fd_Flags := fd_Flags ob,
         fd_Action := fd_Action ob, fd_Lock := fd_Lock ob, fd_Aux := None,
         fd_Original := Some r, fd_NextAlias := fd_NextAlias (h r)\<rparr>,
       r := (h r)\<lparr>fd_NextAlias := Some dup\<rparr>))"
  using assms
  by (auto simp: duplicate_fd_def initialize_fd_def alias_group_def Let_def split: option.split)

lemma duplicate_fd_group:
  assumes "alias_group (c_fds s) r as" and "orig \<in> set (r # as)" and "dup \<notin> set (r # as)"
  shows "alias_group (c_fds (duplicate_fd E dup orig s)) r (dup # as)"
  using assms
  by (auto simp: duplicate_fd_store Let_def alias_group_def zero_fd_def)

text \<open>Unlinking changes the link of the predecessor and nothing else.\<close>

lemma unlink_alias_result:
  assumes "chain h (Some l) (l # xs @ fd # ys)" and "distinct (l # xs @ fd # ys)"
  shows "unlink_alias fd (Some l) h =
    Some (h(last (l # xs) := (h (last (l # xs)))\<lparr>fd_NextAlias := fd_NextAlias (h fd)\<rparr>))"
  using assms
proof (induction xs arbitrary: l)
  case Nil
  then show ?case by (subst unlink_alias.simps) simp
next
  case (Cons x xs)
  then have "unlink_alias fd (Some l) h = unlink_alias fd (Some x) h"
    by (subst unlink_alias.simps) simp
  with Cons show ?case by simp
qed

lemma chain_unlinked:
  assumes "chain h (Some l) (l # xs @ fd # ys)" and "distinct (l # xs @ fd # ys)"
  shows "chain (h(last (l # xs) := (h (last (l # xs)))\<lparr>fd_NextAlias := fd_NextAlias (h fd)\<rparr>))
    (Some l) (l # xs @ ys)"
  using assms
proof (induction xs arbitrary: l)
  case Nil
  then have "chain h (fd_NextAlias (h fd)) ys" and "l \<notin> set ys" by auto
  then have "chain (h(l := (h l)\<lparr>fd_NextAlias := fd_NextAlias (h fd)\<rparr>)) (fd_NextAlias (h fd)) ys"
    by (subst chain_upd_other)
  then show ?case by (simp add: fun_upd_def)
next
  case (Cons x xs)
  let ?h' = "h(last (x # xs) := (h (last (x # xs)))\<lparr>fd_NextAlias := fd_NextAlias (h fd)\<rparr>)"
  from Cons.prems have "chain ?h' (Some x) (x # xs @ ys)"
    by (intro Cons.IH) simp_all
  moreover from Cons.prems have "l \<noteq> last (x # xs)" and "fd_NextAlias (h l) = Some x"
    by auto
  then have "fd_NextAlias (?h' l) = Some x"
    by simp
  moreover have "last (l # x # xs) = last (x # xs)"
    by simp
  ultimately show ?case
    by (simp only: append_Cons chain.simps(2) [of _ _ l] simp_thms)
qed

lemma migrate_aliases_result:
  assumes "chain h p as" and "distinct as"
  shows "migrate_aliases first p h =
    Some (\<lambda>a. if a \<in> set as then (h a)\<lparr>fd_Original := Some first\<rparr> else h a)"
  using assms
proof (induction as arbitrary: p h)
  case Nil
  then show ?case by (subst migrate_aliases.simps) simp
next
  case (Cons a as)
  then have p: "p = Some a" and rest: "chain h (fd_NextAlias (h a)) as" and na: "a \<notin> set as"
    by auto
  let ?h = "h(a := (h a)\<lparr>fd_Original := Some first\<rparr>)"
  from rest na have "chain ?h (fd_NextAlias (h a)) as" by simp
  then have "migrate_aliases first (fd_NextAlias (h a)) ?h =
      Some (\<lambda>b. if b \<in> set as then (?h b)\<lparr>fd_Original := Some first\<rparr> else ?h b)"
    using Cons.prems(2) Cons.IH [of ?h "fd_NextAlias (h a)"] by (metis distinct.simps(2))
  with p na show ?case
    by (subst migrate_aliases.simps) (auto simp: fun_eq_iff)
qed

lemma remove_alias_group:
  assumes "alias_group (c_fds s) r as" and "fd \<in> set as"
  shows "\<exists>s'. remove_fd_alias E fd s = Some s' \<and> alias_group (c_fds s') r (remove1 fd as) \<and>
    c_fds s' fd = c_fds s fd"
proof -
  from assms(2) obtain xs ys where as: "as = xs @ fd # ys" and nx: "fd \<notin> set xs"
    by (auto dest: split_list_first)
  let ?h = "c_fds s" and ?q = "last (r # xs)"
  let ?h' = "?h(?q := (?h ?q)\<lparr>fd_NextAlias := fd_NextAlias (?h fd)\<rparr>)"
  from assms(1) as have ch: "chain ?h (Some r) (r # xs @ fd # ys)"
    and dist: "distinct (r # xs @ fd # ys)" and orig: "fd_Original (?h fd) = Some r"
    by (auto simp: alias_group_def)
  have unl: "unlink_alias fd (Some r) ?h = Some ?h'"
    using ch dist by (rule unlink_alias_result)
  have "chain ?h' (Some r) (r # xs @ ys)"
    using ch dist by (rule chain_unlinked)
  moreover have "?q \<noteq> fd" and "remove1 fd as = xs @ ys"
    using dist nx as by (auto simp: remove1_append split: if_splits)
  moreover from assms(1) have "fd_Original (?h' r) = None"
    by (auto simp: alias_group_def)
  moreover from assms(1) as have "\<forall>a \<in> set (xs @ ys). fd_Original (?h' a) = Some r"
    by (auto simp: alias_group_def)
  ultimately have "alias_group ?h' r (remove1 fd as)" and "?h' fd = ?h fd"
    using dist by (auto simp: alias_group_def)
  with unl orig show ?thesis
    by (simp add: remove_fd_alias_def Let_def)
qed

text \<open>Closing an original hands its resources to its first alias, which becomes the original.\<close>

lemma remove_original_group:
  assumes "alias_group (c_fds s) r (a # as)"
  shows "\<exists>s'. remove_fd_alias E r s = Some s' \<and> alias_group (c_fds s') a as \<and>
    c_fds s' a = (c_fds s r)\<lparr>fd_Original := None, fd_NextAlias := fd_NextAlias (c_fds s a)\<rparr>"
proof -
  let ?h = "c_fds s"
  let ?h2 = "?h(a := (?h r)\<lparr>fd_NextAlias := fd_NextAlias (?h a), fd_Original := None\<rparr>)"
  from assms have "chain ?h2 (fd_NextAlias (?h a)) as" and d: "distinct (r # a # as)"
    by (auto simp: alias_group_def)
  then have mig: "migrate_aliases a (fd_NextAlias (?h a)) ?h2 =
      Some (\<lambda>b. if b \<in> set as then (?h2 b)\<lparr>fd_Original := Some a\<rparr> else ?h2 b)" (is "_ = Some ?h3")
    by (intro migrate_aliases_result) auto
  have "chain ?h3 (fd_NextAlias (?h3 a)) as = chain ?h2 (fd_NextAlias (?h3 a)) as"
    by (rule chain_cong) simp
  with \<open>chain ?h2 (fd_NextAlias (?h a)) as\<close> d have "alias_group ?h3 a as"
    by (simp add: alias_group_def)
  moreover from assms have "fd_Original (?h r) = None" "fd_NextAlias (?h r) = Some a"
    by (auto simp: alias_group_def)
  ultimately show ?thesis
    using mig d by (simp add: remove_fd_alias_def Let_def fun_upd_upd)
qed

end
