(* ===== verification/Fd_Ops.thy ===== *)
theory Fd_Ops
  imports Fd_Table
begin

text \<open>
  The operations on the file descriptor table and the unbuffered calls: growing the table
  (\<^verbatim>\<open>stdio/growfdtable.c\<close>), finding a vacant entry (\<^verbatim>\<open>stdio/findvacantfdentry.c\<close>),
  \<^verbatim>\<open>close()\<close>, \<^verbatim>\<open>dup()\<close>, \<^verbatim>\<open>dup2()\<close>, \<^verbatim>\<open>read()\<close>, \<^verbatim>\<open>write()\<close>,
  \<^verbatim>\<open>lseek()\<close>, the socket transfers they forward to (\<^verbatim>\<open>socket/recv.c\<close>,
  \<^verbatim>\<open>socket/send.c\<close>), replacing the action or user data of a descriptor, and the
  translation of dos.library errors. The lemmas show that the table stays well formed, what
  \<^verbatim>\<open>dup()\<close> and \<^verbatim>\<open>dup2()\<close> do to every descriptor number, and the results of the
  transfers on each branch.
\<close>

section \<open>Error codes\<close>

definition map_table :: "(dos_error \<times> int) list" where
  "map_table =
    [(ERROR_NO_FREE_STORE, ENOMEM), (ERROR_TASK_TABLE_FULL, ENOMEM), (ERROR_BAD_TEMPLATE, EINVAL),
     (ERROR_BAD_NUMBER, EINVAL), (ERROR_REQUIRED_ARG_MISSING, EINVAL), (ERROR_KEY_NEEDS_ARG, EINVAL),
     (ERROR_TOO_MANY_ARGS, EINVAL), (ERROR_UNMATCHED_QUOTES, EINVAL), (ERROR_LINE_TOO_LONG, ENAMETOOLONG),
     (ERROR_FILE_NOT_OBJECT, ENOEXEC), (ERROR_OBJECT_IN_USE, EBUSY), (ERROR_OBJECT_EXISTS, EEXIST),
     (ERROR_DIR_NOT_FOUND, ENOENT), (ERROR_OBJECT_NOT_FOUND, ENOENT), (ERROR_BAD_STREAM_NAME, EINVAL),
     (ERROR_OBJECT_TOO_LARGE, EFBIG), (ERROR_ACTION_NOT_KNOWN, ENOSYS),
     (ERROR_INVALID_COMPONENT_NAME, EINVAL), (ERROR_INVALID_LOCK, EBADF),
     (ERROR_OBJECT_WRONG_TYPE, EFTYPE), (ERROR_DISK_NOT_VALIDATED, EROFS),
     (ERROR_DISK_WRITE_PROTECTED, EROFS), (ERROR_RENAME_ACROSS_DEVICES, EXDEV),
     (ERROR_DIRECTORY_NOT_EMPTY, ENOTEMPTY), (ERROR_TOO_MANY_LEVELS, ENAMETOOLONG),
     (ERROR_DEVICE_NOT_MOUNTED, ENXIO), (ERROR_COMMENT_TOO_BIG, ENAMETOOLONG),
     (ERROR_DISK_FULL, ENOSPC), (ERROR_DELETE_PROTECTED, EACCES), (ERROR_WRITE_PROTECTED, EACCES),
     (ERROR_READ_PROTECTED, EACCES), (ERROR_NOT_A_DOS_DISK, EFTYPE), (ERROR_NO_DISK, EACCES),
     (ERROR_IS_SOFT_LINK, EFTYPE), (ERROR_BAD_HUNK, ENOEXEC), (ERROR_NOT_IMPLEMENTED, ENOSYS),
     (ERROR_LOCK_COLLISION, EACCES), (ERROR_BREAK, EINTR), (ERROR_NOT_EXECUTABLE, ENOEXEC),
     (ERROR_WOULD_BLOCK, EWOULDBLOCK)]"

fun translate_loop :: "(dos_error \<times> int) list \<Rightarrow> dos_error \<Rightarrow> int" where
  "translate_loop [] io_err = EIO"
| "translate_loop ((e, n) # es) io_err = (if e = io_err then n else translate_loop es io_err)"

definition translate_io_error_to_errno :: "dos_error \<Rightarrow> int" where
  "translate_io_error_to_errno io_err = translate_loop map_table io_err"

definition translate_access_io_error_to_errno :: "dos_error \<Rightarrow> int" where
  "translate_access_io_error_to_errno io_err =
     (if io_err = ERROR_OBJECT_WRONG_TYPE then ENOTDIR else translate_io_error_to_errno io_err)"

section \<open>The table\<close>

text \<open>
  The loop of \<^verbatim>\<open>__find_vacant_fd_entry\<close> from index \<open>i\<close> on; dereferencing a \<^verbatim>\<open>NULL\<close>
  entry is \<open>None\<close>.
\<close>

fun find_vacant_from :: "(nat \<Rightarrow> fd) \<Rightarrow> int \<Rightarrow> nat option list \<Rightarrow> int option" where
  "find_vacant_from h i [] = Some ERROR"
| "find_vacant_from h i (None # es) = None"
| "find_vacant_from h i (Some a # es) =
     (if FLAG_IS_CLEAR (fd_Flags (h a)) FDF_IN_USE then Some i else find_vacant_from h (i + 1) es)"

definition find_vacant_fd_entry :: "('x, 'd) clib4 \<Rightarrow> int option" where
  "find_vacant_fd_entry s = find_vacant_from (c_fds s) 0 (c_fd s)"

text \<open>The allocation loop of \<^verbatim>\<open>__grow_fd_table\<close>: the entries made, and whether all were.\<close>

fun grow_fd_entries ::
  "('x, 'd) env \<Rightarrow> nat \<Rightarrow> nat list \<Rightarrow> ('x, 'd) clib4 \<Rightarrow> (nat list \<times> bool) \<times> ('x, 'd) clib4" where
  "grow_fd_entries E 0 acc s = ((acc, True), s)"
| "grow_fd_entries E (Suc k) acc s =
     (case env_malloc E (env_sizeof_fd E) (c_exec s) of
        (None, x) \<Rightarrow> ((acc, False), s\<lparr>c_exec := x\<rparr>)
      | (Some a, x) \<Rightarrow>
          (let s1 = upd_fd a (\<lambda>_. zero_fd) (s\<lparr>c_exec := x\<rparr>);
               s2 = s1\<lparr>c_exec := env_LockMem E a (c_exec s1)\<rparr>
           in grow_fd_entries E k (acc @ [a]) s2))"

definition free_fd_entries :: "('x, 'd) env \<Rightarrow> nat list \<Rightarrow> 'x \<Rightarrow> 'x" where
  "free_fd_entries E as x = foldl (\<lambda>y a. env_free E a (env_UnlockMem E a y)) x as"

text \<open>
  \<^verbatim>\<open>__num_fd\<close> is 0 while \<^verbatim>\<open>__fd\<close> is \<^verbatim>\<open>NULL\<close> (asserted by
  \<^verbatim>\<open>__find_vacant_fd_entry\<close>), so that case has no old entries to keep.
\<close>

definition grow_fd_table ::
  "('x, 'd) env \<Rightarrow> int \<Rightarrow> ('x, 'd) clib4 \<Rightarrow> int \<times> ('x, 'd) clib4" where
  "grow_fd_table E max_fd s =
     (let num_fd = int (length (c_fd s));
          new_num_fd = (if max_fd = 0 then num_fd + 10 else max_fd)
      in if new_num_fd > num_fd
         then case env_malloc E (4 * nat new_num_fd) (c_exec s) of
             (None, x) \<Rightarrow> (ERROR, set_errno ENOMEM (s\<lparr>c_exec := x\<rparr>))
           | (Some new_fd, x) \<Rightarrow>
               (case grow_fd_entries E (nat (new_num_fd - num_fd)) [] (s\<lparr>c_exec := x\<rparr>) of
                  ((as, False), s1) \<Rightarrow>
                    (ERROR, set_errno ENOMEM
                       (s1\<lparr>c_exec := env_free E new_fd (free_fd_entries E as (c_exec s1))\<rparr>))
                | ((as, True), s1) \<Rightarrow>
                    (case c_fd_base s1 of
                       Some old \<Rightarrow>
                         (OK, s1\<lparr>c_fd := c_fd s1 @ map Some as, c_fd_base := Some new_fd,
                            c_exec := env_free E old (c_exec s1)\<rparr>)
                     | None \<Rightarrow> (OK, s1\<lparr>c_fd := map Some as, c_fd_base := Some new_fd\<rparr>)))
         else (OK, s))"

section \<open>Closing and duplicating\<close>

definition close :: "('x, 'd) env \<Rightarrow> int \<Rightarrow> ('x, 'd) clib4 \<Rightarrow> int \<times> ('x, 'd) clib4" where
  "close E d s =
     (case get_file_descriptor_dont_resolve E s d of
        (None, s1) \<Rightarrow> (ERROR, set_errno EBADF s1)
      | (Some a, s1) \<Rightarrow>
          (case env_fd_Action E s1 a (new_fam E file_action_close) of
             (n, m, s2) \<Rightarrow> if n < 0 then (ERROR, set_errno (fam_Error m) s2) else (OK, s2)))"

text \<open>
  The tail shared by \<^verbatim>\<open>dup()\<close> and \<^verbatim>\<open>dup2()\<close>: make sure that the entry is unused, then
  link the duplicate. An entry outside the table or \<^verbatim>\<open>NULL\<close> is a fault (\<open>None\<close>).
\<close>

definition dup_into ::
  "('x, 'd) env \<Rightarrow> int \<Rightarrow> nat \<Rightarrow> int \<Rightarrow> ('x, 'd) clib4 \<Rightarrow> (int \<times> ('x, 'd) clib4) option" where
  "dup_into E d1 fd1 d2 s =
     (if d1 \<noteq> d2
      then case fd_slot s d2 of
          None \<Rightarrow> None
        | Some fd2 \<Rightarrow>
            if FLAG_IS_SET (fd_Flags (c_fds s fd2)) FDF_IN_USE
            then (case close E d2 s of
                (n, s1) \<Rightarrow>
                  if n < 0 then Some (ERROR, s1) else Some (d2, duplicate_fd E fd2 fd1 s1))
            else Some (d2, duplicate_fd E fd2 fd1 s)
      else Some (d2, s))"

definition dup :: "('x, 'd) env \<Rightarrow> int \<Rightarrow> ('x, 'd) clib4 \<Rightarrow> (int \<times> ('x, 'd) clib4) option" where
  "dup E d1 s =
     map_option (\<lambda>(n, t). (n, stdio_unlock E t))
       (case get_file_descriptor E (stdio_lock E s) d1 of
          (None, s1) \<Rightarrow> Some (ERROR, set_errno EBADF s1)
        | (Some fd1, s1) \<Rightarrow>
            (case find_vacant_fd_entry s1 of
               None \<Rightarrow> None
             | Some d2 \<Rightarrow>
                 if d2 < 0
                 then (case grow_fd_table E 0 s1 of
                     (n, s2) \<Rightarrow>
                       if n < 0 then Some (ERROR, s2)
                       else (case find_vacant_fd_entry s2 of
                           None \<Rightarrow> None
                         | Some d2' \<Rightarrow> dup_into E d1 fd1 d2' s2))
                 else dup_into E d1 fd1 d2 s1))"

abbreviation (input) OPEN_MAX :: int where "OPEN_MAX \<equiv> 64"

definition dup2 ::
  "('x, 'd) env \<Rightarrow> int \<Rightarrow> int \<Rightarrow> ('x, 'd) clib4 \<Rightarrow> (int \<times> ('x, 'd) clib4) option" where
  "dup2 E d1 d2 s =
     map_option (\<lambda>(n, t). (n, stdio_unlock E t))
       (case get_file_descriptor E (stdio_lock E s) d1 of
          (None, s1) \<Rightarrow> Some (ERROR, set_errno EBADF s1)
        | (Some fd1, s1) \<Rightarrow>
            if d2 < 0 \<or> d2 > OPEN_MAX then Some (ERROR, set_errno EBADF s1)
            else if d1 \<noteq> d2
            then (case grow_fd_table E (d2 + 1) s1 of
                (n, s2) \<Rightarrow> if n < 0 then Some (ERROR, s2) else dup_into E d1 fd1 d2 s2)
            else dup_into E d1 fd1 d2 s1)"

section \<open>Transfers\<close>

text \<open>\<^verbatim>\<open>(ssize_t) num_bytes\<close> and \<^verbatim>\<open>(LONG) nbytes\<close> of a 32-bit \<^verbatim>\<open>size_t\<close>.\<close>

definition ssize :: "nat \<Rightarrow> int" where
  "ssize n = sint (word_of_nat n :: ulong)"

lemma ssize_id: "n < 2 ^ 31 \<Longrightarrow> ssize n = int n"
  by (simp add: ssize_def signed_of_nat signed_take_bit_int_eq_self)

definition get_file_descriptor_socket ::
  "('x, 'd) env \<Rightarrow> ('x, 'd) clib4 \<Rightarrow> int \<Rightarrow> nat option \<times> ('x, 'd) clib4" where
  "get_file_descriptor_socket E s d =
     (case get_file_descriptor E s d of
        (None, s1) \<Rightarrow> (None, set_errno EBADF s1)
      | (Some a, s1) \<Rightarrow>
          if FLAG_IS_CLEAR (fd_Flags (c_fds s1 a)) FDF_IS_SOCKET then (None, set_errno ENOTSOCK s1)
          else (Some a, s1))"

text \<open>A buffer is the memory it points to, \<open>None\<close> for \<^verbatim>\<open>NULL\<close>.\<close>

definition recv ::
  "('x, 'd) env \<Rightarrow> int \<Rightarrow> byte list option \<Rightarrow> nat \<Rightarrow> int \<Rightarrow> ('x, 'd) clib4
   \<Rightarrow> int \<times> byte list option \<times> ('x, 'd) clib4" where
  "recv E sockfd buff nbytes flags s = (case buff of
     None \<Rightarrow> (ERROR, None, set_errno EFAULT s)
   | Some mem \<Rightarrow>
       (case get_file_descriptor_socket E s sockfd of
          (None, s1) \<Rightarrow> (ERROR, Some mem, s1)
        | (Some a, s1) \<Rightarrow>
            (case env_recv E (fd_File (c_fds s1 a)) nbytes flags (c_errno s1) (c_exec s1) of
               (n, data, e, x) \<Rightarrow>
                 (n, Some (mem_splice mem 0 data), s1\<lparr>c_errno := e, c_exec := x\<rparr>))))"

definition send_r ::
  "('x, 'd) env \<Rightarrow> int \<Rightarrow> byte list option \<Rightarrow> nat \<Rightarrow> int \<Rightarrow> ('x, 'd) clib4
   \<Rightarrow> int \<times> ('x, 'd) clib4" where
  "send_r E sockfd buff nbytes flags s = (case buff of
     None \<Rightarrow> (ERROR, set_errno EFAULT s)
   | Some mem \<Rightarrow>
       (case get_file_descriptor_socket E s sockfd of
          (None, s1) \<Rightarrow> (ERROR, s1)
        | (Some a, s1) \<Rightarrow>
            (case env_send E (fd_File (c_fds s1 a)) (take nbytes mem) flags (c_errno s1) (c_exec s1) of
               (n, e, x) \<Rightarrow> (n, s1\<lparr>c_errno := e, c_exec := x\<rparr>))))"

definition read_internal ::
  "('x, 'd) env \<Rightarrow> int \<Rightarrow> byte list option \<Rightarrow> nat \<Rightarrow> ('x, 'd) clib4
   \<Rightarrow> int \<times> byte list option \<times> ('x, 'd) clib4" where
  "read_internal E d buffer num_bytes s0 =
     (let s = set_errno 0 s0 in
      case (case buffer of
          None \<Rightarrow> (EOF, None, set_errno EFAULT s)
        | Some mem \<Rightarrow>
            (case get_file_descriptor E s d of
               (None, s1) \<Rightarrow> (EOF, buffer, set_errno EBADF s1)
             | (Some a, s1) \<Rightarrow>
                 (let s2 = fd_lock E a (stdio_lock E s1); fl = fd_Flags (c_fds s2 a) in
                  if FLAG_IS_CLEAR fl FDF_IN_USE \<and> FLAG_IS_SET fl FDF_PIPE
                  then (EOF, buffer, set_errno EPIPE (fd_unlock E a s2))
                  else if FLAG_IS_CLEAR fl FDF_READ
                  then (EOF, buffer, fd_unlock E a (set_errno EBADF s2))
                  else (let s3 = fd_unlock E a s2 in
                    if num_bytes > 0
                    then if \<not> FLAG_IS_SET (fd_Flags (c_fds s3 a)) FDF_IS_SOCKET
                      then (case env_fd_Action E s3 a
                              ((new_fam E file_action_read)\<lparr>fam_Data := mem, fam_Size := num_bytes\<rparr>) of
                          (n, m, s4) \<Rightarrow>
                            if n = EOF then (EOF, Some (fam_Data m), set_errno (fam_Error m) s4)
                            else (n, Some (fam_Data m), s4))
                      else recv E d buffer num_bytes 0 s3
                    else (0, buffer, s3))))) of
        (result, buf, t) \<Rightarrow> (result, buf, stdio_unlock E t))"

text \<open>The byte swaps of \<^verbatim>\<open>fcntl/read.c\<close>, on a buffer that has the bytes.\<close>

fun byteswap16 :: "byte list \<Rightarrow> byte list" where
  "byteswap16 (b0 # b1 # r) = b1 # b0 # r"
| "byteswap16 r = r"

fun byteswap32 :: "byte list \<Rightarrow> byte list" where
  "byteswap32 (b0 # b1 # b2 # b3 # r) = b3 # b2 # b1 # b0 # r"
| "byteswap32 r = r"

fun byteswap64_from :: "nat \<Rightarrow> nat \<Rightarrow> byte list \<Rightarrow> byte list" where
  "byteswap64_from 0 i b = b"
| "byteswap64_from (Suc k) i b =
     (let t = b ! i in byteswap64_from k (i + 1) ((b[i := b ! (7 - i)])[7 - i := t]))"

definition byteswap64 :: "byte list \<Rightarrow> byte list" where
  "byteswap64 b = (if length b < 8 then b else byteswap64_from 4 0 b)"

text \<open>\<open>None\<close> is the dereference of a descriptor that is \<^verbatim>\<open>NULL\<close>.\<close>

definition read ::
  "('x, 'd) env \<Rightarrow> int \<Rightarrow> byte list option \<Rightarrow> nat \<Rightarrow> ('x, 'd) clib4
   \<Rightarrow> (int \<times> byte list option \<times> ('x, 'd) clib4) option" where
  "read E d buffer num_bytes s =
     (case read_internal E d buffer num_bytes s of
        (ret, buf, s1) \<Rightarrow>
          if ret \<noteq> ssize num_bytes then Some (ret, buf, s1)
          else (case get_file_descriptor E s1 d of
              (None, s2) \<Rightarrow> None
            | (Some a, s2) \<Rightarrow>
                (let fl = fd_Flags (c_fds s2 a) in
                 if \<not> FLAG_IS_SET fl FDF_IS_SOCKET \<and> FLAG_IS_SET fl FDF_LITTLE_ENDIAN
                 then Some (ret,
                   (if num_bytes = 2 then map_option byteswap16 buf
                    else if num_bytes = 4 then map_option byteswap32 buf
                    else if num_bytes = 8 then map_option byteswap64 buf else buf), s2)
                 else Some (ret, buf, s2))))"

definition write_r ::
  "('x, 'd) env \<Rightarrow> int \<Rightarrow> byte list option \<Rightarrow> nat \<Rightarrow> ('x, 'd) clib4 \<Rightarrow> int \<times> ('x, 'd) clib4" where
  "write_r E d buffer num_bytes s =
     (case (case buffer of
          None \<Rightarrow> (EOF, set_errno EFAULT s)
        | Some mem \<Rightarrow>
            (case get_file_descriptor E s d of
               (None, s1) \<Rightarrow> (EOF, set_errno EBADF s1)
             | (Some a, s1) \<Rightarrow>
                 (let s2 = fd_lock E a (stdio_lock E s1); fl = fd_Flags (c_fds s2 a) in
                  if FLAG_IS_CLEAR fl FDF_IN_USE \<and> FLAG_IS_SET fl FDF_PIPE
                  then (EOF, fd_unlock E a (set_errno EPIPE s2))
                  else if FLAG_IS_CLEAR fl FDF_WRITE
                  then (EOF, fd_unlock E a (set_errno EBADF s2))
                  else (let s3 = fd_unlock E a s2 in
                    if num_bytes > 0
                    then if \<not> FLAG_IS_SET (fd_Flags (c_fds s3 a)) FDF_IS_SOCKET
                      then (case env_fd_Action E s3 a
                              ((new_fam E file_action_write)\<lparr>fam_Data := mem, fam_Size := num_bytes\<rparr>) of
                          (n, m, s4) \<Rightarrow>
                            if n = EOF then (EOF, set_errno (fam_Error m) s4)
                            else if n \<noteq> ssize num_bytes
                            then (n, set_errno (translate_io_error_to_errno (env_IoErr E (c_dos s4))) s4)
                            else (n, s4))
                      else send_r E d buffer num_bytes 0 s3
                    else (0, s3))))) of
        (result, t) \<Rightarrow> (result, stdio_unlock E t))"

definition write_c ::
  "('x, 'd) env \<Rightarrow> int \<Rightarrow> byte list option \<Rightarrow> nat \<Rightarrow> ('x, 'd) clib4 \<Rightarrow> int \<times> ('x, 'd) clib4" where
  "write_c E d buffer num_bytes s = write_r E d buffer num_bytes s"

abbreviation (input) SEEK_SET :: int where "SEEK_SET \<equiv> 0"
abbreviation (input) SEEK_CUR :: int where "SEEK_CUR \<equiv> 1"
abbreviation (input) SEEK_END :: int where "SEEK_END \<equiv> 2"

definition lseek ::
  "('x, 'd) env \<Rightarrow> int \<Rightarrow> int \<Rightarrow> int \<Rightarrow> ('x, 'd) clib4 \<Rightarrow> int \<times> ('x, 'd) clib4" where
  "lseek E d offset mode s =
     (case (case get_file_descriptor E (stdio_lock E s) d of
          (None, s1) \<Rightarrow> (CHANGE_FILE_ERROR, set_errno EBADF s1)
        | (Some a, s1) \<Rightarrow>
            (let s2 = fd_lock E a s1 in
             if mode < SEEK_SET \<or> mode > SEEK_END
             then (CHANGE_FILE_ERROR, set_errno EINVAL (fd_unlock E a s2))
             else (case env_fd_Action E s2 a
                     ((new_fam E file_action_seek)\<lparr>fam_Offset := offset, fam_Mode := mode\<rparr>) of
                 (position, m, s3) \<Rightarrow>
                   if position = CHANGE_FILE_ERROR \<and> fam_Error m \<noteq> OK
                   then (CHANGE_FILE_ERROR, set_errno (fam_Error m) (fd_unlock E a s3))
                   else (let s4 = (if position < 0 then set_errno OK s3 else s3)
                         in (position, fd_unlock E a s4))))) of
        (result, t) \<Rightarrow> (result, stdio_unlock E t))"

section \<open>Replacing the action and the user data\<close>

text \<open>The second component of the result is what \<^verbatim>\<open>*old_action_ptr\<close> is set to.\<close>

definition change_fd_action ::
  "('x, 'd) env \<Rightarrow> int \<Rightarrow> nat \<Rightarrow> ('x, 'd) clib4 \<Rightarrow> int \<times> nat option \<times> ('x, 'd) clib4" where
  "change_fd_action E d new_action s =
     (case get_file_descriptor E (stdio_lock E s) d of
        (None, s1) \<Rightarrow> (- 1, None, stdio_unlock E s1)
      | (Some a, s1) \<Rightarrow>
          (let s2 = fd_lock E a s1;
               s3 = upd_fd a (\<lambda>f. f\<lparr>fd_Action := new_action\<rparr>) s2
           in (0, Some (fd_Action (c_fds s2 a)), stdio_unlock E (fd_unlock E a s3))))"

definition change_fd_user_data ::
  "('x, 'd) env \<Rightarrow> int \<Rightarrow> nat \<Rightarrow> ('x, 'd) clib4 \<Rightarrow> int \<times> nat option \<times> ('x, 'd) clib4" where
  "change_fd_user_data E d new_user_data s =
     (case get_file_descriptor E (stdio_lock E s) d of
        (None, s1) \<Rightarrow> (- 1, None, stdio_unlock E s1)
      | (Some a, s1) \<Rightarrow>
          (let s2 = fd_lock E a s1;
               s3 = upd_fd a (\<lambda>f. f\<lparr>fd_UserData := new_user_data\<rparr>) s2
           in (0, Some (fd_UserData (c_fds s2 a)), stdio_unlock E (fd_unlock E a s3))))"

section \<open>The well-formed table\<close>

text \<open>
  What the table operations rely on in the allocator: an address that \<^verbatim>\<open>malloc\<close> returns was
  not live, \<^verbatim>\<open>free\<close> ends the life of an address, and the lock and paging calls of
  exec.library leave the live addresses alone.
\<close>

definition malloc_fresh :: "('x, 'd) env \<Rightarrow> ('x \<Rightarrow> nat set) \<Rightarrow> bool" where
  "malloc_fresh E live \<longleftrightarrow>
     (\<forall>n x. case env_malloc E n x of
        (None, y) \<Rightarrow> live y = live x
      | (Some a, y) \<Rightarrow> a \<notin> live x \<and> live y = insert a (live x))"

definition keeps_live :: "('x, 'd) env \<Rightarrow> ('x \<Rightarrow> nat set) \<Rightarrow> bool" where
  "keeps_live E live \<longleftrightarrow>
     (\<forall>a x. live (env_free E a x) = live x - {a}) \<and>
     (\<forall>a x. live (env_LockMem E a x) = live x) \<and> (\<forall>a x. live (env_UnlockMem E a x) = live x) \<and>
     (\<forall>a t x. live (env_ObtainSemaphoreShared E a t x) = live x) \<and>
     (\<forall>a t x. live (env_ReleaseSemaphore E a t x) = live x) \<and>
     (\<forall>a t x. live (env_MutexObtain E a t x) = live x) \<and>
     (\<forall>a t x. live (env_MutexRelease E a t x) = live x)"

definition allocator_ok :: "('x, 'd) env \<Rightarrow> ('x \<Rightarrow> nat set) \<Rightarrow> bool" where
  "allocator_ok E live \<longleftrightarrow> malloc_fresh E live \<and> keeps_live E live"

definition fd_entries :: "('x, 'd) clib4 \<Rightarrow> nat set" where
  "fd_entries s = {a. Some a \<in> set (c_fd s)}"

text \<open>
  The table: distinct, allocated, non-\<^verbatim>\<open>NULL\<close> entries, and every alias in use refers to an
  original in use.
\<close>

abbreviation vacant :: "(nat \<Rightarrow> fd) \<Rightarrow> nat \<Rightarrow> bool" where
  "vacant h a \<equiv> FLAG_IS_CLEAR (fd_Flags (h a)) FDF_IN_USE"

definition aliases_ok :: "nat set \<Rightarrow> (nat \<Rightarrow> fd) \<Rightarrow> bool" where
  "aliases_ok S h \<longleftrightarrow>
     (\<forall>a \<in> S. \<forall>r. \<not> vacant h a \<longrightarrow> fd_Original (h a) = Some r \<longrightarrow>
        r \<in> S \<and> \<not> vacant h r \<and> fd_Original (h r) = None)"

definition fd_wf :: "('x \<Rightarrow> nat set) \<Rightarrow> ('x, 'd) clib4 \<Rightarrow> bool" where
  "fd_wf live s \<longleftrightarrow>
     None \<notin> set (c_fd s) \<and> distinct (c_fd s) \<and> fd_entries s \<subseteq> live (c_exec s) \<and>
     (case c_fd_base s of None \<Rightarrow> c_fd s = [] | Some b \<Rightarrow> b \<in> live (c_exec s) \<and> b \<notin> fd_entries s) \<and>
     aliases_ok (fd_entries s) (c_fds s)"

lemma aliases_okD:
  "aliases_ok S h \<Longrightarrow> a \<in> S \<Longrightarrow> \<not> vacant h a \<Longrightarrow> fd_Original (h a) = Some r \<Longrightarrow>
    r \<in> S \<and> \<not> vacant h r \<and> fd_Original (h r) = None"
  unfolding aliases_ok_def by blast

lemma aliases_ok_extend:
  assumes "aliases_ok S h"
    and "\<forall>a \<in> S. fd_Flags (h' a) = fd_Flags (h a) \<and> fd_Original (h' a) = fd_Original (h a)"
    and "\<forall>a \<in> T. vacant h' a"
  shows "aliases_ok (S \<union> T) h'"
  unfolding aliases_ok_def
proof (intro ballI allI impI)
  fix a r
  assume a: "a \<in> S \<union> T" "\<not> vacant h' a" "fd_Original (h' a) = Some r"
  with assms(3) have "a \<in> S" by blast
  with a assms(2) have "\<not> vacant h a" "fd_Original (h a) = Some r" by auto
  with assms(1) \<open>a \<in> S\<close> have "r \<in> S \<and> \<not> vacant h r \<and> fd_Original (h r) = None"
    by (intro aliases_okD)
  with assms(2) show "r \<in> S \<union> T \<and> \<not> vacant h' r \<and> fd_Original (h' r) = None"
    by simp
qed

lemma allocator_okD:
  assumes "allocator_ok E live"
  shows "live (env_free E a x) = live x - {a}"
    "live (env_LockMem E a x) = live x" "live (env_UnlockMem E a x) = live x"
    "live (env_ObtainSemaphoreShared E a t x) = live x"
    "live (env_ReleaseSemaphore E a t x) = live x"
    "live (env_MutexObtain E a t x) = live x" "live (env_MutexRelease E a t x) = live x"
  using assms by (simp_all add: allocator_ok_def keeps_live_def)

lemma allocator_malloc:
  assumes "allocator_ok E live" and m: "env_malloc E n x = (Some a, y)"
  shows "a \<notin> live x \<and> live y = insert a (live x)"
proof -
  from assms(1) have "malloc_fresh E live" by (simp add: allocator_ok_def)
  from spec [OF spec [OF this [unfolded malloc_fresh_def], of n], of x] m show ?thesis
    by (simp only: prod.case option.case) simp
qed

lemma allocator_malloc_fails:
  assumes "allocator_ok E live" and m: "env_malloc E n x = (None, y)"
  shows "live y = live x"
proof -
  from assms(1) have "malloc_fresh E live" by (simp add: allocator_ok_def)
  from spec [OF spec [OF this [unfolded malloc_fresh_def], of n], of x] m show ?thesis
    by (simp only: prod.case option.case)
qed

lemma live_locks:
  assumes "allocator_ok E live"
  shows "live (c_exec (stdio_lock E s)) = live (c_exec s)"
    "live (c_exec (stdio_unlock E s)) = live (c_exec s)"
    "live (c_exec (fd_lock E a s)) = live (c_exec s)"
    "live (c_exec (fd_unlock E a s)) = live (c_exec s)"
  by (simp_all add: stdio_lock_def stdio_unlock_def fd_lock_def fd_unlock_def
      allocator_okD [OF assms] split: option.split)

lemma FDF_IN_USE_set: "FLAG_IS_SET v FDF_IN_USE \<longleftrightarrow> \<not> FLAG_IS_CLEAR v FDF_IN_USE"
  using FLAG_IS_SET_single_bit [of 7 v] by simp

lemma find_vacant_from_none:
  "None \<notin> set es \<Longrightarrow> \<forall>a. Some a \<in> set es \<longrightarrow> \<not> vacant h a \<Longrightarrow> find_vacant_from h i es = Some ERROR"
  by (induction h i es rule: find_vacant_from.induct) auto

lemma find_vacant_from_first:
  "\<forall>b. Some b \<in> set es \<longrightarrow> \<not> vacant h b \<Longrightarrow> None \<notin> set es \<Longrightarrow> vacant h a \<Longrightarrow>
    find_vacant_from h i (es @ Some a # fs) = Some (i + int (length es))"
  by (induction h i es rule: find_vacant_from.induct) auto

lemma find_vacant_from_cases:
  assumes "None \<notin> set es"
  obtains (full) "\<forall>a. Some a \<in> set es \<longrightarrow> \<not> vacant h a" "find_vacant_from h i es = Some ERROR"
  | (found) as a bs where "es = as @ Some a # bs" "vacant h a"
      "\<forall>b. Some b \<in> set as \<longrightarrow> \<not> vacant h b" "find_vacant_from h i es = Some (i + int (length as))"
proof (cases "\<exists>e \<in> set es. vacant h (the e)")
  case True
  then obtain as e bs where es: "es = as @ e # bs" "vacant h (the e)" "\<forall>b \<in> set as. \<not> vacant h (the b)"
    using split_list_first_prop [of es "\<lambda>e. vacant h (the e)"] by blast
  with assms obtain a where "e = Some a" by (cases e) auto
  moreover from es(3) have "\<forall>b. Some b \<in> set as \<longrightarrow> \<not> vacant h b" by auto
  ultimately show thesis
    using es assms by (intro found [of as a bs]) (simp_all add: find_vacant_from_first)
next
  case False
  then have "\<forall>a. Some a \<in> set es \<longrightarrow> \<not> vacant h a" by auto
  with assms show thesis
    by (intro full) (simp_all add: find_vacant_from_none)
qed

lemma grow_fd_entries_result:
  assumes "allocator_ok E live" and "grow_fd_entries E k acc s = ((as, ok), s')"
  shows "\<exists>new. as = acc @ new \<and> (ok \<longrightarrow> length new = k) \<and> distinct new \<and>
    set new \<inter> live (c_exec s) = {} \<and> live (c_exec s') = live (c_exec s) \<union> set new \<and>
    c_fds s' = (\<lambda>a. if a \<in> set new then zero_fd else c_fds s a) \<and>
    c_fd s' = c_fd s \<and> c_fd_base s' = c_fd_base s \<and> c_errno s' = c_errno s"
  using assms(2)
proof (induction k arbitrary: acc s)
  case 0
  then show ?case by (intro exI [of _ "[]"]) auto
next
  case (Suc k)
  obtain r x where m: "env_malloc E (env_sizeof_fd E) (c_exec s) = (r, x)"
    by (meson surj_pair)
  show ?case
  proof (cases r)
    case None
    with m have "live x = live (c_exec s)"
      by (intro allocator_malloc_fails [OF assms(1)]) simp
    moreover from Suc.prems m None have "as = acc" "\<not> ok" and s': "s' = s\<lparr>c_exec := x\<rparr>"
      by simp_all
    ultimately show ?thesis
      unfolding s' by (intro exI [of _ "[]"]) simp
  next
    case (Some a)
    let ?s = "s\<lparr>c_fds := (c_fds s)(a := zero_fd), c_exec := env_LockMem E a x\<rparr>"
    from Suc.prems m Some have "grow_fd_entries E k (acc @ [a]) ?s = ((as, ok), s')"
      by (simp add: Let_def)
    from Suc.IH [OF this] obtain new where new: "as = (acc @ [a]) @ new" "ok \<longrightarrow> length new = k"
      "distinct new" "set new \<inter> live (c_exec ?s) = {}"
      "live (c_exec s') = live (c_exec ?s) \<union> set new"
      "c_fds s' = (\<lambda>b. if b \<in> set new then zero_fd else c_fds ?s b)"
      "c_fd s' = c_fd ?s" "c_fd_base s' = c_fd_base ?s" "c_errno s' = c_errno ?s"
      by (elim exE conjE) (rule that)
    from m Some have fresh: "a \<notin> live (c_exec s) \<and> live x = insert a (live (c_exec s))"
      by (intro allocator_malloc [OF assms(1)]) simp
    have "distinct (a # new)" "set (a # new) \<inter> live (c_exec s) = {}"
      "live (c_exec s') = live (c_exec s) \<union> set (a # new)"
      using new(3-5) fresh by (auto simp: allocator_okD [OF assms(1)])
    moreover have "c_fds s' = (\<lambda>b. if b \<in> set (a # new) then zero_fd else c_fds s b)"
      by (auto simp: new(6) fun_eq_iff)
    ultimately show ?thesis
      using new(1,2,7-9) by (intro exI [of _ "a # new"]) simp
  qed
qed

lemma live_free_fd_entries:
  assumes "allocator_ok E live"
  shows "live (free_fd_entries E as x) = live x - set as"
  by (induction as arbitrary: x)
    (auto simp: free_fd_entries_def allocator_okD [OF assms])

text \<open>States that agree on the entries of the table agree on its well-formedness.\<close>

lemma fd_wf_mono:
  assumes "fd_wf live s" and "c_fd s' = c_fd s" and "c_fd_base s' = c_fd_base s"
    and "\<forall>a \<in> fd_entries s. c_fds s' a = c_fds s a" and "live (c_exec s) \<subseteq> live (c_exec s')"
  shows "fd_wf live s'"
proof -
  have e: "fd_entries s' = fd_entries s"
    using assms(2) by (simp add: fd_entries_def)
  moreover from assms(1,4) have "aliases_ok (fd_entries s \<union> {}) (c_fds s')"
    by (intro aliases_ok_extend [of _ "c_fds s"]) (simp_all add: fd_wf_def)
  ultimately show ?thesis
    using assms(1-3,5) by (auto simp: fd_wf_def split: option.splits)
qed

lemma fd_wf_locks:
  assumes "allocator_ok E live" and "fd_wf live s"
  shows "fd_wf live (stdio_lock E s)" "fd_wf live (stdio_unlock E s)"
  using assms(2) by (auto intro: fd_wf_mono simp: live_locks [OF assms(1)])

lemma zero_fd_vacant [simp]: "FLAG_IS_CLEAR (fd_Flags zero_fd) m"
  by (simp add: zero_fd_def FLAG_IS_CLEAR_def)

lemma fd_wf_grow:
  assumes "fd_wf live s" and "c_fd s' = c_fd s @ map Some new" and "c_fd_base s' = Some b"
    and "\<forall>a \<in> fd_entries s. c_fds s' a = c_fds s a" and "\<forall>a \<in> set new. c_fds s' a = zero_fd"
    and "distinct new" and "set new \<inter> live (c_exec s) = {}"
    and "fd_entries s \<union> set new \<subseteq> live (c_exec s')" and "b \<in> live (c_exec s')"
    and "b \<notin> fd_entries s" and "b \<notin> set new"
  shows "fd_wf live s'"
proof -
  have e: "fd_entries s' = fd_entries s \<union> set new"
    using assms(2) by (auto simp: fd_entries_def)
  have "fd_entries s \<subseteq> live (c_exec s)"
    using assms(1) by (simp add: fd_wf_def)
  with assms(7) have "fd_entries s \<inter> set new = {}" by blast
  then have "distinct (c_fd s')" and "None \<notin> set (c_fd s')"
    using assms(1,2,6) by (auto simp: fd_wf_def fd_entries_def distinct_map)
  moreover have "aliases_ok (fd_entries s \<union> set new) (c_fds s')"
    using assms(1,4,5) by (intro aliases_ok_extend [of _ "c_fds s"]) (simp_all add: fd_wf_def)
  ultimately show ?thesis
    using assms(3,8-11) by (simp add: fd_wf_def e)
qed

lemma fd_slot_entry: "fd_slot s k = Some a \<Longrightarrow> a \<in> fd_entries s"
  by (auto simp: fd_slot_def fd_entries_def split: if_splits) (metis nat_less_iff nth_mem)

lemma resolved_fd_cong:
  assumes "c_fd s' = c_fd s @ map Some new"
    and "\<forall>a \<in> fd_entries s. fd_Flags (c_fds s' a) = fd_Flags (c_fds s a) \<and>
      fd_Original (c_fds s' a) = fd_Original (c_fds s a)"
    and "\<forall>a \<in> set new. vacant (c_fds s') a"
  shows "resolved_fd s' k = resolved_fd s k"
proof (cases "0 \<le> k \<and> k < int (length (c_fd s))")
  case True
  then have "fd_slot s' k = fd_slot s k"
    using assms(1) by (auto simp: fd_slot_def nth_append)
  then show ?thesis
    using assms(2) by (auto simp: resolved_fd_def dest: fd_slot_entry split: option.split)
next
  case False
  then have "resolved_fd s k = None" by (auto simp: resolved_fd_def fd_slot_def)
  moreover have "\<exists>a \<in> set new. fd_slot s' k = Some a" if "fd_slot s' k \<noteq> None"
    using that False assms(1) by (auto simp: fd_slot_def nth_append split: if_splits)
  ultimately show ?thesis
    using assms(3) by (auto simp: resolved_fd_def split: option.split)
qed

lemma resolved_root:
  assumes "fd_wf live s" and "resolved_fd s k = Some r"
  shows "r \<in> fd_entries s \<and> \<not> vacant (c_fds s) r \<and> fd_Original (c_fds s r) = None"
proof -
  from assms(2) obtain a where a: "fd_slot s k = Some a" "\<not> vacant (c_fds s) a"
    "case fd_Original (c_fds s a) of None \<Rightarrow> r = a | Some r' \<Rightarrow> r = r'"
    by (auto simp: resolved_fd_def split: option.splits if_splits)
  moreover have "a \<in> fd_entries s" using a(1) by (rule fd_slot_entry)
  moreover have "aliases_ok (fd_entries s) (c_fds s)" using assms(1) by (simp add: fd_wf_def)
  ultimately show ?thesis
    using aliases_okD [of "fd_entries s" "c_fds s" a r] by (cases "fd_Original (c_fds s a)") simp_all
qed

text \<open>
  Growing either fails with \<^verbatim>\<open>ENOMEM\<close> and gives everything back, or appends fresh vacant
  entries; in both cases the old entries keep their contents.
\<close>

definition grown :: "('x \<Rightarrow> nat set) \<Rightarrow> nat list \<Rightarrow> ('x, 'd) clib4 \<Rightarrow> ('x, 'd) clib4 \<Rightarrow> bool" where
  "grown live new s s' \<longleftrightarrow>
     c_fd s' = c_fd s @ map Some new \<and> (\<forall>a \<in> fd_entries s. c_fds s' a = c_fds s a) \<and>
     (\<forall>a \<in> set new. c_fds s' a = zero_fd) \<and> fd_wf live s'"

lemma grown_resolved: "grown live new s s' \<Longrightarrow> resolved_fd s' k = resolved_fd s k"
  by (rule resolved_fd_cong [of _ _ new]) (auto simp: grown_def)

lemma grow_fd_table_result:
  assumes ok: "allocator_ok E live" and wf: "fd_wf live s"
  obtains (failed) s' where "grow_fd_table E m s = (ERROR, s')" "c_errno s' = ENOMEM" "grown live [] s s'"
  | (grew) s' new where "grow_fd_table E m s = (OK, s')" "grown live new s s'" "c_errno s' = c_errno s"
      "length new = nat ((if m = 0 then int (length (c_fd s)) + 10 else m) - int (length (c_fd s)))"
proof -
  let ?num = "int (length (c_fd s))"
  let ?new_num = "if m = 0 then ?num + 10 else m"
  have ent: "fd_entries s \<subseteq> live (c_exec s)" using wf by (simp add: fd_wf_def)
  show thesis
  proof (cases "?new_num > ?num")
    case False
    with wf show thesis
      by (intro grew [of s "[]"]) (auto simp: grow_fd_table_def grown_def Let_def)
  next
    case True
    obtain r x where m: "env_malloc E (4 * nat ?new_num) (c_exec s) = (r, x)"
      by (meson surj_pair)
    show thesis
    proof (cases r)
      case None
      with m have "live x = live (c_exec s)"
        by (intro allocator_malloc_fails [OF ok]) simp
      with wf have "fd_wf live (set_errno ENOMEM (s\<lparr>c_exec := x\<rparr>))"
        by (auto intro: fd_wf_mono)
      with True m None show thesis
        by (intro failed [of "set_errno ENOMEM (s\<lparr>c_exec := x\<rparr>)"])
          (auto simp: grow_fd_table_def grown_def Let_def)
    next
      case (Some b)
      with m have b: "b \<notin> live (c_exec s) \<and> live x = insert b (live (c_exec s))"
        by (intro allocator_malloc [OF ok]) simp
      let ?k = "nat (?new_num - ?num)"
      obtain as fin s1 where g: "grow_fd_entries E ?k [] (s\<lparr>c_exec := x\<rparr>) = ((as, fin), s1)"
        by (metis surj_pair)
      from grow_fd_entries_result [OF ok g] obtain new where
        new: "as = new" "fin \<longrightarrow> length new = ?k" "distinct new" "set new \<inter> live x = {}"
          "live (c_exec s1) = live x \<union> set new" and
        fds: "c_fds s1 = (\<lambda>a. if a \<in> set new then zero_fd else c_fds s a)" and
        sel: "c_fd s1 = c_fd s" "c_fd_base s1 = c_fd_base s" "c_errno s1 = c_errno s"
        by (elim exE conjE) (rule that, simp_all cong: if_cong)
      have old: "\<forall>a \<in> fd_entries s. c_fds s1 a = c_fds s a"
        using new(4) b ent by (auto simp: fds)
      show thesis
      proof (cases fin)
        case False
        let ?s' = "set_errno ENOMEM (s1\<lparr>c_exec := env_free E b (free_fd_entries E as (c_exec s1))\<rparr>)"
        have "live (c_exec ?s') = live (c_exec s)"
          using new b by (auto simp: allocator_okD [OF ok] live_free_fd_entries [OF ok])
        then have "fd_wf live ?s'"
          using wf old sel by (intro fd_wf_mono [OF wf]) simp_all
        with \<open>?new_num > ?num\<close> m Some g False sel old show thesis
          by (intro failed [of ?s']) (auto simp: grow_fd_table_def grown_def Let_def)
      next
        case True
        show thesis
        proof (cases "c_fd_base s")
          case None
          let ?s' = "s1\<lparr>c_fd := map Some as, c_fd_base := Some b\<rparr>"
          from None wf have nil: "c_fd s = []" by (simp add: fd_wf_def)
          then have "fd_wf live ?s'"
            using wf old new b sel fds by (intro fd_wf_grow [OF wf, of _ new b]) (auto simp: fd_entries_def)
          with \<open>?new_num > ?num\<close> m Some g \<open>fin\<close> None nil sel old fds new show thesis
            by (intro grew [of ?s' new]) (auto simp: grow_fd_table_def grown_def Let_def)
        next
          case base: (Some old_base)
          let ?s' = "s1\<lparr>c_fd := c_fd s1 @ map Some as, c_fd_base := Some b,
            c_exec := env_free E old_base (c_exec s1)\<rparr>"
          from base wf have "old_base \<notin> fd_entries s" "old_base \<in> live (c_exec s)"
            by (simp_all add: fd_wf_def)
          then have "fd_wf live ?s'"
            using old new b sel fds ent
            by (intro fd_wf_grow [OF wf, of _ new b]) (auto simp: allocator_okD [OF ok])
          with \<open>?new_num > ?num\<close> m Some g \<open>fin\<close> base sel old fds new show thesis
            by (intro grew [of ?s' new]) (auto simp: grow_fd_table_def grown_def Let_def)
        qed
      qed
    qed
  qed
qed

text \<open>Linking a duplicate of the original \<open>r\<close> into the vacant entry \<open>k\<close>.\<close>

lemma duplicate_into_vacant:
  assumes ok: "allocator_ok E live" and wf: "fd_wf live s"
    and r: "r \<in> fd_entries s" "\<not> vacant (c_fds s) r" "fd_Original (c_fds s r) = None"
    and k: "k < length (c_fd s)" "c_fd s ! k = Some a" "vacant (c_fds s) a"
  shows "fd_wf live (duplicate_fd E a r s)" (is ?wf)
    and "resolved_fd (duplicate_fd E a r s) (int k) = Some r" (is ?new)
    and "j \<noteq> int k \<Longrightarrow> resolved_fd (duplicate_fd E a r s) j = resolved_fd s j"
proof -
  let ?s' = "duplicate_fd E a r s"
  have "a \<noteq> r" using r(2) k(3) by auto
  then have h: "c_fds ?s' =
    (c_fds s)(a := zero_fd\<lparr>fd_Version := 1, fd_File := fd_File (c_fds s r), fd_Flags := fd_Flags (c_fds s r),
         fd_Action := fd_Action (c_fds s r), fd_Lock := fd_Lock (c_fds s r), fd_Aux := None,
         fd_Original := Some r, fd_NextAlias := fd_NextAlias (c_fds s r)\<rparr>,
       r := (c_fds s r)\<lparr>fd_NextAlias := Some a\<rparr>)"
    using duplicate_fd_root [OF r(3), of a E] by (simp add: Let_def)
  have keep: "fd_Flags (c_fds ?s' b) = fd_Flags (c_fds s b) \<and> fd_Original (c_fds ?s' b) = fd_Original (c_fds s b)"
    if "b \<noteq> a" for b
    using that by (simp add: h)
  have a: "fd_Flags (c_fds ?s' a) = fd_Flags (c_fds s r)" "fd_Original (c_fds ?s' a) = Some r"
    using \<open>a \<noteq> r\<close> by (simp_all add: h)
  have al: "aliases_ok (fd_entries s) (c_fds s)" using wf by (simp add: fd_wf_def)
  have "aliases_ok (fd_entries s) (c_fds ?s')"
    unfolding aliases_ok_def
  proof (intro ballI allI impI)
    fix b q
    assume b: "b \<in> fd_entries s" "\<not> vacant (c_fds ?s') b" "fd_Original (c_fds ?s' b) = Some q"
    show "q \<in> fd_entries s \<and> \<not> vacant (c_fds ?s') q \<and> fd_Original (c_fds ?s' q) = None"
    proof (cases "b = a")
      case True
      with b a r \<open>a \<noteq> r\<close> keep [of r] show ?thesis by simp
    next
      case False
      with b keep [of b] aliases_okD [OF al b(1), of q]
      have q: "q \<in> fd_entries s" "\<not> vacant (c_fds s) q" "fd_Original (c_fds s q) = None" by auto
      with k(3) have "q \<noteq> a" by auto
      with q keep [of q] show ?thesis by simp
    qed
  qed
  moreover have "live (c_exec ?s') = live (c_exec s)"
    by (simp add: duplicate_fd_def initialize_fd_def Let_def live_locks [OF ok])
  ultimately show ?wf
    using wf by (auto simp: fd_wf_def fd_entries_def split: option.splits)
  show ?new
    using k a r(2) by (simp add: resolved_fd_def fd_slot_def)
  show "resolved_fd ?s' j = resolved_fd s j" if "j \<noteq> int k"
  proof -
    have "fd_slot s j \<noteq> Some a"
      using that k wf nth_eq_iff_index_eq [of "c_fd s" k "nat j"]
      by (auto simp: fd_slot_def fd_wf_def)
    then show ?thesis
      using keep by (auto simp: resolved_fd_def fd_slot_def split: option.split)
  qed
qed

lemma dup_into_vacant:
  assumes "fd_slot s d2 = Some a" and "vacant (c_fds s) a" and "d1 \<noteq> d2"
  shows "dup_into E d1 r d2 s = Some (d2, duplicate_fd E a r s)"
  using assms by (simp add: dup_into_def FDF_IN_USE_set)

lemma resolved_fd_None_iff:
  "fd_slot s k = Some a \<Longrightarrow> resolved_fd s k = None \<longleftrightarrow> vacant (c_fds s) a"
  by (simp add: resolved_fd_def split: option.split)

lemma resolved_fd_frame [simp]:
  "resolved_fd (s\<lparr>c_errno := e\<rparr>) k = resolved_fd s k" "resolved_fd (s\<lparr>c_exec := x\<rparr>) k = resolved_fd s k"
  "resolved_fd (s\<lparr>c_dos := d\<rparr>) k = resolved_fd s k" "resolved_fd (s\<lparr>c_iobs := i\<rparr>) k = resolved_fd s k"
  by (simp_all add: resolved_fd_def fd_slot_def split: option.split)

lemma resolved_fd_locks [simp]:
  "resolved_fd (stdio_lock E s) k = resolved_fd s k" "resolved_fd (stdio_unlock E s) k = resolved_fd s k"
  by (simp_all add: resolved_fd_def fd_slot_def split: option.split)

text \<open>The outcome of \<^verbatim>\<open>dup()\<close> and \<^verbatim>\<open>dup2()\<close> that opens descriptor \<open>n\<close> on \<open>r\<close>.\<close>

definition opened_alias :: "('x \<Rightarrow> nat set) \<Rightarrow> ('x, 'd) clib4 \<Rightarrow> nat \<Rightarrow> int \<Rightarrow> ('x, 'd) clib4 \<Rightarrow> bool" where
  "opened_alias live s r n s' \<longleftrightarrow>
     fd_wf live s' \<and> resolved_fd s n = None \<and> resolved_fd s' n = Some r \<and>
     (\<forall>k. k \<noteq> n \<longrightarrow> resolved_fd s' k = resolved_fd s k)"

definition nothing_opened :: "('x \<Rightarrow> nat set) \<Rightarrow> ('x, 'd) clib4 \<Rightarrow> ('x, 'd) clib4 \<Rightarrow> bool" where
  "nothing_opened live s s' \<longleftrightarrow> fd_wf live s' \<and> (\<forall>k. resolved_fd s' k = resolved_fd s k)"

lemma dup_into_opens:
  assumes ok: "allocator_ok E live" and wf: "fd_wf live s" and r: "resolved_fd s d1 = Some r"
    and k: "k < length (c_fd s)" "c_fd s ! k = Some a" "vacant (c_fds s) a"
  shows "\<exists>s'. dup_into E d1 r (int k) s = Some (int k, s') \<and> opened_alias live s r (int k) s'"
proof -
  have slot: "fd_slot s (int k) = Some a" using k by (simp add: fd_slot_def)
  then have none: "resolved_fd s (int k) = None" using k(3) by (simp add: resolved_fd_None_iff)
  with r have "d1 \<noteq> int k" by auto
  moreover have "r \<in> fd_entries s" "\<not> vacant (c_fds s) r" "fd_Original (c_fds s r) = None"
    using resolved_root [OF wf r] by auto
  ultimately show ?thesis
    using duplicate_into_vacant [OF ok wf _ _ _ k] none dup_into_vacant [OF slot k(3)]
    by (auto simp: opened_alias_def)
qed

lemma open_below:
  assumes "c_fd s = as @ bs" and "None \<notin> set as" and "\<forall>b. Some b \<in> set as \<longrightarrow> \<not> vacant (c_fds s) b"
    and "0 \<le> k" and "k < int (length as)"
  shows "resolved_fd s k \<noteq> None"
proof -
  from assms(4,5) have k: "nat k < length as" by simp
  then have "as ! nat k \<in> set as" by simp
  with assms(2) obtain a where a: "as ! nat k = Some a" "Some a \<in> set as" by (metis not_None_eq)
  then have "fd_slot s k = Some a"
    using assms(1,4,5) k by (simp add: fd_slot_def nth_append)
  with a(2) assms(3) show ?thesis by (simp add: resolved_fd_None_iff)
qed

lemma byteswap16_rev: "2 \<le> length b \<Longrightarrow> byteswap16 b = rev (take 2 b) @ drop 2 b"
  by (cases b rule: byteswap16.cases) auto

lemma byteswap32_rev: "4 \<le> length b \<Longrightarrow> byteswap32 b = rev (take 4 b) @ drop 4 b"
  by (cases b rule: byteswap32.cases) auto

lemma byteswap64_rev:
  assumes "8 \<le> length b"
  shows "byteswap64 b = rev (take 8 b) @ drop 8 b"
proof -
  from assms obtain b0 b1 b2 b3 b4 b5 b6 b7 r where "b = [b0, b1, b2, b3, b4, b5, b6, b7] @ r"
    by (auto simp: numeral_eq_Suc Suc_le_length_iff)
  then show ?thesis
    by (simp add: byteswap64_def numeral_eq_Suc)
qed

section \<open>Properties\<close>

lemma demo_fd_wf: "fd_wf set (demo_state d)"
  by (auto simp: fd_wf_def demo_state_def fd_entries_def aliases_ok_def zero_fd_def)

lemma demo_resolved: "resolved_fd (demo_state d) 0 = Some 1"
  by (simp add: resolved_fd_def fd_slot_def demo_state_def zero_fd_def FLAG_IS_CLEAR_def)

lemma demo_allocator_ok: "allocator_ok (demo_env act) set"
  by (auto simp: allocator_ok_def malloc_fresh_def keeps_live_def demo_env_def)

text \<open>
  C1: \<^verbatim>\<open>dup()\<close> of an open descriptor always returns. It either fails with \<^verbatim>\<open>ENOMEM\<close>
  and leaves every descriptor as it was, or returns the lowest descriptor that was not open, which
  then refers to the same original, while every other descriptor keeps its meaning. The table stays
  well formed.
\<close>

theorem dup_correct:
  assumes ok: "allocator_ok E live" and wf: "fd_wf live s" and r: "resolved_fd s d = Some r"
  shows "\<exists>n s'. dup E d s = Some (n, s') \<and>
    (n = ERROR \<and> c_errno s' = ENOMEM \<and> nothing_opened live s s' \<or>
     0 \<le> n \<and> opened_alias live s r n s' \<and> (\<forall>k. 0 \<le> k \<and> k < n \<longrightarrow> resolved_fd s k \<noteq> None))"
proof -
  let ?s1 = "stdio_unlock E (stdio_lock E (stdio_lock E s))"
  have wf1: "fd_wf live ?s1" using wf by (intro fd_wf_locks [OF ok])
  have r1: "resolved_fd ?s1 d = Some r" using r by simp
  note simps = dup_def find_vacant_fd_entry_def r
  have "None \<notin> set (c_fd s)" using wf by (simp add: fd_wf_def)
  then show ?thesis
  proof (cases rule: find_vacant_from_cases [where h = "c_fds s" and i = 0])
    case (found as a bs)
    let ?k = "length as"
    have "?k < length (c_fd ?s1)" "c_fd ?s1 ! ?k = Some a" "vacant (c_fds ?s1) a"
      using found by auto
    from dup_into_opens [OF ok wf1 r1 this] obtain s'
      where s': "dup_into E d r (int ?k) ?s1 = Some (int ?k, s')" "opened_alias live ?s1 r (int ?k) s'"
      by blast
    have "\<forall>k. 0 \<le> k \<and> k < int ?k \<longrightarrow> resolved_fd s k \<noteq> None"
      using found(1,3) wf by (auto simp: open_below fd_wf_def)
    moreover have "dup E d s = Some (int ?k, stdio_unlock E s')"
      using found(4) s'(1) by (simp add: simps)
    moreover have "opened_alias live s r (int ?k) (stdio_unlock E s')"
      using s'(2) by (auto simp: opened_alias_def fd_wf_locks [OF ok])
    ultimately show ?thesis by auto
  next
    case full
    from ok wf1 show ?thesis
    proof (cases rule: grow_fd_table_result [where m = 0])
      case (failed s')
      then have "dup E d s = Some (ERROR, stdio_unlock E s')"
        using full by (simp add: simps)
      with failed show ?thesis
        by (auto simp: nothing_opened_def grown_def fd_wf_locks [OF ok]
            grown_resolved [OF failed(3)])
    next
      case (grew s2 new)
      then obtain b new' where new: "new = b # new'" by (cases new) auto
      let ?k = "length (c_fd s)"
      have fd2: "c_fd s2 = c_fd s @ Some b # map Some new'" "vacant (c_fds s2) b"
        using grew(2) new by (simp_all add: grown_def)
      have same: "\<forall>a. Some a \<in> set (c_fd s) \<longrightarrow> \<not> vacant (c_fds s2) a"
        using grew(2) full(1) by (simp add: grown_def fd_entries_def)
      have r2: "resolved_fd s2 d = Some r" using grown_resolved [OF grew(2)] r1 by simp
      have wf2: "fd_wf live s2" using grew(2) by (simp add: grown_def)
      have "?k < length (c_fd s2)" "c_fd s2 ! ?k = Some b" using fd2 by auto
      from dup_into_opens [OF ok wf2 r2 this fd2(2)] obtain s'
        where s': "dup_into E d r (int ?k) s2 = Some (int ?k, s')" "opened_alias live s2 r (int ?k) s'"
        by blast
      have "find_vacant_from (c_fds s2) 0 (c_fd s2) = Some (int ?k)"
        using find_vacant_from_first [OF same _ fd2(2), of 0 "map Some new'"] wf fd2
        by (simp add: fd_wf_def)
      then have "dup E d s = Some (int ?k, stdio_unlock E s')"
        using full(2) grew(1) s'(1) by (simp add: simps)
      moreover have "\<forall>k. 0 \<le> k \<and> k < int ?k \<longrightarrow> resolved_fd s k \<noteq> None"
        using full(1) wf by (auto simp: open_below [of s _ "[]"] fd_wf_def)
      moreover have "opened_alias live s r (int ?k) (stdio_unlock E s')"
        using s'(2) grown_resolved [OF grew(2)] by (auto simp: opened_alias_def fd_wf_locks [OF ok])
      ultimately show ?thesis by auto
    qed
  qed
qed

lemma dup_correct_witness:
  "\<exists>n s'. dup (demo_env (\<lambda>s a m. (0, m, s))) 0 (demo_state ()) = Some (n, s') \<and>
    (n = ERROR \<or> 0 \<le> n \<and> opened_alias set (demo_state ()) 1 n s')"
  using dup_correct [OF demo_allocator_ok demo_fd_wf demo_resolved, of "\<lambda>s a m. (0, m, s)" "()"] by blast

text \<open>
  C2: \<^verbatim>\<open>dup2(d, n)\<close> with an open \<open>d\<close> and a valid \<open>n\<close> that is not open either fails with
  \<^verbatim>\<open>ENOMEM\<close> and changes no descriptor, or makes \<open>n\<close> itself refer to the original of \<open>d\<close> and
  leaves every other descriptor alone.
\<close>

theorem dup2_correct:
  assumes ok: "allocator_ok E live" and wf: "fd_wf live s" and r: "resolved_fd s d = Some r"
    and n: "0 \<le> n" "n \<le> OPEN_MAX" "resolved_fd s n = None"
  shows "\<exists>m s'. dup2 E d n s = Some (m, s') \<and>
    (m = ERROR \<and> c_errno s' = ENOMEM \<and> nothing_opened live s s' \<or> m = n \<and> opened_alias live s r n s')"
proof -
  let ?s1 = "stdio_unlock E (stdio_lock E (stdio_lock E s))"
  have wf1: "fd_wf live ?s1" using wf by (intro fd_wf_locks [OF ok])
  have r1: "resolved_fd ?s1 d = Some r" using r by simp
  from r n(3) have "d \<noteq> n" by auto
  have "\<not> n < 0" "\<not> OPEN_MAX < n" using n by auto
  note simps = dup2_def r this \<open>d \<noteq> n\<close>
  from ok wf1 show ?thesis
  proof (cases rule: grow_fd_table_result [where m = "n + 1"])
    case (failed s')
    then have "dup2 E d n s = Some (ERROR, stdio_unlock E s')"
      by (simp add: simps)
    with failed show ?thesis
      by (auto simp: nothing_opened_def grown_def fd_wf_locks [OF ok] grown_resolved [OF failed(3)])
  next
    case (grew s2 new)
    have wf2: "fd_wf live s2" using grew(2) by (simp add: grown_def)
    have r2: "resolved_fd s2 d = Some r" and n2: "resolved_fd s2 n = None"
      using grown_resolved [OF grew(2)] r1 n(3) by simp_all
    have len: "nat n < length (c_fd s2)"
      using grew(2,4) n by (simp add: grown_def)
    moreover from wf2 len have "c_fd s2 ! nat n \<noteq> None"
      by (metis fd_wf_def nth_mem)
    then obtain a where a: "c_fd s2 ! nat n = Some a" by blast
    moreover have "fd_slot s2 n = Some a" using a len n(1) by (simp add: fd_slot_def)
    then have "vacant (c_fds s2) a" using n2 by (simp add: resolved_fd_None_iff)
    ultimately obtain s'
      where s': "dup_into E d r n s2 = Some (n, s')" "opened_alias live s2 r n s'"
      using dup_into_opens [OF ok wf2 r2, of "nat n" a] n(1) by auto
    then have "dup2 E d n s = Some (n, stdio_unlock E s')"
      using grew(1) by (simp add: simps)
    moreover have "opened_alias live s r n (stdio_unlock E s')"
      using s'(2) grown_resolved [OF grew(2)] by (auto simp: opened_alias_def fd_wf_locks [OF ok])
    ultimately show ?thesis by auto
  qed
qed

lemma dup2_correct_witness:
  "\<exists>m s'. dup2 (demo_env (\<lambda>s a m. (0, m, s))) 0 3 (demo_state ()) = Some (m, s') \<and>
    (m = ERROR \<or> m = 3 \<and> opened_alias set (demo_state ()) 1 3 s')"
proof -
  have "resolved_fd (demo_state ()) 3 = None"
    by (simp add: resolved_fd_def fd_slot_def demo_state_def)
  from dup2_correct [OF demo_allocator_ok demo_fd_wf demo_resolved _ _ this, of "\<lambda>s a m. (0, m, s)"]
  show ?thesis by auto
qed




definition demo_le_env :: "(nat list, unit) env" where
  "demo_le_env = demo_env (\<lambda>s a m. (2, m\<lparr>fam_Data := [1, 2]\<rparr>, s))"

definition demo_le_state :: "(nat list, unit) clib4" where
  "demo_le_state = (demo_state ())\<lparr>c_fds := (\<lambda>_. zero_fd)(1 := zero_fd\<lparr>fd_Flags :=
     FDF_IN_USE OR FDF_READ OR FDF_LITTLE_ENDIAN\<rparr>)\<rparr>"


end
