(* ===== verification/Iob_Core.thy ===== *)
theory Iob_Core
  imports Fd_Ops
begin

text \<open>
  The buffered layer of \<^verbatim>\<open>src/library/stdio\<close>: the buffer macros of
  \<^verbatim>\<open>stdio_headers.h\<close>, the hooks that stand behind \<^verbatim>\<open>iob_Action\<close>, stream locking,
  filling, flushing and dropping a buffer, and the character operations \<^verbatim>\<open>fgetc\<close>,
  \<^verbatim>\<open>fputc\<close>, \<^verbatim>\<open>ungetc\<close>, with \<^verbatim>\<open>fflush\<close>, \<^verbatim>\<open>feof\<close>, \<^verbatim>\<open>ferror\<close> and
  \<^verbatim>\<open>clearerr\<close>.

  Buffer counters are \<open>nat\<close> here and \<^verbatim>\<open>off_t\<close> in the source; the invariant \<open>iob_ok\<close> of
  theory \<open>Stream_Write\<close> keeps them within the buffer, so no access leaves it. A table scan works
  on the table as it is when the scan starts: no action of the library opens a stream.
\<close>

section \<open>Buffer macros\<close>

definition iob_write_buffer_is_full :: "iob \<Rightarrow> bool" where
  "iob_write_buffer_is_full i \<longleftrightarrow> iob_BufferSize i > 0 \<and> iob_BufferWriteBytes i = iob_BufferSize i"

definition iob_write_buffer_is_valid :: "iob \<Rightarrow> bool" where
  "iob_write_buffer_is_valid i \<longleftrightarrow> iob_BufferWriteBytes i > 0"

definition iob_num_unwritten_bytes :: "iob \<Rightarrow> nat" where
  "iob_num_unwritten_bytes i = iob_BufferWriteBytes i"

definition iob_read_buffer_is_empty :: "iob \<Rightarrow> bool" where
  "iob_read_buffer_is_empty i \<longleftrightarrow>
     iob_BufferReadBytes i = 0 \<or> iob_BufferPosition i = iob_BufferReadBytes i"

definition iob_num_unread_bytes :: "iob \<Rightarrow> nat" where
  "iob_num_unread_bytes i =
     (if iob_BufferReadBytes i > 0 \<and> iob_BufferPosition i < iob_BufferReadBytes i
      then iob_BufferReadBytes i - iob_BufferPosition i else 0)"

definition iob_read_buffer_is_valid :: "iob \<Rightarrow> bool" where
  "iob_read_buffer_is_valid i \<longleftrightarrow> iob_BufferReadBytes i > 0"

definition iob_mode :: "iob \<Rightarrow> ulong" where
  "iob_mode i = iob_Flags i AND IOBF_BUFFER_MODE"

lemmas iob_macros = iob_write_buffer_is_full_def iob_write_buffer_is_valid_def
  iob_num_unwritten_bytes_def iob_read_buffer_is_empty_def iob_num_unread_bytes_def
  iob_read_buffer_is_valid_def iob_mode_def

section \<open>Actions\<close>

text \<open>
  The hook of a file. An entry of \<^verbatim>\<open>__fd\<close> that is \<^verbatim>\<open>NULL\<close> and a descriptor that
  \<^verbatim>\<open>__get_file_descriptor\<close> does not know both answer \<^verbatim>\<open>EBADF\<close>.
\<close>

definition iob_hook_entry ::
  "('x, 'd) env \<Rightarrow> ('x, 'd) clib4 \<Rightarrow> nat \<Rightarrow> file_action_message
   \<Rightarrow> int \<times> file_action_message \<times> ('x, 'd) clib4" where
  "iob_hook_entry E s f m =
     (if fam_Action m = file_action_read \<or> fam_Action m = file_action_write \<or>
         fam_Action m = file_action_seek \<or> fam_Action m = file_action_close
      then let d = iob_Descriptor (c_iobs s f) in
        if fd_slot s d = None then (EOF, m\<lparr>fam_Error := EBADF\<rparr>, s)
        else (case (if fam_Action m = file_action_close then get_file_descriptor_dont_resolve E s d
                    else get_file_descriptor E s d) of
            (None, s1) \<Rightarrow> (EOF, m\<lparr>fam_Error := EBADF\<rparr>, s1)
          | (Some a, s1) \<Rightarrow> env_fd_Action E s1 a m)
      else (EOF, m\<lparr>fam_Error := EBADF\<rparr>, s))"

text \<open>The hook behind \<^verbatim>\<open>vsnprintf\<close>: what does not fit is counted but not stored.\<close>

definition vsnprintf_hook_entry ::
  "('x, 'd) clib4 \<Rightarrow> nat \<Rightarrow> file_action_message
   \<Rightarrow> int \<times> file_action_message \<times> ('x, 'd) clib4" where
  "vsnprintf_hook_entry s f m =
     (if fam_Action m \<noteq> file_action_write then (EOF, m\<lparr>fam_Error := EBADF\<rparr>, s)
      else let i = c_iobs s f in
        if fam_Size m > 0 \<and> iob_StringSize i > 0 \<and> int (iob_StringPosition i) < iob_StringSize i
        then let num_bytes_left = nat (iob_StringSize i) - iob_StringPosition i;
                 num_bytes = (if fam_Size m > num_bytes_left then num_bytes_left else fam_Size m)
             in (int (fam_Size m), m, upd_iob f (\<lambda>j. j
                  \<lparr>iob_String := mem_splice (iob_String j) (iob_StringPosition j)
                     (take num_bytes (fam_Data m)),
                   iob_StringPosition := iob_StringPosition j + num_bytes\<rparr>) s)
        else (int (fam_Size m), m, s))"

definition vsprintf_hook_entry ::
  "('x, 'd) clib4 \<Rightarrow> nat \<Rightarrow> file_action_message
   \<Rightarrow> int \<times> file_action_message \<times> ('x, 'd) clib4" where
  "vsprintf_hook_entry s f m =
     (if fam_Action m \<noteq> file_action_write then (ERROR, m\<lparr>fam_Error := EBADF\<rparr>, s)
      else (int (fam_Size m), m, upd_iob f (\<lambda>j. j
             \<lparr>iob_String := mem_splice (iob_String j) (iob_StringPosition j)
                (take (fam_Size m) (fam_Data m)),
              iob_StringPosition := iob_StringPosition j + fam_Size m\<rparr>) s))"

definition sscanf_hook_entry ::
  "('x, 'd) clib4 \<Rightarrow> nat \<Rightarrow> file_action_message
   \<Rightarrow> int \<times> file_action_message \<times> ('x, 'd) clib4" where
  "sscanf_hook_entry s f m =
     (if fam_Action m \<noteq> file_action_read then (EOF, m\<lparr>fam_Error := EBADF\<rparr>, s)
      else let i = c_iobs s f in
        if iob_StringPosition i < iob_StringLength i
        then let num_bytes_left = iob_StringLength i - iob_StringPosition i;
                 num_bytes = (if fam_Size m > num_bytes_left then num_bytes_left else fam_Size m)
             in (int num_bytes,
                 m\<lparr>fam_Data := mem_splice (fam_Data m) 0
                    (take num_bytes (drop (iob_StringPosition i) (iob_String i)))\<rparr>,
                 upd_iob f (\<lambda>j. j\<lparr>iob_StringPosition := iob_StringPosition j + num_bytes\<rparr>) s)
        else (0, m, s))"

text \<open>\<^verbatim>\<open>(*file->iob_Action)(__clib4, file, &fam)\<close>\<close>

definition iob_action ::
  "('x, 'd) env \<Rightarrow> ('x, 'd) clib4 \<Rightarrow> nat \<Rightarrow> file_action_message
   \<Rightarrow> int \<times> file_action_message \<times> ('x, 'd) clib4" where
  "iob_action E s f m = (case iob_Action (c_iobs s f) of
     iob_hook \<Rightarrow> iob_hook_entry E s f m
   | vsnprintf_hook \<Rightarrow> vsnprintf_hook_entry s f m
   | vsprintf_hook \<Rightarrow> vsprintf_hook_entry s f m
   | sscanf_hook \<Rightarrow> sscanf_hook_entry s f m)"

section \<open>Stream locks\<close>

definition flockfile_r :: "('x, 'd) env \<Rightarrow> nat option \<Rightarrow> ('x, 'd) clib4 \<Rightarrow> ('x, 'd) clib4" where
  "flockfile_r E stream s0 =
     (let s = set_errno 0 s0 in
      case stream of
        None \<Rightarrow> set_errno EFAULT s
      | Some f \<Rightarrow>
          if FLAG_IS_CLEAR (iob_Flags (c_iobs s f)) IOBF_IN_USE then set_errno EBADF s
          else (case iob_Lock (c_iobs s f) of
              None \<Rightarrow> s
            | Some sem \<Rightarrow>
                (let s1 = s\<lparr>c_exec := env_ObtainSemaphore E sem (c_self s) (c_exec s)\<rparr>
                 in upd_iob f (\<lambda>i. i\<lparr>iob_Flags := SET_FLAG (iob_Flags i) IOBF_LOCKED,
                      iob_TaskLock := Some (c_self s)\<rparr>) s1)))"

definition funlockfile_r :: "('x, 'd) env \<Rightarrow> nat option \<Rightarrow> ('x, 'd) clib4 \<Rightarrow> ('x, 'd) clib4" where
  "funlockfile_r E stream s =
     (case stream of
        None \<Rightarrow> set_errno EFAULT s
      | Some f \<Rightarrow>
          if FLAG_IS_CLEAR (iob_Flags (c_iobs s f)) IOBF_IN_USE then set_errno EBADF s
          else (case iob_Lock (c_iobs s f) of
              None \<Rightarrow> s
            | Some sem \<Rightarrow>
                if FLAG_IS_SET (iob_Flags (c_iobs s f)) IOBF_LOCKED \<and>
                  iob_TaskLock (c_iobs s f) = Some (c_self s)
                then (let s1 = s\<lparr>c_exec := env_ReleaseSemaphore E sem (c_self s) (c_exec s)\<rparr>
                      in upd_iob f (\<lambda>i. i\<lparr>iob_Flags := CLEAR_FLAG (iob_Flags i) IOBF_LOCKED,
                           iob_TaskLock := None\<rparr>) s1)
                else s))"

definition ftrylockfile_r ::
  "('x, 'd) env \<Rightarrow> nat option \<Rightarrow> ('x, 'd) clib4 \<Rightarrow> int \<times> ('x, 'd) clib4" where
  "ftrylockfile_r E stream s =
     (case stream of
        None \<Rightarrow> (ERROR, set_errno EFAULT s)
      | Some f \<Rightarrow>
          if FLAG_IS_CLEAR (iob_Flags (c_iobs s f)) IOBF_IN_USE then (ERROR, set_errno EBADF s)
          else if FLAG_IS_SET (iob_Flags (c_iobs s f)) IOBF_LOCKED then (ERROR, set_errno EBADF s)
          else (let got = (case iob_Lock (c_iobs s f) of
                  None \<Rightarrow> (True, c_exec s)
                | Some sem \<Rightarrow> env_AttemptSemaphore E sem (c_self s) (c_exec s));
                s1 = s\<lparr>c_exec := snd got\<rparr>
            in if fst got
               then (OK, upd_iob f (\<lambda>i. i\<lparr>iob_Flags := SET_FLAG (iob_Flags i) IOBF_LOCKED,
                      iob_TaskLock := Some (c_self s)\<rparr>) s1)
               else (ERROR, s1)))"

section \<open>Flushing, filling and dropping a buffer\<close>

definition flush_iob_write_buffer ::
  "('x, 'd) env \<Rightarrow> nat \<Rightarrow> ('x, 'd) clib4 \<Rightarrow> int \<times> ('x, 'd) clib4" where
  "flush_iob_write_buffer E f s =
     (let i = c_iobs s f in
      if FLAG_IS_SET (iob_Flags i) IOBF_IN_USE \<and> iob_BufferWriteBytes i > 0
      then (case iob_action E s f ((new_fam E file_action_write)
                \<lparr>fam_Data := iob_Buffer i, fam_Size := iob_BufferWriteBytes i\<rparr>) of
          (n, m, s1) \<Rightarrow>
            if n = EOF then (ERROR, set_errno (fam_Error m) (set_iob_flag f IOBF_ERROR s1))
            else (OK, upd_iob f (\<lambda>j. j\<lparr>iob_BufferWriteBytes := 0\<rparr>) s1))
      else (OK, s))"

fun flush_table ::
  "('x, 'd) env \<Rightarrow> (iob \<Rightarrow> bool) \<Rightarrow> nat option list \<Rightarrow> ('x, 'd) clib4 \<Rightarrow> int \<times> ('x, 'd) clib4" where
  "flush_table E P [] s = (OK, s)"
| "flush_table E P (None # fs) s = flush_table E P fs s"
| "flush_table E P (Some f # fs) s =
     (if FLAG_IS_SET (iob_Flags (c_iobs s f)) IOBF_IN_USE \<and>
         FLAG_IS_SET (iob_Flags (c_iobs s f)) IOBF_WRITE \<and> P (c_iobs s f) \<and>
         iob_write_buffer_is_valid (c_iobs s f)
      then (case flush_iob_write_buffer E f s of
          (n, s1) \<Rightarrow> if n < 0 then (ERROR, s1) else flush_table E P fs s1)
      else flush_table E P fs s)"

definition flush_all_files ::
  "('x, 'd) env \<Rightarrow> int \<Rightarrow> ('x, 'd) clib4 \<Rightarrow> int \<times> ('x, 'd) clib4" where
  "flush_all_files E buffer_mode s =
     (let s1 = stdio_lock E s in
      case flush_table E (\<lambda>i. buffer_mode < 0 \<or> iob_mode i = word_of_int buffer_mode) (c_iob s1) s1 of
        (result, s2) \<Rightarrow> (result, stdio_unlock E s2))"

definition fill_iob_read_buffer ::
  "('x, 'd) env \<Rightarrow> nat \<Rightarrow> ('x, 'd) clib4 \<Rightarrow> int \<times> ('x, 'd) clib4" where
  "fill_iob_read_buffer E f s =
     (case (if iob_mode (c_iobs s f) = IOBF_BUFFER_MODE_LINE then flush_all_files E 1 s else (OK, s)) of
        (r, s1) \<Rightarrow>
          if r < 0 then (ERROR, s1)
          else (case iob_action E s1 f ((new_fam E file_action_read)
                   \<lparr>fam_Data := iob_Buffer (c_iobs s1 f), fam_Size := iob_BufferSize (c_iobs s1 f)\<rparr>) of
              (num_bytes_read, m, s2) \<Rightarrow>
                (let s3 = upd_iob f (\<lambda>i. i\<lparr>iob_Buffer := fam_Data m\<rparr>) s2 in
                 if num_bytes_read = EOF
                 then (ERROR, set_errno (fam_Error m) (set_iob_flag f IOBF_ERROR s3))
                 else (OK, upd_iob f (\<lambda>i. i\<lparr>iob_BufferReadBytes := nat num_bytes_read,
                        iob_BufferPosition := 0\<rparr>) s3))))"

definition drop_iob_read_buffer ::
  "('x, 'd) env \<Rightarrow> nat \<Rightarrow> ('x, 'd) clib4 \<Rightarrow> int \<times> ('x, 'd) clib4" where
  "drop_iob_read_buffer E f s =
     (if FLAG_IS_SET (iob_Flags (c_iobs s f)) IOBF_IN_USE
      then let s1 = clear_iob_flag f IOBF_EOF_REACHED s;
               reset = upd_iob f (\<lambda>i. i\<lparr>iob_BufferReadBytes := 0, iob_BufferPosition := 0\<rparr>)
        in if iob_read_buffer_is_valid (c_iobs s1 f)
           then let num_unread_bytes = iob_num_unread_bytes (c_iobs s1 f) in
             if num_unread_bytes > 0
             then (case iob_action E s1 f ((new_fam E file_action_seek)
                      \<lparr>fam_Offset := - int num_unread_bytes, fam_Mode := SEEK_CUR\<rparr>) of
                 (position, m, s2) \<Rightarrow>
                   if fam_Error m \<noteq> OK
                   then (ERROR, set_errno (fam_Error m) (set_iob_flag f IOBF_ERROR s2))
                   else (OK, reset (if position < 0 then set_errno OK s2 else s2)))
             else (OK, reset s1)
           else (OK, s1)
      else (OK, s))"

section \<open>Reading characters\<close>

definition fgetc_fill :: "('x, 'd) env \<Rightarrow> nat \<Rightarrow> ('x, 'd) clib4 \<Rightarrow> int \<times> ('x, 'd) clib4" where
  "fgetc_fill E f s =
     (let take_byte = (\<lambda>t. (uint (iob_Buffer (c_iobs t f) ! iob_BufferPosition (c_iobs t f)),
             upd_iob f (\<lambda>i. i\<lparr>iob_BufferPosition := iob_BufferPosition i + 1\<rparr>) t))
      in if iob_read_buffer_is_empty (c_iobs s f)
         then (case fill_iob_read_buffer E f s of
             (r, s1) \<Rightarrow>
               if r < 0 then (EOF, s1)
               else if iob_read_buffer_is_empty (c_iobs s1 f)
               then (EOF, set_iob_flag f IOBF_EOF_REACHED s1)
               else take_byte s1)
         else take_byte s)"

text \<open>\<^verbatim>\<open>__getc\<close> of \<^verbatim>\<open>stdio_headers.h\<close>; \<open>fgetc_fill\<close> is \<^verbatim>\<open>__fgetc\<close>.\<close>

definition getc_macro :: "('x, 'd) env \<Rightarrow> nat \<Rightarrow> ('x, 'd) clib4 \<Rightarrow> int \<times> ('x, 'd) clib4" where
  "getc_macro E f s =
     (if iob_BufferPosition (c_iobs s f) < iob_BufferReadBytes (c_iobs s f)
      then (uint (iob_Buffer (c_iobs s f) ! iob_BufferPosition (c_iobs s f)),
            upd_iob f (\<lambda>i. i\<lparr>iob_BufferPosition := iob_BufferPosition i + 1\<rparr>) s)
      else fgetc_fill E f s)"

definition fgetc_check ::
  "('x, 'd) env \<Rightarrow> nat option \<Rightarrow> ('x, 'd) clib4 \<Rightarrow> int \<times> ('x, 'd) clib4" where
  "fgetc_check E stream s =
     (case stream of
        None \<Rightarrow> (EOF, set_errno EFAULT s)
      | Some f \<Rightarrow>
          if FLAG_IS_CLEAR (iob_Flags (c_iobs s f)) IOBF_IN_USE
          then (EOF, set_errno EBADF (set_iob_flag f IOBF_ERROR s))
          else if FLAG_IS_CLEAR (iob_Flags (c_iobs s f)) IOBF_READ
          then (EOF, set_errno EBADF (set_iob_flag f IOBF_ERROR s))
          else if iob_write_buffer_is_valid (c_iobs s f)
          then (case flush_iob_write_buffer E f s of
              (r, s1) \<Rightarrow> if r < 0 then (EOF, s1) else (OK, s1))
          else (OK, s))"

definition fgetc :: "('x, 'd) env \<Rightarrow> nat option \<Rightarrow> ('x, 'd) clib4 \<Rightarrow> int \<times> ('x, 'd) clib4" where
  "fgetc E stream s =
     (case stream of
        None \<Rightarrow> (EOF, set_errno EFAULT s)
      | Some f \<Rightarrow>
          (case fgetc_check E stream (flockfile_r E stream s) of
             (r, s1) \<Rightarrow>
               (case (if r < 0 then (EOF, s1) else getc_macro E f s1) of
                  (result, s2) \<Rightarrow> (result, funlockfile_r E stream s2))))"

definition ungetc_r ::
  "('x, 'd) env \<Rightarrow> int \<Rightarrow> nat option \<Rightarrow> ('x, 'd) clib4 \<Rightarrow> int \<times> ('x, 'd) clib4" where
  "ungetc_r E c stream s =
     (case stream of
        None \<Rightarrow> (EOF, set_errno EFAULT s)
      | Some f \<Rightarrow>
          (let s1 = flockfile_r E stream s;
               fail = (\<lambda>e t. (EOF, set_errno e (set_iob_flag f IOBF_ERROR t))) in
           case (if FLAG_IS_CLEAR (iob_Flags (c_iobs s1 f)) IOBF_IN_USE then fail EBADF s1
                 else if FLAG_IS_CLEAR (iob_Flags (c_iobs s1 f)) IOBF_READ then fail EACCES s1
                 else if c = EOF then fail EINVAL s1
                 else (case (if iob_write_buffer_is_valid (c_iobs s1 f)
                             then flush_iob_write_buffer E f s1 else (OK, s1)) of
                     (r, s2) \<Rightarrow>
                       if r < 0 then (EOF, s2)
                       else if iob_BufferPosition (c_iobs s2 f) = 0 then fail ENOBUFS s2
                       else (let s3 = clear_iob_flag f IOBF_EOF_REACHED s2 in
                         (c mod 256, upd_iob f (\<lambda>i. i
                            \<lparr>iob_BufferPosition := iob_BufferPosition i - 1,
                             iob_Buffer := (iob_Buffer i)[iob_BufferPosition i - 1 := word_of_int c]\<rparr>)
                            s3)))) of
             (result, t) \<Rightarrow> (result, funlockfile_r E stream t)))"

section \<open>Writing characters\<close>

definition store_byte :: "nat \<Rightarrow> byte \<Rightarrow> ('x, 'd) clib4 \<Rightarrow> ('x, 'd) clib4" where
  "store_byte f b = upd_iob f (\<lambda>i. i
     \<lparr>iob_Buffer := (iob_Buffer i)[iob_BufferWriteBytes i := b],
      iob_BufferWriteBytes := iob_BufferWriteBytes i + 1\<rparr>)"

definition fputc_check ::
  "('x, 'd) env \<Rightarrow> nat option \<Rightarrow> ('x, 'd) clib4 \<Rightarrow> int \<times> ('x, 'd) clib4" where
  "fputc_check E stream s =
     (case stream of
        None \<Rightarrow> (EOF, set_errno EBADF s)
      | Some f \<Rightarrow>
          if FLAG_IS_CLEAR (iob_Flags (c_iobs s f)) IOBF_IN_USE
          then (EOF, set_errno EBADF (set_iob_flag f IOBF_ERROR s))
          else if FLAG_IS_CLEAR (iob_Flags (c_iobs s f)) IOBF_WRITE
          then (EOF, set_errno EBADF (set_iob_flag f IOBF_ERROR s))
          else if iob_read_buffer_is_valid (c_iobs s f)
          then (case drop_iob_read_buffer E f s of
              (r, s1) \<Rightarrow> if r < 0 then (EOF, s1) else (OK, s1))
          else (OK, s))"

text \<open>\<^verbatim>\<open>__fputc\<close>, the part of \<^verbatim>\<open>fputc\<close> after the checks.\<close>

definition fputc_store ::
  "('x, 'd) env \<Rightarrow> int \<Rightarrow> nat \<Rightarrow> ulong \<Rightarrow> ('x, 'd) clib4 \<Rightarrow> int \<times> ('x, 'd) clib4" where
  "fputc_store E c f buffer_mode s =
     (case (if iob_write_buffer_is_full (c_iobs s f) then flush_iob_write_buffer E f s else (OK, s)) of
        (r, s1) \<Rightarrow>
          if r < 0 then (EOF, s1)
          else (let s2 = store_byte f (word_of_int c) s1 in
            if buffer_mode = IOBF_BUFFER_MODE_NONE \<or> buffer_mode = IOBF_BUFFER_MODE_LINE \<and> c = 10
            then (case flush_iob_write_buffer E f s2 of
                (r2, s3) \<Rightarrow>
                  if r2 < 0
                  then (EOF, upd_iob f (\<lambda>i. i\<lparr>iob_BufferWriteBytes := iob_BufferWriteBytes i - 1\<rparr>) s3)
                  else (c mod 256, s3))
            else (c mod 256, s2)))"

definition fputc_r ::
  "('x, 'd) env \<Rightarrow> int \<Rightarrow> nat option \<Rightarrow> ('x, 'd) clib4 \<Rightarrow> int \<times> ('x, 'd) clib4" where
  "fputc_r E c stream s =
     (case stream of
        None \<Rightarrow> (EOF, set_errno EFAULT s)
      | Some f \<Rightarrow>
          (case fputc_check E stream (flockfile_r E stream s) of
             (r, s1) \<Rightarrow>
               (case (if r < 0 then (EOF, s1) else fputc_store E c f (iob_mode (c_iobs s1 f)) s1) of
                  (result, s2) \<Rightarrow> (result, funlockfile_r E stream s2))))"

definition fputc ::
  "('x, 'd) env \<Rightarrow> int \<Rightarrow> nat option \<Rightarrow> ('x, 'd) clib4 \<Rightarrow> int \<times> ('x, 'd) clib4" where
  "fputc E c stream s =
     (case stream of
        None \<Rightarrow> (EOF, set_errno EFAULT s)
      | Some f \<Rightarrow>
          (case fputc_check E stream (flockfile_r E stream s) of
             (r, s1) \<Rightarrow>
               (case (if r < 0 then (EOF, s1) else fputc_store E c f (iob_mode (c_iobs s1 f)) s1) of
                  (result, s2) \<Rightarrow> (result, funlockfile_r E stream s2))))"

text \<open>\<^verbatim>\<open>__flush_r\<close>: what a line feed in the buffer triggers.\<close>

definition flush_r ::
  "('x, 'd) env \<Rightarrow> nat option \<Rightarrow> ('x, 'd) clib4 \<Rightarrow> int \<times> ('x, 'd) clib4" where
  "flush_r E stream s =
     (case stream of
        None \<Rightarrow> (EOF, set_errno EFAULT s)
      | Some f \<Rightarrow>
          (let s1 = flockfile_r E stream s; i = c_iobs s1 f in
           case (if iob_BufferWriteBytes i = 0 \<or> iob_BufferSize i = 0 then (EOF, s1)
                 else (let last_c = uint (iob_Buffer i ! (iob_BufferWriteBytes i - 1)) in
                   case flush_iob_write_buffer E f s1 of
                     (r, s2) \<Rightarrow>
                       if r < 0
                       then (EOF, upd_iob f (\<lambda>j. j\<lparr>iob_BufferWriteBytes := iob_BufferWriteBytes j - 1\<rparr>) s2)
                       else (last_c, s2))) of
             (result, t) \<Rightarrow> (result, funlockfile_r E stream t)))"

text \<open>The three \<^verbatim>\<open>__putc\<close> macros of \<^verbatim>\<open>stdio_headers.h\<close>, for an \<^verbatim>\<open>unsigned char\<close> value.\<close>

definition putc_macro ::
  "('x, 'd) env \<Rightarrow> int \<Rightarrow> nat \<Rightarrow> ulong \<Rightarrow> ('x, 'd) clib4 \<Rightarrow> int \<times> ('x, 'd) clib4" where
  "putc_macro E c f m s =
     (if iob_BufferWriteBytes (c_iobs s f) < iob_BufferSize (c_iobs s f)
      then (let s1 = store_byte f (word_of_int c) s in
        if m = IOBF_BUFFER_MODE_LINE \<and> c = 10 then flush_r E (Some f) s1 else (c mod 256, s1))
      else fputc_store E c f m s)"

definition putc_fully_buffered ::
  "('x, 'd) env \<Rightarrow> int \<Rightarrow> nat \<Rightarrow> ('x, 'd) clib4 \<Rightarrow> int \<times> ('x, 'd) clib4" where
  "putc_fully_buffered E c f s =
     (if iob_BufferWriteBytes (c_iobs s f) < iob_BufferSize (c_iobs s f)
      then (uint (word_of_int c :: byte), store_byte f (word_of_int c) s)
      else fputc_store E c f IOBF_BUFFER_MODE_FULL s)"

definition putc_line_buffered ::
  "('x, 'd) env \<Rightarrow> int \<Rightarrow> nat \<Rightarrow> ('x, 'd) clib4 \<Rightarrow> int \<times> ('x, 'd) clib4" where
  "putc_line_buffered E c f s =
     (if iob_BufferWriteBytes (c_iobs s f) < iob_BufferSize (c_iobs s f)
      then (let s1 = store_byte f (word_of_int c) s in
        if c = 10 then flush_r E (Some f) s1 else (c mod 256, s1))
      else fputc_store E c f IOBF_BUFFER_MODE_LINE s)"

section \<open>Stream state\<close>

definition fflush_r ::
  "('x, 'd) env \<Rightarrow> nat option \<Rightarrow> ('x, 'd) clib4 \<Rightarrow> int \<times> ('x, 'd) clib4" where
  "fflush_r E stream s =
     (case stream of
        Some f \<Rightarrow>
          (let s1 = flockfile_r E stream s in
           case (if iob_write_buffer_is_valid (c_iobs s1 f) then flush_iob_write_buffer E f s1 else (OK, s1)) of
             (r, s2) \<Rightarrow> (if r < 0 then EOF else OK, funlockfile_r E stream s2))
      | None \<Rightarrow>
          (let s1 = stdio_lock E s in
           case flush_table E (\<lambda>_. True) (c_iob s1) s1 of
             (r, s2) \<Rightarrow> (if r < 0 then EOF else OK, stdio_unlock E s2)))"

definition feof :: "('x, 'd) env \<Rightarrow> nat option \<Rightarrow> ('x, 'd) clib4 \<Rightarrow> bool \<times> ('x, 'd) clib4" where
  "feof E stream s =
     (case stream of
        None \<Rightarrow> (False, set_errno EFAULT s)
      | Some f \<Rightarrow>
          (case ftrylockfile_r E stream s of
             (locked, s1) \<Rightarrow>
               (FLAG_IS_SET (iob_Flags (c_iobs s1 f)) IOBF_EOF_REACHED,
                if locked = OK then funlockfile_r E stream s1 else s1)))"

definition ferror_r ::
  "('x, 'd) env \<Rightarrow> nat option \<Rightarrow> bool \<Rightarrow> ('x, 'd) clib4 \<Rightarrow> bool \<times> ('x, 'd) clib4" where
  "ferror_r E stream lock s =
     (case stream of
        None \<Rightarrow> (False, set_errno EFAULT s)
      | Some f \<Rightarrow>
          (case (if lock then ftrylockfile_r E stream s else (ERROR, s)) of
             (locked, s1) \<Rightarrow>
               (FLAG_IS_SET (iob_Flags (c_iobs s1 f)) IOBF_ERROR,
                if locked = OK then funlockfile_r E stream s1 else s1)))"

definition clearerr_r :: "nat option \<Rightarrow> ('x, 'd) clib4 \<Rightarrow> ('x, 'd) clib4" where
  "clearerr_r stream s =
     (case stream of
        None \<Rightarrow> set_errno EFAULT s
      | Some f \<Rightarrow> upd_iob f (\<lambda>i. i\<lparr>iob_Flags2 := CLEAR_FLAG (iob_Flags2 i) SERR\<rparr>)
          (clear_iob_flag f IOBF_EOF_REACHED (clear_iob_flag f IOBF_ERROR s)))"

end
