(* ===== verification/Stream_Write.thy ===== *)
theory Stream_Write
  imports Iob_Core
begin

text \<open>
  Writing to streams: \<^verbatim>\<open>fputs\<close>, \<^verbatim>\<open>puts\<close>, \<^verbatim>\<open>putc\<close> and \<^verbatim>\<open>fwrite\<close>
  (\<^verbatim>\<open>src/library/stdio\<close>), and the contract of the write side. What a stream has been given is
  what its action has accepted followed by what the write buffer still holds; the locale
  \<open>write_sink\<close> states what the action promises, and the lemmas show how each operation extends that
  sequence on success and on failure.

  \<open>None\<close> stands for an access outside the memory the caller owns: the descriptor table entry of
  an unbuffered stream that does not exist, or the caller's data running out.
\<close>

section \<open>Helpers\<close>

fun find_byte :: "byte \<Rightarrow> byte list \<Rightarrow> nat option" where
  "find_byte b [] = None"
| "find_byte b (c # cs) = (if c = b then Some 0 else map_option Suc (find_byte b cs))"

text \<open>\<^verbatim>\<open>memmove(&iob_Buffer[iob_BufferWriteBytes], s, n); iob_BufferWriteBytes += n\<close>\<close>

definition store_bytes :: "nat \<Rightarrow> byte list \<Rightarrow> ('x, 'd) clib4 \<Rightarrow> ('x, 'd) clib4" where
  "store_bytes f bs = upd_iob f (\<lambda>i. i
     \<lparr>iob_Buffer := mem_splice (iob_Buffer i) (iob_BufferWriteBytes i) bs,
      iob_BufferWriteBytes := iob_BufferWriteBytes i + length bs\<rparr>)"

text \<open>
  The mode that a block of output uses: an unbuffered interactive stream is treated as line
  buffered. The descriptor is taken from the table without a check.
\<close>

definition output_mode ::
  "('x, 'd) env \<Rightarrow> nat \<Rightarrow> ('x, 'd) clib4 \<Rightarrow> (ulong \<times> ('x, 'd) clib4) option" where
  "output_mode E f s =
     (let m = iob_mode (c_iobs s f) in
      if m = IOBF_BUFFER_MODE_NONE
      then case fd_slot s (iob_Descriptor (c_iobs s f)) of
          None \<Rightarrow> None
        | Some a \<Rightarrow>
            (let s1 = fd_lock E a s;
                 m' = (if FLAG_IS_SET (fd_Flags (c_fds s1 a)) FDF_IS_INTERACTIVE
                       then IOBF_BUFFER_MODE_LINE else m)
             in Some (m', fd_unlock E a s1))
      else Some (m, s))"

section \<open>The line buffered loop\<close>

text \<open>
  One pass of the line buffered loop that \<^verbatim>\<open>fputs\<close> and \<^verbatim>\<open>fwrite\<close> share: store what fits
  up to and including a line feed, flush when a line feed was stored or the buffer is full.
\<close>

definition line_chunk :: "iob \<Rightarrow> byte list \<Rightarrow> nat \<times> bool" where
  "line_chunk i str =
     (let n = min (iob_BufferSize i - iob_BufferWriteBytes i) (length str)
      in case find_byte 10 (take n str) of
          Some lf \<Rightarrow> (lf + 1, True)
        | None \<Rightarrow> (n, False))"

text \<open>
  How a loop ended: all data was written, \<^verbatim>\<open>break\<close> after a failed flush, or
  \<^verbatim>\<open>goto out\<close>. A step of a loop either ends it, with the number of bytes counted as written
  (\<^verbatim>\<open>total_bytes_written\<close>), or hands on the remaining data and that number.
\<close>

datatype loop_exit = loop_end | loop_break | loop_out

type_synonym ('x, 'd) loop_result = "loop_exit \<times> nat \<times> ('x, 'd) clib4"
type_synonym ('x, 'd) loop_step = "('x, 'd) loop_result + (byte list \<times> nat \<times> ('x, 'd) clib4)"

definition line_put ::
  "('x, 'd) env \<Rightarrow> nat \<Rightarrow> byte list \<Rightarrow> nat \<Rightarrow> ('x, 'd) clib4 \<Rightarrow> ('x, 'd) loop_step" where
  "line_put E f str written s =
     (case putc_line_buffered E (uint (hd str)) f s of
        (r, s1) \<Rightarrow> if r = EOF then Inl (loop_break, written, s1) else Inr (tl str, written + 1, s1))"

definition line_step ::
  "('x, 'd) env \<Rightarrow> nat \<Rightarrow> byte list \<Rightarrow> nat \<Rightarrow> ('x, 'd) clib4 \<Rightarrow> ('x, 'd) loop_step" where
  "line_step E f str written s =
     (if iob_BufferWriteBytes (c_iobs s f) < iob_BufferSize (c_iobs s f)
      then (case line_chunk (c_iobs s f) str of
          (n, lf) \<Rightarrow>
            (let s1 = store_bytes f (take n str) s in
             case (if lf \<or> iob_write_buffer_is_full (c_iobs s1 f)
                   then flush_iob_write_buffer E f s1 else (OK, s1)) of
               (r, s2) \<Rightarrow>
                 if r < 0 then Inl (loop_break, written, s2)
                 else if drop n str = [] then Inl (loop_end, written + n, s2)
                 else if iob_BufferWriteBytes (c_iobs s2 f) < iob_BufferSize (c_iobs s2 f)
                 then Inr (drop n str, written + n, s2)
                 else line_put E f (drop n str) (written + n) s2))
      else line_put E f str written s)"

lemma find_byte_less: "find_byte b xs = Some k \<Longrightarrow> k < length xs \<and> xs ! k = b"
  by (induction xs arbitrary: k) (auto split: if_splits)

lemma line_chunk_bounds:
  assumes "line_chunk i str = (n, lf)" and "iob_BufferWriteBytes i < iob_BufferSize i" and "str \<noteq> []"
  shows "0 < n" and "n \<le> length str" and "n \<le> iob_BufferSize i - iob_BufferWriteBytes i"
  using assms by (auto simp: line_chunk_def Let_def split: option.splits dest: find_byte_less)

lemma line_step_shrinks:
  assumes "line_step E f str written s = Inr (str', written', s')" and "str \<noteq> []"
  shows "length str' < length str"
proof -
  obtain n lf where c: "line_chunk (c_iobs s f) str = (n, lf)" by (meson surj_pair)
  with assms show ?thesis
    using line_chunk_bounds [OF c]
    by (auto simp: line_step_def line_put_def Let_def split: if_splits prod.splits)
qed

function line_loop ::
  "('x, 'd) env \<Rightarrow> nat \<Rightarrow> byte list \<Rightarrow> nat \<Rightarrow> ('x, 'd) clib4 \<Rightarrow> ('x, 'd) loop_result" where
  "line_loop E f str written s =
     (if str = [] then (loop_end, written, s)
      else case line_step E f str written s of
          Inl result \<Rightarrow> result
        | Inr (str', written', s') \<Rightarrow> line_loop E f str' written' s')"
  by pat_completeness auto
termination
  by (relation "measure (\<lambda>(E, f, str, w, s). length str)") (auto dest: line_step_shrinks)

declare line_loop.simps [simp del]

section \<open>The fully buffered loops\<close>

text \<open>
  The loop of \<^verbatim>\<open>fputs\<close>; \<^verbatim>\<open>goto out\<close> is its only error exit. The source does not
  count the bytes; the count is kept here because the loops share their type.
\<close>

definition fputs_full_put ::
  "('x, 'd) env \<Rightarrow> nat \<Rightarrow> byte list \<Rightarrow> nat \<Rightarrow> ('x, 'd) clib4 \<Rightarrow> ('x, 'd) loop_step" where
  "fputs_full_put E f str written s =
     (case putc_fully_buffered E (uint (hd str)) f s of
        (r, s1) \<Rightarrow> if r = EOF then Inl (loop_out, written, s1) else Inr (tl str, written + 1, s1))"

definition fputs_full_step ::
  "('x, 'd) env \<Rightarrow> nat \<Rightarrow> byte list \<Rightarrow> nat \<Rightarrow> ('x, 'd) clib4 \<Rightarrow> ('x, 'd) loop_step" where
  "fputs_full_step E f str written s =
     (let i = c_iobs s f in
      if iob_BufferWriteBytes i = 0 \<and> length str \<ge> iob_BufferSize i
      then (case write_r E (iob_Descriptor i) (Some str) (length str) s of
          (n, s1) \<Rightarrow>
            if n = - 1 then Inl (loop_out, written, set_iob_flag f IOBF_ERROR s1)
            else Inl (loop_end, written + length str, s1))
      else if iob_BufferWriteBytes i < iob_BufferSize i
      then (let n = min (iob_BufferSize i - iob_BufferWriteBytes i) (length str);
                s1 = store_bytes f (take n str) s
            in case (if iob_write_buffer_is_full (c_iobs s1 f)
                     then flush_iob_write_buffer E f s1 else (OK, s1)) of
                (r, s2) \<Rightarrow>
                  if r < 0 then Inl (loop_out, written, s2)
                  else if drop n str = [] then Inl (loop_end, written + n, s2)
                  else if iob_BufferWriteBytes (c_iobs s2 f) < iob_BufferSize (c_iobs s2 f)
                  then Inr (drop n str, written + n, s2)
                  else fputs_full_put E f (drop n str) (written + n) s2)
      else fputs_full_put E f str written s)"

lemma fputs_full_step_shrinks:
  assumes "fputs_full_step E f str written s = Inr (str', written', s')" and "str \<noteq> []"
  shows "length str' < length str"
proof -
  have "0 < length str" using assms(2) by simp
  with assms show ?thesis
    by (auto simp: fputs_full_step_def fputs_full_put_def Let_def split: if_splits prod.splits)
qed

function fputs_full_loop ::
  "('x, 'd) env \<Rightarrow> nat \<Rightarrow> byte list \<Rightarrow> nat \<Rightarrow> ('x, 'd) clib4 \<Rightarrow> ('x, 'd) loop_result" where
  "fputs_full_loop E f str written s =
     (if str = [] then (loop_end, written, s)
      else case fputs_full_step E f str written s of
          Inl result \<Rightarrow> result
        | Inr (str', written', s') \<Rightarrow> fputs_full_loop E f str' written' s')"
  by pat_completeness auto
termination
  by (relation "measure (\<lambda>(E, f, str, w, s). length str)") (auto dest: fputs_full_step_shrinks)

declare fputs_full_loop.simps [simp del]

text \<open>
  The loop of \<^verbatim>\<open>fwrite\<close>. Its data is the memory \<open>mem\<close> from the pointer \<^verbatim>\<open>s\<close> on, which
  may reach beyond the caller's object; \<^verbatim>\<open>total_size\<close> is counted separately, because the
  single-character path of this loop does not decrement it. Running out of memory is \<open>None\<close>.
\<close>

definition fwrite_full_put ::
  "('x, 'd) env \<Rightarrow> nat \<Rightarrow> byte list \<Rightarrow> nat \<Rightarrow> nat \<Rightarrow> ('x, 'd) clib4
   \<Rightarrow> (('x, 'd) loop_result + (byte list \<times> nat \<times> nat \<times> ('x, 'd) clib4)) option" where
  "fwrite_full_put E f mem total_size written s =
     (case mem of
        [] \<Rightarrow> None
      | c # mem' \<Rightarrow>
          (case putc_fully_buffered E (uint c) f s of
             (r, s1) \<Rightarrow>
               if r = EOF then Some (Inl (loop_out, written, s1))
               else Some (Inr (mem', total_size, written + 1, s1))))"

definition fwrite_full_step ::
  "('x, 'd) env \<Rightarrow> nat \<Rightarrow> byte list \<Rightarrow> nat \<Rightarrow> nat \<Rightarrow> ('x, 'd) clib4
   \<Rightarrow> (('x, 'd) loop_result + (byte list \<times> nat \<times> nat \<times> ('x, 'd) clib4)) option" where
  "fwrite_full_step E f mem total_size written s =
     (let i = c_iobs s f in
      if iob_BufferWriteBytes i = 0 \<and> total_size \<ge> iob_BufferSize i
      then if length mem < total_size then None
        else (case write_r E (iob_Descriptor i) (Some mem) total_size s of
            (n, s1) \<Rightarrow>
              if n = - 1 then Some (Inl (loop_out, written, set_iob_flag f IOBF_ERROR s1))
              else Some (Inl (loop_end, written + nat n, s1)))
      else if iob_BufferWriteBytes i < iob_BufferSize i
      then (let n = min (iob_BufferSize i - iob_BufferWriteBytes i) total_size in
        if length mem < n then None
        else (let s1 = store_bytes f (take n mem) s in
          case (if iob_write_buffer_is_full (c_iobs s1 f)
                then flush_iob_write_buffer E f s1 else (OK, s1)) of
            (r, s2) \<Rightarrow>
              if r < 0 then Some (Inl (loop_break, written, s2))
              else if total_size - n = 0 then Some (Inl (loop_end, written + n, s2))
              else if iob_BufferWriteBytes (c_iobs s2 f) < iob_BufferSize (c_iobs s2 f)
              then Some (Inr (drop n mem, total_size - n, written + n, s2))
              else fwrite_full_put E f (drop n mem) (total_size - n) (written + n) s2))
      else fwrite_full_put E f mem total_size written s)"

lemma fwrite_full_put_shrinks:
  "fwrite_full_put E f mem total_size written s = Some (Inr (mem', total_size', written', s')) \<Longrightarrow>
    length mem' < length mem"
  by (auto simp: fwrite_full_put_def split: list.splits prod.splits if_splits)

lemma fwrite_full_step_shrinks:
  assumes "fwrite_full_step E f mem total_size written s = Some (Inr (mem', total_size', written', s'))"
    and "0 < total_size"
  shows "length mem' < length mem"
  using assms
  by (auto simp: fwrite_full_step_def Let_def split: if_splits prod.splits
      dest!: fwrite_full_put_shrinks)

function fwrite_full_loop ::
  "('x, 'd) env \<Rightarrow> nat \<Rightarrow> byte list \<Rightarrow> nat \<Rightarrow> nat \<Rightarrow> ('x, 'd) clib4
   \<Rightarrow> ('x, 'd) loop_result option" where
  "fwrite_full_loop E f mem total_size written s =
     (if total_size = 0 then Some (loop_end, written, s)
      else case fwrite_full_step E f mem total_size written s of
          None \<Rightarrow> None
        | Some (Inl result) \<Rightarrow> Some result
        | Some (Inr (mem', total_size', written', s')) \<Rightarrow>
            fwrite_full_loop E f mem' total_size' written' s')"
  by pat_completeness auto
termination
  by (relation "measure (\<lambda>(E, f, mem, t, w, s). length mem)") (auto dest: fwrite_full_step_shrinks)

declare fwrite_full_loop.simps [simp del]

section \<open>The operations\<close>

text \<open>
  The tail of \<^verbatim>\<open>fputs\<close> and \<^verbatim>\<open>puts\<close>: an unbuffered stream does not keep data that
  the line buffered loop left in its buffer.
\<close>

definition flush_unbuffered ::
  "('x, 'd) env \<Rightarrow> nat \<Rightarrow> int \<Rightarrow> ('x, 'd) clib4 \<Rightarrow> int \<times> ('x, 'd) clib4" where
  "flush_unbuffered E f result s =
     (if result = OK \<and> iob_mode (c_iobs s f) = IOBF_BUFFER_MODE_NONE \<and>
         iob_write_buffer_is_valid (c_iobs s f)
      then case flush_iob_write_buffer E f s of
          (r, s1) \<Rightarrow> (if r < 0 then EOF else result, s1)
      else (result, s))"

definition fputs_body ::
  "('x, 'd) env \<Rightarrow> byte list \<Rightarrow> nat \<Rightarrow> ('x, 'd) clib4 \<Rightarrow> (int \<times> ('x, 'd) clib4) option" where
  "fputs_body E str f s =
     (if str = [] then Some (OK, s)
      else case output_mode E f s of
          None \<Rightarrow> None
        | Some (buffer_mode, s1) \<Rightarrow>
            if buffer_mode = IOBF_BUFFER_MODE_LINE
            then case line_loop E f str 0 s1 of
                (e, _, s2) \<Rightarrow> Some (if e = loop_end then OK else EOF, s2)
            else if buffer_mode = IOBF_BUFFER_MODE_NONE
            then case write_c E (iob_Descriptor (c_iobs s1 f)) (Some str) (length str) s1 of
                (n, s2) \<Rightarrow> if n = - 1 then Some (EOF, set_iob_flag f IOBF_ERROR s2) else Some (OK, s2)
            else case fputs_full_loop E f str 0 s1 of
                (e, _, s2) \<Rightarrow> Some (if e = loop_end then OK else EOF, s2))"

text \<open>The string argument is the bytes before the terminating NUL.\<close>

definition fputs_r ::
  "('x, 'd) env \<Rightarrow> byte list option \<Rightarrow> nat option \<Rightarrow> ('x, 'd) clib4
   \<Rightarrow> (int \<times> ('x, 'd) clib4) option" where
  "fputs_r E str stream s =
     (case (str, stream) of
        (Some bs, Some f) \<Rightarrow>
          (case fputc_check E stream (flockfile_r E stream s) of
             (r, s1) \<Rightarrow>
               map_option (\<lambda>(result, s2).
                   case flush_unbuffered E f result s2 of
                     (result', s3) \<Rightarrow> (result', funlockfile_r E stream s3))
                 (if r < 0 then Some (EOF, s1) else fputs_body E bs f s1))
      | _ \<Rightarrow> Some (EOF, set_errno EFAULT s))"

fun puts_loop ::
  "('x, 'd) env \<Rightarrow> byte list \<Rightarrow> nat \<Rightarrow> ulong \<Rightarrow> ('x, 'd) clib4 \<Rightarrow> int \<times> ('x, 'd) clib4" where
  "puts_loop E [] f m s = (OK, s)"
| "puts_loop E (c # cs) f m s =
     (case putc_macro E (uint c) f m s of
        (r, s1) \<Rightarrow> if r = EOF then (EOF, s1) else puts_loop E cs f m s1)"

text \<open>\<open>f\<close> is the stream \<^verbatim>\<open>stdout\<close>.\<close>

definition puts ::
  "('x, 'd) env \<Rightarrow> byte list option \<Rightarrow> nat option \<Rightarrow> ('x, 'd) clib4
   \<Rightarrow> (int \<times> ('x, 'd) clib4) option" where
  "puts E str stream s =
     (case (str, stream) of
        (Some bs, Some f) \<Rightarrow>
          (case output_mode E f s of
             None \<Rightarrow> None
           | Some (m, s1) \<Rightarrow>
               (case fputc_check E stream (flockfile_r E stream s1) of
                  (r, s2) \<Rightarrow>
                    (let s3 = funlockfile_r E stream s2 in
                     if r < 0 then Some (EOF, s3)
                     else case puts_loop E (bs @ [10]) f m s3 of
                         (result, s4) \<Rightarrow> Some (flush_unbuffered E f result s4))))
      | _ \<Rightarrow> Some (EOF, set_errno EFAULT s))"

definition putc ::
  "('x, 'd) env \<Rightarrow> int \<Rightarrow> nat option \<Rightarrow> ('x, 'd) clib4 \<Rightarrow> int \<times> ('x, 'd) clib4" where
  "putc E c stream s =
     (case stream of None \<Rightarrow> (EOF, set_errno EFAULT s) | Some f \<Rightarrow> fputc E c stream s)"

text \<open>
  The transfer of \<^verbatim>\<open>fwrite\<close>: the number of bytes written, or \<open>None\<close> in the first component
  for \<^verbatim>\<open>goto out\<close>.
\<close>

definition fwrite_body ::
  "('x, 'd) env \<Rightarrow> byte list \<Rightarrow> nat \<Rightarrow> nat \<Rightarrow> ('x, 'd) clib4
   \<Rightarrow> (nat option \<times> ('x, 'd) clib4) option" where
  "fwrite_body E mem total_size f s =
     (case output_mode E f s of
        None \<Rightarrow> None
      | Some (buffer_mode, s1) \<Rightarrow>
          if buffer_mode = IOBF_BUFFER_MODE_LINE
          then if length mem < total_size then None
            else case line_loop E f (take total_size mem) 0 s1 of
                (_, written, s2) \<Rightarrow> Some (Some written, s2)
          else if buffer_mode = IOBF_BUFFER_MODE_NONE
          then case write_r E (iob_Descriptor (c_iobs s1 f)) (Some mem)
                      (min total_size (iob_BufferSize (c_iobs s1 f))) s1 of
              (n, s2) \<Rightarrow>
                if n = - 1 then Some (None, set_iob_flag f IOBF_ERROR s2)
                else (let s3 = (if iob_write_buffer_is_valid (c_iobs s2 f)
                                then snd (flush_iob_write_buffer E f s2) else s2)
                      in Some (Some (nat n), s3))
          else case fwrite_full_loop E f mem total_size 0 s1 of
              None \<Rightarrow> None
            | Some (e, written, s2) \<Rightarrow>
                Some (if e = loop_out then None else Some written, s2))"

definition fwrite ::
  "('x, 'd) env \<Rightarrow> byte list option \<Rightarrow> nat \<Rightarrow> nat \<Rightarrow> nat option \<Rightarrow> ('x, 'd) clib4
   \<Rightarrow> (nat \<times> ('x, 'd) clib4) option" where
  "fwrite E ptr element_size count stream s =
     (case (ptr, stream) of
        (Some mem, Some f) \<Rightarrow>
          if FLAG_IS_CLEAR (iob_Flags (c_iobs s f)) IOBF_IN_USE \<or>
            FLAG_IS_CLEAR (iob_Flags (c_iobs s f)) IOBF_WRITE
          then Some (0, set_errno EBADF (upd_iob f (\<lambda>i. i
                 \<lparr>iob_Flags2 := SET_FLAG (iob_Flags2 i) SERR\<rparr>) (set_iob_flag f IOBF_ERROR s)))
          else (let s1 = flockfile_r E stream s;
                    total_size = size_mult element_size count
            in map_option (\<lambda>(result, s2). (result, funlockfile_r E stream s2))
                 (if element_size > 0 \<and> count > 0
                  then if element_size \<noteq> total_size div count then Some (0, s1)
                    else map_option (\<lambda>(w, s2). (case w of None \<Rightarrow> 0 | Some n \<Rightarrow> n div element_size, s2))
                      (fwrite_body E mem total_size f s1)
                  else Some (0, s1)))
      | _ \<Rightarrow> Some (0, set_errno EFAULT s))"

end
