(* ===== verification/Stream_Sink.thy ===== *)
theory Stream_Sink
  imports Stream_Write
begin

text \<open>
  The contract of the write side. \<open>contents\<close> is what a stream has been given: what its action has
  accepted, followed by what the write buffer still holds. The locale \<open>write_sink\<close> states what the
  action behind a stream promises; inside it every output operation is shown to extend the
  contents by exactly what it reports as written, and to leave them alone when it fails. The locale
  is interpreted on the string hooks of the \<^verbatim>\<open>printf\<close> family here and on files in theory
  \<open>Fd_Hook\<close>.
\<close>

section \<open>The write buffer\<close>

definition iob_ok :: "iob \<Rightarrow> bool" where
  "iob_ok i \<longleftrightarrow> 0 < iob_BufferSize i \<and> iob_BufferSize i \<le> length (iob_Buffer i) \<and>
     iob_BufferWriteBytes i \<le> iob_BufferSize i \<and> iob_BufferReadBytes i \<le> iob_BufferSize i \<and>
     iob_BufferPosition i \<le> iob_BufferReadBytes i"

definition pending :: "iob \<Rightarrow> byte list" where
  "pending i = take (iob_BufferWriteBytes i) (iob_Buffer i)"

text \<open>
  The part of a stream that its action owns, and the part that the buffered layer owns.
\<close>

definition sink_part :: "iob \<Rightarrow> iob" where
  "sink_part i = i\<lparr>iob_Flags := 0, iob_Buffer := [], iob_BufferSize := 0, iob_BufferPosition := 0,
     iob_BufferReadBytes := 0, iob_BufferWriteBytes := 0, iob_Flags2 := 0, iob_TaskLock := None\<rparr>"

definition buffer_part ::
  "iob \<Rightarrow> ulong \<times> byte list \<times> nat \<times> nat \<times> nat \<times> nat \<times> nat option \<times> nat option \<times> file_action_iob_t \<times> int" where
  "buffer_part i = (iob_Flags i, iob_Buffer i, iob_BufferSize i, iob_BufferPosition i,
     iob_BufferReadBytes i, iob_BufferWriteBytes i, iob_Lock i, iob_TaskLock i, iob_Action i,
     iob_Descriptor i)"

text \<open>
  \<open>sink_frame f s s'\<close>: nothing but \<^verbatim>\<open>errno\<close>, the exec.library state and the buffer of \<open>f\<close>
  may differ.
\<close>

definition sink_frame :: "nat \<Rightarrow> ('x, 'd) clib4 \<Rightarrow> ('x, 'd) clib4 \<Rightarrow> bool" where
  "sink_frame f s s' \<longleftrightarrow>
     sink_part (c_iobs s' f) = sink_part (c_iobs s f) \<and> (\<forall>g. g \<noteq> f \<longrightarrow> c_iobs s' g = c_iobs s g) \<and>
     c_dos s' = c_dos s \<and> c_fds s' = c_fds s \<and> c_fd s' = c_fd s \<and> c_iob s' = c_iob s \<and>
     c_self s' = c_self s \<and> c_stdio_lock s' = c_stdio_lock s"

lemma sink_frame_refl [simp]: "sink_frame f s s"
  by (simp add: sink_frame_def)

lemma sink_frame_trans: "sink_frame f s t \<Longrightarrow> sink_frame f t u \<Longrightarrow> sink_frame f s u"
  by (simp add: sink_frame_def)

definition contents :: "(('x, 'd) clib4 \<Rightarrow> byte list) \<Rightarrow> nat \<Rightarrow> ('x, 'd) clib4 \<Rightarrow> byte list" where
  "contents out f s = out s @ pending (c_iobs s f)"

text \<open>A stream in use that can be written to and holds no data read ahead.\<close>

definition writing :: "iob \<Rightarrow> bool" where
  "writing i \<longleftrightarrow> iob_ok i \<and> \<not> FLAG_IS_CLEAR (iob_Flags i) IOBF_IN_USE \<and>
     FLAG_IS_SET (iob_Flags i) IOBF_IN_USE \<and> \<not> FLAG_IS_CLEAR (iob_Flags i) IOBF_WRITE \<and>
     iob_BufferReadBytes i = 0"

text \<open>What no input or output operation changes in a stream: its buffering and byte order.\<close>

definition same_buffering :: "iob \<Rightarrow> iob \<Rightarrow> bool" where
  "same_buffering i j \<longleftrightarrow> iob_BufferSize j = iob_BufferSize i \<and> iob_mode j = iob_mode i \<and>
     FLAG_IS_SET (iob_Flags j) IOBF_LITTLE_ENDIAN = FLAG_IS_SET (iob_Flags i) IOBF_LITTLE_ENDIAN"

lemma same_buffering_refl [simp]: "same_buffering i i"
  by (simp add: same_buffering_def)

lemma same_buffering_trans: "same_buffering i j \<Longrightarrow> same_buffering j k \<Longrightarrow> same_buffering i k"
  by (simp add: same_buffering_def)

lemma writing_flags [simp]:
  "writing (i\<lparr>iob_Flags := SET_FLAG (iob_Flags i) IOBF_ERROR\<rparr>) = writing i"
  "writing (i\<lparr>iob_Flags := SET_FLAG (iob_Flags i) IOBF_LOCKED, iob_TaskLock := t\<rparr>) = writing i"
  "writing (i\<lparr>iob_Flags := CLEAR_FLAG (iob_Flags i) IOBF_LOCKED, iob_TaskLock := t\<rparr>) = writing i"
  by (simp_all add: writing_def iob_ok_def flag_simps)

lemma mode_flags [simp]:
  "same_buffering j (i\<lparr>iob_Flags := SET_FLAG (iob_Flags i) IOBF_ERROR\<rparr>) = same_buffering j i"
  "same_buffering j (i\<lparr>iob_Flags := SET_FLAG (iob_Flags i) IOBF_LOCKED, iob_TaskLock := t\<rparr>) = same_buffering j i"
  "same_buffering j (i\<lparr>iob_Flags := CLEAR_FLAG (iob_Flags i) IOBF_LOCKED, iob_TaskLock := t\<rparr>) = same_buffering j i"
  by (simp_all add: same_buffering_def iob_mode_def flag_simps)

lemma pending_flags [simp]:
  "pending (i\<lparr>iob_Flags := fl\<rparr>) = pending i" "pending (i\<lparr>iob_Flags := fl, iob_TaskLock := t\<rparr>) = pending i"
  by (simp_all add: pending_def)

lemma flockfile_frame:
  "sink_frame f s (flockfile_r E (Some f) s)"
  "writing (c_iobs (flockfile_r E (Some f) s) f) = writing (c_iobs s f)"
  "same_buffering j (c_iobs (flockfile_r E (Some f) s) f) = same_buffering j (c_iobs s f)"
  "pending (c_iobs (flockfile_r E (Some f) s) f) = pending (c_iobs s f)"
  by (simp_all add: flockfile_r_def Let_def sink_frame_def sink_part_def split: option.split)

lemma funlockfile_frame:
  "sink_frame f s (funlockfile_r E (Some f) s)"
  "writing (c_iobs (funlockfile_r E (Some f) s) f) = writing (c_iobs s f)"
  "same_buffering j (c_iobs (funlockfile_r E (Some f) s) f) = same_buffering j (c_iobs s f)"
  "pending (c_iobs (funlockfile_r E (Some f) s) f) = pending (c_iobs s f)"
  by (simp_all add: funlockfile_r_def Let_def sink_frame_def sink_part_def split: option.split)

lemma store_bytes_frame:
  assumes "writing (c_iobs s f)"
    and "iob_BufferWriteBytes (c_iobs s f) + length bs \<le> iob_BufferSize (c_iobs s f)"
  shows "sink_frame f s (store_bytes f bs s)" "writing (c_iobs (store_bytes f bs s) f)"
    "same_buffering (c_iobs s f) (c_iobs (store_bytes f bs s) f)"
    "pending (c_iobs (store_bytes f bs s) f) = pending (c_iobs s f) @ bs"
    "iob_BufferWriteBytes (c_iobs (store_bytes f bs s) f) = iob_BufferWriteBytes (c_iobs s f) + length bs"
  using assms
  by (auto simp: store_bytes_def sink_frame_def sink_part_def writing_def iob_ok_def pending_def
      same_buffering_def iob_mode_def take_mem_splice)

lemma store_byte_eq:
  "writing (c_iobs s f) \<Longrightarrow> iob_BufferWriteBytes (c_iobs s f) < iob_BufferSize (c_iobs s f) \<Longrightarrow>
    store_byte f b s = store_bytes f [b] s"
  by (simp add: store_byte_def store_bytes_def writing_def iob_ok_def mem_splice_single)

lemma take_mem_splice_before: "n \<le> pos \<Longrightarrow> pos \<le> length xs \<Longrightarrow> take n (mem_splice xs pos ys) = take n xs"
  by (simp add: mem_splice_def)

lemma uint_byte: "uint (word_of_int c :: byte) = c mod 256"
  by (simp add: uint_word_of_int)

lemma flockfile_store_bytes:
  "flockfile_r E (Some f) (store_bytes f bs s) = store_bytes f bs (flockfile_r E (Some f) s)"
  by (cases "c_iobs s f") (simp add: flockfile_r_def store_bytes_def Let_def split: option.split)

lemma flockfile_buffer [simp]:
  "iob_BufferWriteBytes (c_iobs (flockfile_r E (Some f) s) f) = iob_BufferWriteBytes (c_iobs s f)"
  "iob_BufferSize (c_iobs (flockfile_r E (Some f) s) f) = iob_BufferSize (c_iobs s f)"
  "iob_BufferReadBytes (c_iobs (flockfile_r E (Some f) s) f) = iob_BufferReadBytes (c_iobs s f)"
  "iob_BufferPosition (c_iobs (flockfile_r E (Some f) s) f) = iob_BufferPosition (c_iobs s f)"
  "iob_Buffer (c_iobs (flockfile_r E (Some f) s) f) = iob_Buffer (c_iobs s f)"
  by (simp_all add: flockfile_r_def Let_def split: option.split)

lemma funlockfile_buffer [simp]:
  "iob_BufferWriteBytes (c_iobs (funlockfile_r E (Some f) s) f) = iob_BufferWriteBytes (c_iobs s f)"
  "iob_BufferSize (c_iobs (funlockfile_r E (Some f) s) f) = iob_BufferSize (c_iobs s f)"
  "iob_BufferReadBytes (c_iobs (funlockfile_r E (Some f) s) f) = iob_BufferReadBytes (c_iobs s f)"
  "iob_BufferPosition (c_iobs (funlockfile_r E (Some f) s) f) = iob_BufferPosition (c_iobs s f)"
  "iob_Buffer (c_iobs (funlockfile_r E (Some f) s) f) = iob_Buffer (c_iobs s f)"
  by (simp_all add: funlockfile_r_def Let_def split: option.split)

lemma last_store_bytes:
  "writing (c_iobs s f) \<Longrightarrow> iob_BufferWriteBytes (c_iobs s f) < iob_BufferSize (c_iobs s f) \<Longrightarrow>
    iob_Buffer (c_iobs (store_bytes f [b] s) f) ! iob_BufferWriteBytes (c_iobs s f) = b"
  by (simp add: store_bytes_def writing_def iob_ok_def mem_splice_single)

text \<open>
  How far a loop got with \<open>str\<close>: \<open>k\<close> bytes are in the contents, at most \<open>k\<close> of them are counted.
\<close>

lemma take_Suc_drop: "k < length xs \<Longrightarrow> take k xs @ [hd (drop k xs)] = take (Suc k) xs"
  by (simp add: take_Suc_conv_app_nth hd_drop_conv_nth)

lemma tl_drop_Suc: "tl (drop k xs) = drop (Suc k) xs"
  by (simp add: drop_Suc tl_drop)

lemma line_loop_exit: "fst (line_loop E f str w s) \<noteq> loop_out"
proof (induction E f str w s rule: line_loop.induct)
  case (1 E f str w s)
  show ?case
  proof (cases "line_step E f str w s")
    case (Inl x)
    then have "fst x \<noteq> loop_out"
      by (auto simp: line_step_def line_put_def Let_def split: if_splits prod.splits)
    with Inl show ?thesis by (subst line_loop.simps) simp
  next
    case (Inr x)
    with 1 show ?thesis by (subst line_loop.simps) (cases x; simp)
  qed
qed

section \<open>The contract\<close>

text \<open>
  \<open>out s\<close> is the data that the action behind \<open>f\<close> has accepted. A write action either fails and
  accepts nothing or accepts all of its data, and it leaves the buffer of the stream alone; the
  buffered layer does not change what was accepted.
\<close>

locale write_sink =
  fixes E :: "('x, 'd) env" and f :: nat
    and inv :: "('x, 'd) clib4 \<Rightarrow> bool" and out :: "('x, 'd) clib4 \<Rightarrow> byte list"
  assumes write_action:
    "inv s \<Longrightarrow> fam_Action m = file_action_write \<Longrightarrow> 0 < fam_Size m \<Longrightarrow>
      fam_Size m \<le> length (fam_Data m) \<Longrightarrow> iob_action E s f m = (n, m', s') \<Longrightarrow>
      inv s' \<and> buffer_part (c_iobs s' f) = buffer_part (c_iobs s f) \<and>
      out s' = (if n = EOF then out s else out s @ take (fam_Size m) (fam_Data m))"
    and frame: "sink_frame f s s' \<Longrightarrow> inv s \<Longrightarrow> inv s' \<and> out s' = out s"
begin

text \<open>\<open>step s s' bs\<close>: the stream stays writable and its contents grow by \<open>bs\<close>.\<close>

abbreviation step :: "('x, 'd) clib4 \<Rightarrow> byte list \<Rightarrow> ('x, 'd) clib4 \<Rightarrow> bool" where
  "step s bs s' \<equiv> inv s' \<and> writing (c_iobs s' f) \<and> same_buffering (c_iobs s f) (c_iobs s' f) \<and>
     contents out f s' = contents out f s @ bs"

lemma frame_step:
  assumes "inv s" and "sink_frame f s s'" and "writing (c_iobs s' f)"
    and "same_buffering (c_iobs s f) (c_iobs s' f)"
    and "pending (c_iobs s' f) = pending (c_iobs s f) @ bs"
  shows "step s bs s'"
  using frame [OF assms(2,1)] assms(3-5) by (simp add: contents_def)

lemma step_trans:
  "step s as t \<Longrightarrow> step t bs u \<Longrightarrow> step s (as @ bs) u"
  by (auto intro: same_buffering_trans)

lemma flush_result:
  assumes inv: "inv s" and w: "writing (c_iobs s f)" and fl: "flush_iob_write_buffer E f s = (r, s')"
  shows "step s [] s' \<and>
    (r = OK \<and> iob_BufferWriteBytes (c_iobs s' f) = 0 \<or>
     r = ERROR \<and> iob_BufferWriteBytes (c_iobs s' f) = iob_BufferWriteBytes (c_iobs s f) \<and>
       iob_Buffer (c_iobs s' f) = iob_Buffer (c_iobs s f) \<and> out s' = out s)"
proof (cases "iob_BufferWriteBytes (c_iobs s f) > 0")
  case False
  with fl inv w show ?thesis
    by (simp add: flush_iob_write_buffer_def Let_def)
next
  case True
  let ?i = "c_iobs s f"
  let ?m = "(new_fam E file_action_write)\<lparr>fam_Data := iob_Buffer ?i, fam_Size := iob_BufferWriteBytes ?i\<rparr>"
  obtain n m t where act: "iob_action E s f ?m = (n, m, t)"
    by (metis surj_pair)
  from w have "iob_BufferWriteBytes ?i \<le> length (iob_Buffer ?i)"
    by (simp add: writing_def iob_ok_def)
  with write_action [OF inv _ _ _ act] True
  have t: "inv t" "buffer_part (c_iobs t f) = buffer_part ?i"
    "out t = (if n = EOF then out s else out s @ pending ?i)"
    by (simp_all add: pending_def)
  then have t': "writing (c_iobs t f)" "same_buffering ?i (c_iobs t f)" "pending (c_iobs t f) = pending ?i"
    "iob_BufferWriteBytes (c_iobs t f) = iob_BufferWriteBytes ?i" "iob_Buffer (c_iobs t f) = iob_Buffer ?i"
    using w by (simp_all add: buffer_part_def writing_def iob_ok_def same_buffering_def iob_mode_def pending_def)
  show ?thesis
  proof (cases "n = EOF")
    case True
    let ?t = "set_errno (fam_Error m) (set_iob_flag f IOBF_ERROR t)"
    have r: "r = ERROR" "s' = ?t"
      using fl w act True \<open>iob_BufferWriteBytes ?i > 0\<close>
      by (simp_all add: flush_iob_write_buffer_def Let_def writing_def)
    have "sink_frame f t ?t"
      by (simp add: sink_frame_def sink_part_def)
    from frame [OF this t(1)] show ?thesis
      unfolding r(2) using r(1) t t' True by (simp add: contents_def)
  next
    case False
    let ?t = "upd_iob f (\<lambda>j. j\<lparr>iob_BufferWriteBytes := 0\<rparr>) t"
    have r: "r = OK" "s' = ?t"
      using fl w act False \<open>iob_BufferWriteBytes ?i > 0\<close>
      by (simp_all add: flush_iob_write_buffer_def Let_def writing_def)
    have "sink_frame f t ?t"
      by (simp add: sink_frame_def sink_part_def)
    from frame [OF this t(1)] show ?thesis
      unfolding r(2) using r(1) t t' False
      by (simp add: contents_def pending_def writing_def iob_ok_def same_buffering_def iob_mode_def)
  qed
qed

lemma store_step:
  assumes "inv s" and "writing (c_iobs s f)"
    and "iob_BufferWriteBytes (c_iobs s f) + length bs \<le> iob_BufferSize (c_iobs s f)"
  shows "step s bs (store_bytes f bs s)"
  by (rule frame_step [OF assms(1)]) (use store_bytes_frame [OF assms(2,3)] in simp_all)

text \<open>
  A character that was stored and could not be flushed is taken back by decrementing
  \<^verbatim>\<open>iob_BufferWriteBytes\<close>.
\<close>

lemma undo_store:
  assumes inv: "inv s" and w: "writing (c_iobs s f)"
    and room: "iob_BufferWriteBytes (c_iobs s f) < iob_BufferSize (c_iobs s f)"
    and fl: "flush_iob_write_buffer E f (store_bytes f [b] s) = (ERROR, t)"
  shows "step s [] (upd_iob f (\<lambda>i. i\<lparr>iob_BufferWriteBytes := iob_BufferWriteBytes i - 1\<rparr>) t)"
    (is "step s [] ?u")
proof -
  let ?s = "store_bytes f [b] s"
  have sb: "sink_frame f s ?s" "writing (c_iobs ?s f)" "same_buffering (c_iobs s f) (c_iobs ?s f)"
    "iob_BufferWriteBytes (c_iobs ?s f) = iob_BufferWriteBytes (c_iobs s f) + 1"
    using store_bytes_frame [OF w, of "[b]"] room by simp_all
  with frame [OF sb(1) inv] have "inv ?s" "out ?s = out s" by auto
  with flush_result [OF _ sb(2) fl]
  have t: "inv t" "writing (c_iobs t f)" "same_buffering (c_iobs ?s f) (c_iobs t f)" "out t = out s"
    "iob_BufferWriteBytes (c_iobs t f) = iob_BufferWriteBytes (c_iobs s f) + 1"
    "iob_Buffer (c_iobs t f) = iob_Buffer (c_iobs ?s f)"
    using sb(4) by auto
  have "sink_frame f t ?u"
    by (simp add: sink_frame_def sink_part_def)
  with frame t(1,4) have "inv ?u" "out ?u = out s" by metis+
  moreover have "pending (c_iobs ?u f) = pending (c_iobs s f)"
    using t(5,6) w room
    by (simp add: pending_def store_bytes_def writing_def iob_ok_def take_mem_splice_before)
  moreover have "writing (c_iobs ?u f)" "same_buffering (c_iobs s f) (c_iobs ?u f)"
    using t(2,3) sb(3) by (auto simp: writing_def iob_ok_def same_buffering_def iob_mode_def)
  ultimately show ?thesis
    by (simp add: contents_def)
qed

lemma flush_stored:
  assumes inv: "inv s" and w: "writing (c_iobs s f)"
    and room: "iob_BufferWriteBytes (c_iobs s f) < iob_BufferSize (c_iobs s f)"
    and fl: "flush_iob_write_buffer E f (store_bytes f [b] s) = (r, t)"
  shows "r = OK \<and> step s [b] t \<or> r = ERROR \<and> step s []
    (upd_iob f (\<lambda>i. i\<lparr>iob_BufferWriteBytes := iob_BufferWriteBytes i - 1\<rparr>) t)"
proof -
  have st: "step s [b] (store_bytes f [b] s)"
    using store_step [OF inv w, of "[b]"] room by simp
  then have "step (store_bytes f [b] s) [] t" "r = OK \<or> r = ERROR"
    using flush_result [OF _ _ fl] by blast+
  with step_trans [OF st, where bs = "[]" and u = t] undo_store [OF inv w room, of b t] fl show ?thesis
    by auto
qed

lemma fputc_store_result:
  assumes inv: "inv s" and w: "writing (c_iobs s f)" and r: "fputc_store E c f m s = (r, s')"
  shows "r = c mod 256 \<and> step s [word_of_int c] s' \<or> r = EOF \<and> step s [] s'"
proof -
  let ?full = "iob_write_buffer_is_full (c_iobs s f)"
  obtain r1 s1 where fl: "(if ?full then flush_iob_write_buffer E f s else (OK, s)) = (r1, s1)"
    by (meson surj_pair)
  have s1: "step s [] s1 \<and> (r1 = OK \<and> iob_BufferWriteBytes (c_iobs s1 f) < iob_BufferSize (c_iobs s1 f) \<or> r1 = ERROR)"
  proof (cases ?full)
    case True
    with fl flush_result [OF inv w, of r1 s1] show ?thesis
      by (auto simp: writing_def iob_ok_def)
  next
    case False
    with fl inv w show ?thesis
      by (auto simp: writing_def iob_ok_def iob_macros)
  qed
  show ?thesis
  proof (cases "r1 = ERROR")
    case True
    with r fl s1 show ?thesis by (auto simp: fputc_store_def)
  next
    case False
    with s1 have ok: "r1 = OK" and room: "iob_BufferWriteBytes (c_iobs s1 f) < iob_BufferSize (c_iobs s1 f)"
      and st: "step s [] s1" by auto
    let ?b = "word_of_int c :: byte"
    have sb: "store_byte f ?b s1 = store_bytes f [?b] s1"
      using st room by (intro store_byte_eq) auto
    have stored: "step s1 [?b] (store_bytes f [?b] s1)"
      using store_step [of s1 "[?b]"] st room by simp
    obtain r2 s3 where fl2: "flush_iob_write_buffer E f (store_bytes f [?b] s1) = (r2, s3)"
      by (meson surj_pair)
    have fs: "r2 = OK \<and> step s1 [?b] s3 \<or> r2 = ERROR \<and> step s1 []
        (upd_iob f (\<lambda>i. i\<lparr>iob_BufferWriteBytes := iob_BufferWriteBytes i - 1\<rparr>) s3)"
      using st room fl2 by (intro flush_stored) auto
    have lift: "step s bs t" if "step s1 bs t" for bs t
      using step_trans [OF st that] by simp
    have eq: "fputc_store E c f m s =
      (if m = IOBF_BUFFER_MODE_NONE \<or> m = IOBF_BUFFER_MODE_LINE \<and> c = 10
       then (if r2 < 0 then (EOF, upd_iob f (\<lambda>i. i\<lparr>iob_BufferWriteBytes := iob_BufferWriteBytes i - 1\<rparr>) s3)
             else (c mod 256, s3))
       else (c mod 256, store_bytes f [?b] s1))"
      unfolding fputc_store_def fl ok by (simp only: prod.case sb fl2 Let_def) simp
    show ?thesis
    proof (cases "m = IOBF_BUFFER_MODE_NONE \<or> m = IOBF_BUFFER_MODE_LINE \<and> c = 10")
      case False
      with r eq lift [OF stored] show ?thesis by (simp only: if_False prod.inject) blast
    next
      case True
      with r eq have r': "(r, s') = (if r2 < 0
          then (EOF, upd_iob f (\<lambda>i. i\<lparr>iob_BufferWriteBytes := iob_BufferWriteBytes i - 1\<rparr>) s3)
          else (c mod 256, s3))"
        by (simp only: if_True)
      from fs show ?thesis
      proof (rule disjE)
        assume a: "r2 = OK \<and> step s1 [?b] s3"
        with r' have "r = c mod 256" "s' = s3" by simp_all
        with lift [OF conjunct2 [OF a]] show ?thesis by blast
      next
        let ?u = "upd_iob f (\<lambda>i. i\<lparr>iob_BufferWriteBytes := iob_BufferWriteBytes i - 1\<rparr>) s3"
        assume a: "r2 = ERROR \<and> step s1 [] ?u"
        with r' have "r = EOF" "s' = ?u" by simp_all
        with lift [OF conjunct2 [OF a]] show ?thesis by blast
      qed
    qed
  qed
qed

lemma flock_step: "inv s \<Longrightarrow> writing (c_iobs s f) \<Longrightarrow> step s [] (flockfile_r E (Some f) s)"
  by (rule frame_step) (simp_all add: flockfile_frame)

lemma funlock_step: "inv s \<Longrightarrow> writing (c_iobs s f) \<Longrightarrow> step s [] (funlockfile_r E (Some f) s)"
  by (rule frame_step) (simp_all add: funlockfile_frame)

lemma step_funlock: "step s bs t \<Longrightarrow> step s bs (funlockfile_r E (Some f) t)"
  using step_trans [where s = s and as = bs and t = t and bs = "[]" and u = "funlockfile_r E (Some f) t"]
    funlock_step [of t] by simp

lemma flock_step_trans: "inv s \<Longrightarrow> writing (c_iobs s f) \<Longrightarrow>
    step (flockfile_r E (Some f) s) bs t \<Longrightarrow> step s bs t"
  using step_trans [where s = s and as = "[]" and t = "flockfile_r E (Some f) s" and bs = bs and u = t]
    flock_step [of s] by simp

lemma flush_r_stored:
  assumes inv: "inv s" and w: "writing (c_iobs s f)"
    and room: "iob_BufferWriteBytes (c_iobs s f) < iob_BufferSize (c_iobs s f)"
    and r: "flush_r E (Some f) (store_bytes f [b] s) = (r, s')"
  shows "r = uint b \<and> step s [b] s' \<or> r = EOF \<and> step s [] s'"
proof -
  let ?l = "flockfile_r E (Some f) s"
  let ?u = "\<lambda>t. upd_iob f (\<lambda>i. i\<lparr>iob_BufferWriteBytes := iob_BufferWriteBytes i - 1\<rparr>) t"
  have l: "inv ?l" "writing (c_iobs ?l f)" using flock_step [OF inv w] by auto
  obtain r2 t where fl: "flush_iob_write_buffer E f (store_bytes f [b] ?l) = (r2, t)"
    by (meson surj_pair)
  have wb: "iob_BufferWriteBytes (c_iobs (store_bytes f [b] ?l) f) = iob_BufferWriteBytes (c_iobs s f) + 1"
    "iob_BufferSize (c_iobs (store_bytes f [b] ?l) f) = iob_BufferSize (c_iobs s f)"
    by (simp_all add: store_bytes_def)
  have eq: "flush_r E (Some f) (store_bytes f [b] s) =
      (if r2 < 0 then EOF else uint b, funlockfile_r E (Some f) (if r2 < 0 then ?u t else t))"
    using fl wb room last_store_bytes [OF l(2), of b]
    by (simp add: flush_r_def flockfile_store_bytes Let_def)
  have "r2 = OK \<and> step ?l [b] t \<or> r2 = ERROR \<and> step ?l [] (?u t)"
    using l room fl by (intro flush_stored) simp_all
  then show ?thesis
  proof (rule disjE)
    assume a: "r2 = OK \<and> step ?l [b] t"
    have "step s [b] (funlockfile_r E (Some f) t)"
      by (rule step_funlock, rule flock_step_trans [OF inv w]) (rule conjunct2 [OF a])
    then show ?thesis using r eq a by auto
  next
    assume a: "r2 = ERROR \<and> step ?l [] (?u t)"
    have "step s [] (funlockfile_r E (Some f) (?u t))"
      by (rule step_funlock, rule flock_step_trans [OF inv w]) (rule conjunct2 [OF a])
    then show ?thesis using r eq a by auto
  qed
qed

lemma putc_line_result:
  assumes inv: "inv s" and w: "writing (c_iobs s f)" and r: "putc_line_buffered E (uint b) f s = (r, s')"
  shows "r = uint b \<and> step s [b] s' \<or> r = EOF \<and> step s [] s'"
proof (cases "iob_BufferWriteBytes (c_iobs s f) < iob_BufferSize (c_iobs s f)")
  case True
  have "uint b mod 256 = uint b"
    using uint_lt2p [of b] by simp
  with True r flush_r_stored [OF inv w True, of b r s'] store_step [OF inv w, of "[b]"] show ?thesis
    by (auto simp: putc_line_buffered_def Let_def store_byte_eq [OF w True] split: if_splits)
next
  case False
  have "uint b mod 256 = uint b"
    using uint_lt2p [of b] by simp
  with False r fputc_store_result [OF inv w, of "uint b" IOBF_BUFFER_MODE_LINE r s'] show ?thesis
    by (simp add: putc_line_buffered_def)
qed

lemma putc_full_result:
  assumes inv: "inv s" and w: "writing (c_iobs s f)" and r: "putc_fully_buffered E (uint b) f s = (r, s')"
  shows "r = uint b \<and> step s [b] s' \<or> r = EOF \<and> step s [] s'"
proof (cases "iob_BufferWriteBytes (c_iobs s f) < iob_BufferSize (c_iobs s f)")
  case True
  with r store_step [OF inv w, of "[b]"] show ?thesis
    by (auto simp: putc_fully_buffered_def store_byte_eq [OF w True])
next
  case False
  have "uint b mod 256 = uint b"
    using uint_lt2p [of b] by simp
  with False r fputc_store_result [OF inv w, of "uint b" IOBF_BUFFER_MODE_FULL r s'] show ?thesis
    by (simp add: putc_fully_buffered_def)
qed

lemma fputc_check_writing:
  "writing (c_iobs s f) \<Longrightarrow> fputc_check E (Some f) s = (OK, s)"
  by (simp add: fputc_check_def writing_def iob_macros)

lemma fputc_result:
  assumes inv: "inv s" and w: "writing (c_iobs s f)" and r: "fputc E c (Some f) s = (r, s')"
  shows "r = c mod 256 \<and> step s [word_of_int c] s' \<or> r = EOF \<and> step s [] s'"
proof -
  let ?l = "flockfile_r E (Some f) s"
  have l: "inv ?l" "writing (c_iobs ?l f)" using flock_step [OF inv w] by auto
  obtain r1 t where st: "fputc_store E c f (iob_mode (c_iobs ?l f)) ?l = (r1, t)"
    by (meson surj_pair)
  have eq: "r = r1" "s' = funlockfile_r E (Some f) t"
    using r st by (simp_all add: fputc_def fputc_check_writing [OF l(2)])
  from fputc_store_result [OF l st] show ?thesis
  proof (rule disjE)
    assume a: "r1 = c mod 256 \<and> step ?l [word_of_int c] t"
    show ?thesis
      unfolding eq using step_funlock [OF flock_step_trans [OF inv w conjunct2 [OF a]]] a by blast
  next
    assume a: "r1 = EOF \<and> step ?l [] t"
    show ?thesis
      unfolding eq using step_funlock [OF flock_step_trans [OF inv w conjunct2 [OF a]]] a by blast
  qed
qed

lemma fflush_result:
  assumes inv: "inv s" and w: "writing (c_iobs s f)" and r: "fflush_r E (Some f) s = (r, s')"
  shows "step s [] s' \<and> (r = OK \<and> iob_BufferWriteBytes (c_iobs s' f) = 0 \<or> r = EOF)"
proof -
  let ?l = "flockfile_r E (Some f) s"
  have l: "inv ?l" "writing (c_iobs ?l f)" using flock_step [OF inv w] by auto
  obtain r1 t where st: "flush_iob_write_buffer E f ?l = (r1, t)"
    by (meson surj_pair)
  show ?thesis
  proof (cases "iob_write_buffer_is_valid (c_iobs ?l f)")
    case True
    have eq: "r = (if r1 < 0 then EOF else OK)" "s' = funlockfile_r E (Some f) t"
      using r st True by (simp_all add: fflush_r_def Let_def)
    note fr = flush_result [OF l st]
    show ?thesis
      unfolding eq using step_funlock [OF flock_step_trans [OF inv w conjunct1 [OF fr]]] fr by auto
  next
    case False
    have eq: "r = OK" "s' = funlockfile_r E (Some f) ?l"
      using r False by (simp_all add: fflush_r_def Let_def)
    show ?thesis
      unfolding eq using step_funlock [OF flock_step [OF inv w]] False by (simp add: iob_macros)
  qed
qed

text \<open>
  \<open>progress s str w x\<close>: a loop step started with \<open>str\<close> left and \<open>w\<close> bytes counted and came to \<open>x\<close>.
\<close>

abbreviation progress ::
  "('x, 'd) clib4 \<Rightarrow> byte list \<Rightarrow> nat \<Rightarrow> ('x, 'd) loop_step \<Rightarrow> bool" where
  "progress s str w x \<equiv> (case x of
     Inl (e, w', s') \<Rightarrow>
       e = loop_end \<and> step s str s' \<and> w' = w + length str \<or>
       e \<noteq> loop_end \<and> (\<exists>k \<le> length str. step s (take k str) s' \<and> w' \<le> w + k \<and> w' < w + length str)
   | Inr (str', w', s') \<Rightarrow>
       (\<exists>k \<le> length str. str' = drop k str \<and> w' = w + k \<and> step s (take k str) s'))"

lemma put_progress:
  assumes st: "step s (take k str) t" and k: "k < length str" and e: "e \<noteq> loop_end"
    and put: "r = uint (hd (drop k str)) \<and> step t [hd (drop k str)] u \<or> r = EOF \<and> step t [] u"
  shows "progress s str w (if r = EOF then Inl (e, w + k, u) else Inr (tl (drop k str), w + k + 1, u))"
  using put
proof (rule disjE)
  assume a: "r = uint (hd (drop k str)) \<and> step t [hd (drop k str)] u"
  then have "r \<noteq> EOF" using uint_ge_0 [of "hd (drop k str)"] by linarith
  moreover have "step s (take (Suc k) str) u"
    using step_trans [OF st conjunct2 [OF a]] by (simp only: take_Suc_drop [OF k])
  ultimately show ?thesis
    using k by (auto simp: tl_drop_Suc intro!: exI [of _ "Suc k"])
next
  assume a: "r = EOF \<and> step t [] u"
  have "step s (take k str) u"
    using step_trans [OF st conjunct2 [OF a]] by simp
  then show ?thesis
    using k a e by (auto intro!: exI [of _ k])
qed

lemma line_put_result:
  assumes st: "step s (take k str) t" and k: "k < length str"
  shows "progress s str w (line_put E f (drop k str) (w + k) t)"
proof -
  obtain r u where p: "putc_line_buffered E (uint (hd (drop k str))) f t = (r, u)"
    by (meson surj_pair)
  from st have "inv t" "writing (c_iobs t f)" by auto
  from put_progress [OF st k _ putc_line_result [OF this p], of loop_break w]
  show ?thesis by (simp add: line_put_def p)
qed

lemma store_chunk:
  assumes inv: "inv s" and w: "writing (c_iobs s f)"
    and n: "n \<le> length str" "n \<le> iob_BufferSize (c_iobs s f) - iob_BufferWriteBytes (c_iobs s f)"
    and fl: "(if c then flush_iob_write_buffer E f (store_bytes f (take n str) s)
      else (OK, store_bytes f (take n str) s)) = (r, t)"
  shows "step s (take n str) t \<and> (r = OK \<or> r = ERROR)"
proof -
  have room: "iob_BufferWriteBytes (c_iobs s f) + length (take n str) \<le> iob_BufferSize (c_iobs s f)"
    using n w by (auto simp: writing_def iob_ok_def)
  note st = store_step [OF inv w room]
  show ?thesis
  proof (cases c)
    case True
    with fl st have fr: "step (store_bytes f (take n str) s) [] t \<and> (r = OK \<or> r = ERROR)"
      using flush_result [of "store_bytes f (take n str) s" r t] by (simp only: if_True) blast
    show ?thesis
      using step_trans [OF st conjunct1 [OF fr]] fr by simp
  qed (use fl st in auto)
qed

lemma chunk_progress:
  assumes st: "step s (take n str) t" and n: "n \<le> length str" and str: "str \<noteq> []"
    and put: "n < length str \<Longrightarrow> progress s str w (put (drop n str) (w + n) t)"
    and e: "e \<noteq> loop_end"
  shows "progress s str w
    (if r < 0 then Inl (e, w, t)
     else if drop n str = [] then Inl (loop_end, w + n, t)
     else if c then Inr (drop n str, w + n, t) else put (drop n str) (w + n) t)"
proof (cases "r < 0")
  case True
  with st n str e show ?thesis by (auto intro!: exI [of _ n])
next
  case False
  show ?thesis
  proof (cases "n < length str")
    case True
    with False st n put show ?thesis by (cases c) (auto intro!: exI [of _ n])
  next
    case False
    with \<open>\<not> r < 0\<close> st n show ?thesis by simp
  qed
qed

lemma line_step_result:
  assumes inv: "inv s" and w: "writing (c_iobs s f)" and str: "str \<noteq> []"
  shows "progress s str w0 (line_step E f str w0 s)"
proof (cases "iob_BufferWriteBytes (c_iobs s f) < iob_BufferSize (c_iobs s f)")
  case False
  moreover have "step s (take 0 str) s" using inv w by simp
  ultimately show ?thesis
    using line_put_result [where s = s and k = 0 and str = str and t = s and w = w0] str by (simp only: line_step_def) simp
next
  case True
  obtain n lf where c: "line_chunk (c_iobs s f) str = (n, lf)" by (meson surj_pair)
  note n = line_chunk_bounds [OF c True str]
  let ?s1 = "store_bytes f (take n str) s"
  let ?c = "lf \<or> iob_write_buffer_is_full (c_iobs ?s1 f)"
  obtain r t where fl: "(if ?c then flush_iob_write_buffer E f ?s1 else (OK, ?s1)) = (r, t)"
    by (meson surj_pair)
  from store_chunk [OF inv w n(2,3) fl]
  have st: "step s (take n str) t" by (rule conjunct1)
  have eq: "line_step E f str w0 s =
    (if r < 0 then Inl (loop_break, w0, t)
     else if drop n str = [] then Inl (loop_end, w0 + n, t)
     else if iob_BufferWriteBytes (c_iobs t f) < iob_BufferSize (c_iobs t f)
     then Inr (drop n str, w0 + n, t) else line_put E f (drop n str) (w0 + n) t)"
    using True c fl by (simp only: line_step_def if_True prod.case Let_def)
  show ?thesis
    unfolding eq
    by (rule chunk_progress [where put = "line_put E f", OF st n(2) str line_put_result [OF st]]) simp_all
qed

text \<open>A loop built from steps that make progress makes progress.\<close>

lemma loop_progress:
  assumes stp: "\<And>s str w. inv s \<Longrightarrow> writing (c_iobs s f) \<Longrightarrow> str \<noteq> [] \<Longrightarrow> progress s str w (stp str w s)"
    and shrinks: "\<And>s str w str' w' s'. stp str w s = Inr (str', w', s') \<Longrightarrow> str \<noteq> [] \<Longrightarrow> length str' < length str"
    and loop: "\<And>s str w. lp str w s = (if str = [] then (loop_end, w, s)
      else case stp str w s of Inl result \<Rightarrow> result | Inr (str', w', s') \<Rightarrow> lp str' w' s')"
    and s: "inv s" "writing (c_iobs s f)"
  shows "progress s str w (Inl (lp str w s))"
  using s
proof (induction str arbitrary: s w rule: length_induct)
  case (1 str)
  show ?case
  proof (cases "str = []")
    case True
    with 1 show ?thesis by (simp add: loop [of "[]"])
  next
    case False
    note step1 = stp [OF 1(2,3) False, of w]
    show ?thesis
    proof (cases "stp str w s")
      case (Inl x)
      with step1 False show ?thesis by (subst loop) simp
    next
      case (Inr x)
      obtain str' w' t where x: "x = (str', w', t)" by (cases x)
      with step1 Inr obtain k where k: "k \<le> length str" "str' = drop k str" "w' = w + k" "step s (take k str) t"
        by auto
      have "length str' < length str"
        using shrinks [of str w s str' w' t] Inr x False by simp
      with 1(1) k(4) have ih: "progress t str' w' (Inl (lp str' w' t))" by blast
      obtain e w2 u where u: "lp str' w' t = (e, w2, u)" by (metis surj_pair)
      have eq: "lp str w s = (e, w2, u)"
        using False Inr x u by (subst loop) simp
      from ih consider (fin) "e = loop_end \<and> w2 = w' + length str'" "step t str' u"
        | (stop) j where "e \<noteq> loop_end \<and> j \<le> length str' \<and> w2 \<le> w' + j \<and> w2 < w' + length str'"
            "step t (take j str') u"
        unfolding u by (simp only: sum.case prod.case) blast
      then show ?thesis
      proof cases
        case fin
        from step_trans [OF k(4) fin(2)] have "step s str u"
          by (simp only: k(2) append_take_drop_id)
        with fin(1) k(1-3) eq show ?thesis by simp
      next
        case stop
        from step_trans [OF k(4) stop(2)] have "step s (take (k + j) str) u"
          by (simp only: k(2) take_add)
        with stop(1) k(1-3) eq show ?thesis by (auto intro!: exI [of _ "k + j"])
      qed
    qed
  qed
qed

lemma line_loop_result:
  "inv s \<Longrightarrow> writing (c_iobs s f) \<Longrightarrow> progress s str w (Inl (line_loop E f str w s))"
  by (rule loop_progress [where stp = "line_step E f" and lp = "line_loop E f",
      OF line_step_result line_step_shrinks line_loop.simps])

end

section \<open>Streams of files\<close>

text \<open>
  A stream of a file writes large blocks past its buffer, with \<^verbatim>\<open>write()\<close> on its descriptor.
  Its descriptor is in the table, and \<^verbatim>\<open>write()\<close> also accepts everything or fails.
\<close>

locale file_sink = write_sink E f inv out
  for E :: "('x, 'd) env" and f :: nat
    and inv :: "('x, 'd) clib4 \<Rightarrow> bool" and out :: "('x, 'd) clib4 \<Rightarrow> byte list" +
  assumes write_call:
    "inv s \<Longrightarrow> 0 < n \<Longrightarrow> n \<le> length bs \<Longrightarrow> n < 2 ^ 31 \<Longrightarrow>
      write_r E (iob_Descriptor (c_iobs s f)) (Some bs) n s = (k, s') \<Longrightarrow>
      inv s' \<and> buffer_part (c_iobs s' f) = buffer_part (c_iobs s f) \<and>
      (k = - 1 \<and> out s' = out s \<or> k = int n \<and> out s' = out s @ take n bs)"
    and descriptor: "inv s \<Longrightarrow> fd_slot s (iob_Descriptor (c_iobs s f)) \<noteq> None"
begin

lemma write_call_step:
  assumes inv: "inv s" and w: "writing (c_iobs s f)" and e: "iob_BufferWriteBytes (c_iobs s f) = 0"
    and n: "0 < n" "n \<le> length bs" "n < 2 ^ 31"
    and wr: "write_r E (iob_Descriptor (c_iobs s f)) (Some bs) n s = (k, t)"
  shows "k = - 1 \<and> step s [] (set_iob_flag f IOBF_ERROR t) \<or> k = int n \<and> step s (take n bs) t"
proof -
  from write_call [OF inv n wr]
  have t: "inv t" "buffer_part (c_iobs t f) = buffer_part (c_iobs s f)"
    "k = - 1 \<and> out t = out s \<or> k = int n \<and> out t = out s @ take n bs" by auto
  then have t': "writing (c_iobs t f)" "same_buffering (c_iobs s f) (c_iobs t f)"
    "pending (c_iobs t f) = []" "pending (c_iobs s f) = []"
    using w e by (simp_all add: buffer_part_def writing_def iob_ok_def same_buffering_def iob_mode_def pending_def)
  let ?u = "set_iob_flag f IOBF_ERROR t"
  have "sink_frame f t ?u"
    by (simp add: sink_frame_def sink_part_def)
  with frame t(1) have "inv ?u" "out ?u = out t" by blast+
  with t t' show ?thesis
    by (auto simp: contents_def)
qed

lemma full_put_result:
  assumes st: "step s (take k str) t" and k: "k < length str"
  shows "progress s str w (fputs_full_put E f (drop k str) (w + k) t)"
proof -
  obtain r u where p: "putc_fully_buffered E (uint (hd (drop k str))) f t = (r, u)"
    by (meson surj_pair)
  from st have "inv t" "writing (c_iobs t f)" by auto
  from put_progress [OF st k _ putc_full_result [OF this p], of loop_out w]
  show ?thesis by (simp add: fputs_full_put_def p)
qed

lemma full_step_result:
  assumes inv: "inv s" and w: "writing (c_iobs s f)" and str: "str \<noteq> []" and len: "length str < 2 ^ 31"
  shows "progress s str w0 (fputs_full_step E f str w0 s)"
proof (cases "iob_BufferWriteBytes (c_iobs s f) = 0 \<and> length str \<ge> iob_BufferSize (c_iobs s f)")
  case True
  obtain k t where wr: "write_r E (iob_Descriptor (c_iobs s f)) (Some str) (length str) s = (k, t)"
    by (meson surj_pair)
  have eq: "fputs_full_step E f str w0 s =
      (if k = - 1 then Inl (loop_out, w0, set_iob_flag f IOBF_ERROR t) else Inl (loop_end, w0 + length str, t))"
    by (simp only: fputs_full_step_def Let_def if_P [OF True] wr prod.case)
  have "k = - 1 \<and> step s [] (set_iob_flag f IOBF_ERROR t) \<or> k = int (length str) \<and> step s str t"
    using write_call_step [OF inv w _ _ _ len wr] True str by auto
  then show ?thesis
  proof (rule disjE)
    assume a: "k = - 1 \<and> step s [] (set_iob_flag f IOBF_ERROR t)"
    then have "fputs_full_step E f str w0 s = Inl (loop_out, w0, set_iob_flag f IOBF_ERROR t)"
      unfolding eq by (simp only: if_P)
    with a str show ?thesis
      by (simp only: sum.case prod.case) (auto intro!: exI [of _ 0])
  next
    assume a: "k = int (length str) \<and> step s str t"
    then have "fputs_full_step E f str w0 s = Inl (loop_end, w0 + length str, t)"
      using eq by simp
    with a show ?thesis by simp
  qed
next
  case nb: False
  show ?thesis
  proof (cases "iob_BufferWriteBytes (c_iobs s f) < iob_BufferSize (c_iobs s f)")
    case False
    moreover have "step s (take 0 str) s" using inv w by simp
    ultimately show ?thesis
      using full_put_result [where s = s and k = 0 and str = str and t = s and w = w0] str
      by (simp only: fputs_full_step_def Let_def if_not_P [OF nb] if_not_P [OF False]) simp
  next
    case True
    let ?n = "min (iob_BufferSize (c_iobs s f) - iob_BufferWriteBytes (c_iobs s f)) (length str)"
    let ?s1 = "store_bytes f (take ?n str) s"
    obtain r t where fl: "(if iob_write_buffer_is_full (c_iobs ?s1 f)
        then flush_iob_write_buffer E f ?s1 else (OK, ?s1)) = (r, t)"
      by (meson surj_pair)
    have n: "?n \<le> length str" "?n \<le> iob_BufferSize (c_iobs s f) - iob_BufferWriteBytes (c_iobs s f)" by simp_all
    from store_chunk [OF inv w n fl]
    have st: "step s (take ?n str) t" by (rule conjunct1)
    have eq: "fputs_full_step E f str w0 s =
      (if r < 0 then Inl (loop_out, w0, t)
       else if drop ?n str = [] then Inl (loop_end, w0 + ?n, t)
       else if iob_BufferWriteBytes (c_iobs t f) < iob_BufferSize (c_iobs t f)
       then Inr (drop ?n str, w0 + ?n, t) else fputs_full_put E f (drop ?n str) (w0 + ?n) t)"
      by (simp only: fputs_full_step_def if_P [OF True] if_not_P [OF nb] fl prod.case Let_def)
    show ?thesis
      unfolding eq
      by (rule chunk_progress [where put = "fputs_full_put E f", OF st n(1) str full_put_result [OF st]])
        simp_all
  qed
qed

text \<open>A guard on the length turns the step into one that always makes progress.\<close>

lemma full_loop_result:
  assumes s: "inv s" "writing (c_iobs s f)" and len: "length str < 2 ^ 31"
  shows "progress s str w (Inl (fputs_full_loop E f str w s))"
proof -
  let ?stp = "\<lambda>str w s. if length str < 2 ^ 31 then fputs_full_step E f str w s else Inl (loop_out, w, s)"
  let ?lp = "\<lambda>str w s. if length str < 2 ^ 31 then fputs_full_loop E f str w s
    else (loop_out, w, s) :: ('x, 'd) loop_result"
  have "progress s str w (Inl (?lp str w s))"
  proof (rule loop_progress [where stp = ?stp and lp = ?lp, OF _ _ _ s])
    fix s :: "('x, 'd) clib4" and str :: "byte list" and w
    assume "inv s" "writing (c_iobs s f)" "str \<noteq> []"
    then show "progress s str w (?stp str w s)"
      using full_step_result [of s str w] by (cases "length str < 2 ^ 31") (auto intro!: exI [of _ 0])
  next
    fix s :: "('x, 'd) clib4" and str :: "byte list" and w str' w' s'
    assume "?stp str w s = Inr (str', w', s')" "str \<noteq> []"
    then show "length str' < length str"
      by (auto dest: fputs_full_step_shrinks split: if_splits)
  next
    fix s :: "('x, 'd) clib4" and str :: "byte list" and w
    show "?lp str w s = (if str = [] then (loop_end, w, s)
      else case ?stp str w s of Inl result \<Rightarrow> result | Inr (str', w', s') \<Rightarrow> ?lp str' w' s')"
      by (subst fputs_full_loop.simps)
        (auto split: sum.splits dest: fputs_full_step_shrinks)
  qed
  with len show ?thesis by simp
qed

lemma fd_lock_frame: "sink_frame f s (fd_lock E a s)" "sink_frame f s (fd_unlock E a s)"
  by (simp_all add: sink_frame_def)

lemma output_mode_result:
  assumes inv: "inv s" and w: "writing (c_iobs s f)"
  obtains m t where "output_mode E f s = Some (m, t)" "step s [] t"
    "iob_BufferWriteBytes (c_iobs t f) = iob_BufferWriteBytes (c_iobs s f)"
    "m = iob_mode (c_iobs s f) \<or> iob_mode (c_iobs s f) = IOBF_BUFFER_MODE_NONE \<and> m = IOBF_BUFFER_MODE_LINE"
proof (cases "iob_mode (c_iobs s f) = IOBF_BUFFER_MODE_NONE")
  case True
  obtain a where a: "fd_slot s (iob_Descriptor (c_iobs s f)) = Some a"
    using descriptor [OF inv] by blast
  let ?t = "fd_unlock E a (fd_lock E a s)"
  have "sink_frame f s ?t"
    by (rule sink_frame_trans [OF fd_lock_frame(1) fd_lock_frame(2)])
  then have "step s [] ?t"
    by (rule frame_step [OF inv]) (use w in simp_all)
  with a True show ?thesis
    by (intro that [of _ ?t]) (auto simp: output_mode_def Let_def)
next
  case False
  with inv w show ?thesis
    by (intro that [of "iob_mode (c_iobs s f)" s]) (auto simp: output_mode_def Let_def)
qed

text \<open>\<open>put_result s str r s'\<close>: all of \<open>str\<close> was written, or an error after some of it.\<close>

abbreviation put_result :: "('x, 'd) clib4 \<Rightarrow> byte list \<Rightarrow> int \<Rightarrow> ('x, 'd) clib4 \<Rightarrow> bool" where
  "put_result s str r s' \<equiv> r = OK \<and> step s str s' \<or> r = EOF \<and> (\<exists>k \<le> length str. step s (take k str) s')"

lemma loop_put_result:
  assumes st: "step s [] t" and p: "progress t str w (Inl (e, w', u))"
  shows "put_result s str (if e = loop_end then OK else EOF) u"
proof -
  from p consider (fin) "e = loop_end" "step t str u"
    | (stop) k where "e \<noteq> loop_end" "k \<le> length str" "step t (take k str) u"
    by (simp only: sum.case prod.case) blast
  then show ?thesis
  proof cases
    case fin
    with step_trans [OF st fin(2)] show ?thesis by simp
  next
    case stop
    from step_trans [OF st stop(3)] have "step s (take k str) u" by (simp only: append_Nil)
    with stop(1,2) show ?thesis by auto
  qed
qed

lemma fputs_body_result:
  assumes inv: "inv s" and w: "writing (c_iobs s f)" and len: "length str < 2 ^ 31"
    and none: "iob_mode (c_iobs s f) = IOBF_BUFFER_MODE_NONE \<Longrightarrow> iob_BufferWriteBytes (c_iobs s f) = 0"
  shows "\<exists>r u. fputs_body E str f s = Some (r, u) \<and> put_result s str r u"
proof (cases "str = []")
  case True
  with inv w show ?thesis by (simp add: fputs_body_def)
next
  case ne: False
  obtain m t where m: "output_mode E f s = Some (m, t)" and st: "step s [] t"
    and wb: "iob_BufferWriteBytes (c_iobs t f) = iob_BufferWriteBytes (c_iobs s f)"
    and mm: "m = iob_mode (c_iobs s f) \<or> iob_mode (c_iobs s f) = IOBF_BUFFER_MODE_NONE \<and> m = IOBF_BUFFER_MODE_LINE"
    by (rule output_mode_result [OF inv w])
  from st have t: "inv t" "writing (c_iobs t f)" by auto
  consider (line) "m = IOBF_BUFFER_MODE_LINE" | (none) "m = IOBF_BUFFER_MODE_NONE"
    | (full) "m \<noteq> IOBF_BUFFER_MODE_LINE" "m \<noteq> IOBF_BUFFER_MODE_NONE" by blast
  then show ?thesis
  proof cases
    case line
    obtain e w' u where l: "line_loop E f str 0 t = (e, w', u)" by (metis surj_pair)
    then show ?thesis
      using m line ne loop_put_result [OF st, of str 0 e w' u] line_loop_result [OF t, of str 0]
      by (simp add: fputs_body_def)
  next
    case full
    obtain e w' u where l: "fputs_full_loop E f str 0 t = (e, w', u)" by (metis surj_pair)
    then show ?thesis
      using m full ne loop_put_result [OF st, of str 0 e w' u] full_loop_result [OF t len, of 0]
      by (simp add: fputs_body_def)
  next
    case none': none
    then have z: "iob_BufferWriteBytes (c_iobs t f) = 0" using mm none wb by auto
    obtain k u where wr: "write_r E (iob_Descriptor (c_iobs t f)) (Some str) (length str) t = (k, u)"
      by (meson surj_pair)
    have body: "fputs_body E str f s =
        (if k = - 1 then Some (EOF, set_iob_flag f IOBF_ERROR u) else Some (OK, u))"
      using ne m none' wr by (simp add: fputs_body_def write_c_def)
    have "k = - 1 \<and> step t [] (set_iob_flag f IOBF_ERROR u) \<or> k = int (length str) \<and> step t str u"
      using write_call_step [OF t z _ _ len wr] ne by auto
    then show ?thesis
    proof (rule disjE)
      assume a: "k = - 1 \<and> step t [] (set_iob_flag f IOBF_ERROR u)"
      from step_trans [OF st conjunct2 [OF a]] have "step s (take 0 str) (set_iob_flag f IOBF_ERROR u)"
        by (simp only: append_Nil take_0)
      moreover have "fputs_body E str f s = Some (EOF, set_iob_flag f IOBF_ERROR u)"
        unfolding body using a by (simp only: if_P)
      ultimately show ?thesis by blast
    next
      assume a: "k = int (length str) \<and> step t str u"
      from step_trans [OF st conjunct2 [OF a]] body a show ?thesis by simp
    qed
  qed
qed

lemma flush_unbuffered_result:
  assumes p: "put_result s str r t" and fl: "flush_unbuffered E f r t = (r', u)"
  shows "put_result s str r' u"
proof (cases "r = OK \<and> iob_mode (c_iobs t f) = IOBF_BUFFER_MODE_NONE \<and> iob_write_buffer_is_valid (c_iobs t f)")
  case False
  then have "flush_unbuffered E f r t = (r, t)"
    by (simp only: flush_unbuffered_def if_False if_not_P [OF False])
  with fl p show ?thesis by simp
next
  case True
  obtain r1 v where fl1: "flush_iob_write_buffer E f t = (r1, v)" by (meson surj_pair)
  with True fl have eq: "r' = (if r1 < 0 then EOF else OK)" "u = v"
    by (simp_all add: flush_unbuffered_def)
  from p True have st: "step s str t" by auto
  then have "inv t" "writing (c_iobs t f)" by auto
  from flush_result [OF this fl1] have "step t [] v" by (rule conjunct1)
  from step_trans [OF st this] have "step s str v" by simp
  then show ?thesis
    unfolding eq by (cases "r1 < 0") (auto intro!: exI [of _ "length str"])
qed

lemma fputs_result:
  assumes inv: "inv s" and w: "writing (c_iobs s f)" and len: "length str < 2 ^ 31"
    and none: "iob_mode (c_iobs s f) = IOBF_BUFFER_MODE_NONE \<Longrightarrow> iob_BufferWriteBytes (c_iobs s f) = 0"
  shows "\<exists>r u. fputs_r E (Some str) (Some f) s = Some (r, u) \<and> put_result s str r u"
proof -
  let ?l = "flockfile_r E (Some f) s"
  have l: "inv ?l" "writing (c_iobs ?l f)" "same_buffering (c_iobs s f) (c_iobs ?l f)"
    using flock_step [OF inv w] by auto
  have "iob_mode (c_iobs ?l f) = IOBF_BUFFER_MODE_NONE \<Longrightarrow> iob_BufferWriteBytes (c_iobs ?l f) = 0"
    using none l(3) by (simp add: same_buffering_def)
  from fputs_body_result [OF l(1,2) len this] obtain r t
    where b: "fputs_body E str f ?l = Some (r, t)" and p: "put_result ?l str r t" by blast
  obtain r' u where fl: "flush_unbuffered E f r t = (r', u)" by (meson surj_pair)
  have eq: "fputs_r E (Some str) (Some f) s = Some (r', funlockfile_r E (Some f) u)"
    using b fl by (simp add: fputs_r_def fputc_check_writing [OF l(2)])
  have lift: "step s bs (funlockfile_r E (Some f) u)" if "step ?l bs u" for bs
    by (rule step_funlock, rule flock_step_trans [OF inv w that])
  from flush_unbuffered_result [OF p fl] show ?thesis
    unfolding eq using lift by blast
qed

text \<open>
  The fully buffered loop of \<^verbatim>\<open>fwrite\<close>, entered with room in the buffer: room remains after
  each pass, so the single-character path is not taken.
\<close>

abbreviation room :: "('x, 'd) clib4 \<Rightarrow> bool" where
  "room s \<equiv> iob_BufferWriteBytes (c_iobs s f) < iob_BufferSize (c_iobs s f)"

lemma store_chunk_room:
  assumes inv: "inv s" and w: "writing (c_iobs s f)"
    and n: "n \<le> length str" "n \<le> iob_BufferSize (c_iobs s f) - iob_BufferWriteBytes (c_iobs s f)"
    and fl: "(if iob_write_buffer_is_full (c_iobs (store_bytes f (take n str) s) f)
      then flush_iob_write_buffer E f (store_bytes f (take n str) s)
      else (OK, store_bytes f (take n str) s)) = (r, t)"
    and r: "\<not> r < 0"
  shows "room t"
proof -
  let ?s1 = "store_bytes f (take n str) s"
  have rm: "iob_BufferWriteBytes (c_iobs s f) + length (take n str) \<le> iob_BufferSize (c_iobs s f)"
    using n w by (auto simp: writing_def iob_ok_def)
  note st = store_step [OF inv w rm]
  then have s1: "inv ?s1" "writing (c_iobs ?s1 f)" by auto
  show ?thesis
  proof (cases "iob_write_buffer_is_full (c_iobs ?s1 f)")
    case True
    with fl have "flush_iob_write_buffer E f ?s1 = (r, t)" by simp
    from flush_result [OF s1 this] r show ?thesis
      by (auto simp: writing_def iob_ok_def)
  next
    case False
    with fl s1(2) show ?thesis by (auto simp: iob_macros writing_def iob_ok_def)
  qed
qed

lemma fwrite_step_room:
  assumes inv: "inv s" and w: "writing (c_iobs s f)" and rm: "room s"
    and n: "0 < sz" "sz \<le> length mem" "sz < 2 ^ 31"
  shows "(\<exists>x. fwrite_full_step E f mem sz w0 s = Some (Inl x) \<and> progress s (take sz mem) w0 (Inl x)) \<or>
    (\<exists>k t. fwrite_full_step E f mem sz w0 s = Some (Inr (drop k mem, sz - k, w0 + k, t)) \<and>
      0 < k \<and> k < sz \<and> step s (take k mem) t \<and> room t)"
proof (cases "iob_BufferWriteBytes (c_iobs s f) = 0 \<and> sz \<ge> iob_BufferSize (c_iobs s f)")
  case True
  obtain k t where wr: "write_r E (iob_Descriptor (c_iobs s f)) (Some mem) sz s = (k, t)"
    by (meson surj_pair)
  have nl: "\<not> length mem < sz" using n(2) by simp
  have eq: "fwrite_full_step E f mem sz w0 s =
      (if k = - 1 then Some (Inl (loop_out, w0, set_iob_flag f IOBF_ERROR t))
       else Some (Inl (loop_end, w0 + nat k, t)))"
    by (simp only: fwrite_full_step_def Let_def if_P [OF True] if_not_P [OF nl] wr prod.case)
  have "k = - 1 \<and> step s [] (set_iob_flag f IOBF_ERROR t) \<or> k = int sz \<and> step s (take sz mem) t"
    by (rule write_call_step [OF inv w _ n wr]) (simp add: True)
  then show ?thesis
  proof (rule disjE)
    assume a: "k = - 1 \<and> step s [] (set_iob_flag f IOBF_ERROR t)"
    then have "fwrite_full_step E f mem sz w0 s = Some (Inl (loop_out, w0, set_iob_flag f IOBF_ERROR t))"
      unfolding eq by (simp only: if_P)
    with a n show ?thesis by (auto intro!: exI [of _ 0])
  next
    assume a: "k = int sz \<and> step s (take sz mem) t"
    with eq n show ?thesis by simp
  qed
next
  case nb: False
  let ?n = "min (iob_BufferSize (c_iobs s f) - iob_BufferWriteBytes (c_iobs s f)) sz"
  let ?s1 = "store_bytes f (take ?n mem) s"
  obtain r t where fl: "(if iob_write_buffer_is_full (c_iobs ?s1 f)
      then flush_iob_write_buffer E f ?s1 else (OK, ?s1)) = (r, t)"
    by (meson surj_pair)
  have m: "?n \<le> length mem" "?n \<le> iob_BufferSize (c_iobs s f) - iob_BufferWriteBytes (c_iobs s f)"
    using n by simp_all
  then have nm: "\<not> length mem < ?n" by linarith
  have k: "0 < ?n" using rm n(1) by simp
  from store_chunk [OF inv w m fl] have st: "step s (take ?n mem) t" by (rule conjunct1)
  note rt = store_chunk_room [OF inv w m fl]
  have eq: "fwrite_full_step E f mem sz w0 s =
      (if r < 0 then Some (Inl (loop_break, w0, t))
       else if sz - ?n = 0 then Some (Inl (loop_end, w0 + ?n, t))
       else if room t then Some (Inr (drop ?n mem, sz - ?n, w0 + ?n, t))
       else fwrite_full_put E f (drop ?n mem) (sz - ?n) (w0 + ?n) t)"
    by (simp only: fwrite_full_step_def if_P [OF rm] if_not_P [OF nb] if_not_P [OF nm] fl prod.case Let_def)
  have tk: "take ?n (take sz mem) = take ?n mem" by (simp add: min_def)
  show ?thesis
  proof (cases "r < 0")
    case True
    then have "fwrite_full_step E f mem sz w0 s = Some (Inl (loop_break, w0, t))" using eq by simp
    moreover have "progress s (take sz mem) w0 (Inl (loop_break, w0, t))"
      using st tk n by (auto intro!: exI [of _ ?n])
    ultimately show ?thesis by blast
  next
    case False
    show ?thesis
    proof (cases "?n < sz")
      case True
      with False eq rt k st show ?thesis by auto
    next
      case False
      then have "?n = sz" by simp
      with \<open>\<not> r < 0\<close> eq st n(2) show ?thesis by simp
    qed
  qed
qed

lemma fwrite_loop_room:
  assumes "inv s" "writing (c_iobs s f)" "room s" "sz \<le> length mem" "sz < 2 ^ 31"
  shows "\<exists>x. fwrite_full_loop E f mem sz w s = Some x \<and> progress s (take sz mem) w (Inl x)"
  using assms
proof (induction sz arbitrary: mem w s rule: less_induct)
  case (less sz)
  show ?case
  proof (cases "sz = 0")
    case True
    with less.prems show ?thesis by (subst fwrite_full_loop.simps) simp
  next
    case False
    then have pos: "0 < sz" by simp
    from fwrite_step_room [OF less.prems(1-3) pos less.prems(4,5), of w] show ?thesis
    proof (elim disjE exE conjE)
      fix x
      assume "fwrite_full_step E f mem sz w s = Some (Inl x)" and p: "progress s (take sz mem) w (Inl x)"
      with False have "fwrite_full_loop E f mem sz w s = Some x"
        by (subst fwrite_full_loop.simps) simp
      with p show ?thesis by blast
    next
      fix k t
      assume st1: "fwrite_full_step E f mem sz w s = Some (Inr (drop k mem, sz - k, w + k, t))"
        and k: "0 < k" "k < sz" and t: "inv t" "writing (c_iobs t f)" and rt: "room t"
        and sb: "same_buffering (c_iobs s f) (c_iobs t f)"
        and ct: "contents out f t = contents out f s @ take k mem"
      then have st: "step s (take k mem) t" by blast
      have "\<exists>x. fwrite_full_loop E f (drop k mem) (sz - k) (w + k) t = Some x \<and>
          progress t (take (sz - k) (drop k mem)) (w + k) (Inl x)"
        using k less.prems(4,5) t rt by (intro less.IH) simp_all
      then obtain e w' u where lp: "fwrite_full_loop E f (drop k mem) (sz - k) (w + k) t = Some (e, w', u)"
        and p: "progress t (take (sz - k) (drop k mem)) (w + k) (Inl (e, w', u))" by auto
      have lp': "fwrite_full_loop E f mem sz w s = Some (e, w', u)"
        using False st1 lp by (subst fwrite_full_loop.simps) simp
      have tk: "take k mem @ take (sz - k) (drop k mem) = take sz mem"
        using k by (simp add: take_add [symmetric])
      have lk: "length (take (sz - k) (drop k mem)) = sz - k"
        using k less.prems(4) by simp
      from p consider (fin) "e = loop_end" "step t (take (sz - k) (drop k mem)) u" "w' = w + sz"
        | (stop) j where "e \<noteq> loop_end" "j \<le> sz - k" "step t (take j (drop k mem)) u" "w' \<le> w + k + j" "w' < w + sz"
        using k less.prems(4) by (simp only: sum.case prod.case lk take_take) (auto simp: min_absorb1)
      then have "progress s (take sz mem) w (Inl (e, w', u))"
      proof cases
        case fin
        from step_trans [OF st fin(2)] have "step s (take sz mem) u" by (simp only: tk)
        with fin(1,3) less.prems(4) show ?thesis by simp
      next
        case stop
        from step_trans [OF st stop(3)] have "step s (take (k + j) mem) u" by (simp only: take_add)
        with stop k less.prems(4) show ?thesis by (auto simp: min_def intro!: exI [of _ "k + j"])
      qed
      with lp' show ?thesis by blast
    qed
  qed
qed

lemma fwrite_result:
  assumes inv: "inv s" and w: "writing (c_iobs s f)" and rm: "room s"
    and mode: "iob_mode (c_iobs s f) \<noteq> IOBF_BUFFER_MODE_NONE"
    and n: "0 < es" "0 < count" "es * count < 2 ^ 31" "es * count \<le> length mem"
  shows "\<exists>r u. fwrite E (Some mem) es count (Some f) s = Some (r, u) \<and>
    (r = count \<and> step s (take (es * count) mem) u \<or>
     r < count \<and> (\<exists>k \<le> es * count. r * es \<le> k \<and> step s (take k mem) u))"
proof -
  let ?l = "flockfile_r E (Some f) s" and ?sz = "es * count"
  have l: "inv ?l" "writing (c_iobs ?l f)" "same_buffering (c_iobs s f) (c_iobs ?l f)"
    using flock_step [OF inv w] by auto
  let ?m = "iob_mode (c_iobs ?l f)"
  have m: "?m = iob_mode (c_iobs s f)" using l(3) by (simp add: same_buffering_def)
  then have om: "output_mode E f ?l = Some (?m, ?l)"
    using mode by (simp add: output_mode_def Let_def)
  have "\<exists>e w' u. fwrite_body E mem ?sz f ?l = Some (if e = loop_out then None else Some w', u) \<and>
      progress ?l (take ?sz mem) 0 (Inl (e, w', u))"
  proof (cases "?m = IOBF_BUFFER_MODE_LINE")
    case True
    obtain e w' u where lp: "line_loop E f (take ?sz mem) 0 ?l = (e, w', u)" by (metis surj_pair)
    have "e \<noteq> loop_out"
      using line_loop_exit [of E f "take ?sz mem" 0 ?l] lp by simp
    then have "fwrite_body E mem ?sz f ?l = Some (if e = loop_out then None else Some w', u)"
      using om True lp n(4) by (simp add: fwrite_body_def)
    moreover have "progress ?l (take ?sz mem) 0 (Inl (e, w', u))"
      using line_loop_result [OF l(1,2), of "take ?sz mem" 0] by (simp only: lp)
    ultimately show ?thesis by (intro exI conjI)
  next
    case False
    have "room ?l" using rm by simp
    from fwrite_loop_room [OF l(1,2) this n(4) n(3), of 0] obtain e w' u
      where lp: "fwrite_full_loop E f mem ?sz 0 ?l = Some (e, w', u)"
        and p: "progress ?l (take ?sz mem) 0 (Inl (e, w', u))" by auto
    have "fwrite_body E mem ?sz f ?l = Some (if e = loop_out then None else Some w', u)"
      using om False mode m lp by (simp add: fwrite_body_def)
    with p show ?thesis by (intro exI conjI)
  qed
  then obtain e w' u where b: "fwrite_body E mem ?sz f ?l = Some (if e = loop_out then None else Some w', u)"
    and p: "progress ?l (take ?sz mem) 0 (Inl (e, w', u))" by blast
  have "?sz < 2 ^ 32" using n(3) by simp
  then have sz: "size_mult es count = ?sz" "?sz div count = es"
    using n(2) by (simp_all add: size_mult_id)
  let ?r = "if e = loop_out then 0 else w' div es"
  have eq: "fwrite E (Some mem) es count (Some f) s = Some (?r, funlockfile_r E (Some f) u)"
    using w n(1,2) sz b by (simp add: fwrite_def writing_def Let_def)
  have lift: "step s bs (funlockfile_r E (Some f) u)" if "step ?l bs u" for bs
    by (rule step_funlock, rule flock_step_trans [OF inv w that])
  have len: "length (take ?sz mem) = ?sz" using n(4) by simp
  from p consider (fin) "e = loop_end" "step ?l (take ?sz mem) u" "w' = ?sz"
    | (stop) k where "e \<noteq> loop_end" "k \<le> ?sz" "step ?l (take k mem) u" "w' \<le> k" "w' < ?sz"
    by (simp only: sum.case prod.case len take_take add_0) (auto simp: min_absorb1)
  then show ?thesis
  proof cases
    case fin
    with n(1) have "?r = count" by simp
    with lift [OF fin(2)] show ?thesis
      by (intro exI [of _ ?r] exI [of _ "funlockfile_r E (Some f) u"]) (simp add: eq)
  next
    case stop
    have "?r < count" using stop(5) n(1,2) by (simp add: less_mult_imp_div_less mult.commute)
    moreover have "?r * es \<le> k"
      using stop(4) by (simp add: le_trans [OF div_times_less_eq_dividend])
    ultimately have short: "?r < count \<and> (\<exists>k \<le> ?sz. ?r * es \<le> k \<and> step s (take k mem) (funlockfile_r E (Some f) u))"
      using lift [OF stop(3)] stop(2) by blast
    show ?thesis
      unfolding eq by (rule exI [of _ ?r], rule exI, rule conjI, rule refl, rule disjI2, rule short)
  qed
qed

end


section \<open>The string of \<^verbatim>\<open>sprintf\<close> is a sink\<close>

text \<open>
  A stream over \<^verbatim>\<open>__vsprintf_hook_entry\<close> whose position lies in the memory of the string;
  what it accepted is the string up to the position.
\<close>

definition sprintf_stream :: "nat \<Rightarrow> ('x, 'd) clib4 \<Rightarrow> bool" where
  "sprintf_stream f s \<longleftrightarrow> iob_Action (c_iobs s f) = vsprintf_hook \<and>
     iob_StringPosition (c_iobs s f) \<le> length (iob_String (c_iobs s f))"

definition sprintf_out :: "nat \<Rightarrow> ('x, 'd) clib4 \<Rightarrow> byte list" where
  "sprintf_out f s = take (iob_StringPosition (c_iobs s f)) (iob_String (c_iobs s f))"

lemma sink_part_fields:
  "sink_part i = sink_part j \<Longrightarrow> iob_Action i = iob_Action j \<and> iob_Descriptor i = iob_Descriptor j \<and>
    iob_String i = iob_String j \<and> iob_StringPosition i = iob_StringPosition j \<and>
    iob_StringLength i = iob_StringLength j \<and> iob_StringSize i = iob_StringSize j"
  by (cases i; cases j) (simp add: sink_part_def)

interpretation sprintf: write_sink E f "sprintf_stream f" "sprintf_out f"
  for E :: "('x, 'd) env" and f :: nat
proof
  fix s s' :: "('x, 'd) clib4" and m m' n
  assume s: "sprintf_stream f s" and m: "fam_Action m = file_action_write"
    and sz: "0 < fam_Size m" "fam_Size m \<le> length (fam_Data m)"
    and act: "iob_action E s f m = (n, m', s')"
  let ?i = "c_iobs s f"
  have eq: "n = int (fam_Size m)" "c_iobs s' f = ?i\<lparr>iob_String := mem_splice (iob_String ?i)
      (iob_StringPosition ?i) (take (fam_Size m) (fam_Data m)),
      iob_StringPosition := iob_StringPosition ?i + fam_Size m\<rparr>"
    using act s m by (auto simp: iob_action_def sprintf_stream_def vsprintf_hook_entry_def)
  have "take (iob_StringPosition ?i + fam_Size m)
      (mem_splice (iob_String ?i) (iob_StringPosition ?i) (take (fam_Size m) (fam_Data m))) =
      take (iob_StringPosition ?i) (iob_String ?i) @ take (fam_Size m) (fam_Data m)"
    using s sz by (simp add: mem_splice_def sprintf_stream_def)
  moreover have "iob_StringPosition ?i + fam_Size m \<le>
      length (mem_splice (iob_String ?i) (iob_StringPosition ?i) (take (fam_Size m) (fam_Data m)))"
    using s sz by (simp add: mem_splice_def sprintf_stream_def)
  ultimately show "sprintf_stream f s' \<and> buffer_part (c_iobs s' f) = buffer_part (c_iobs s f) \<and>
      sprintf_out f s' = (if n = EOF then sprintf_out f s
        else sprintf_out f s @ take (fam_Size m) (fam_Data m))"
    using s by (simp add: eq sprintf_stream_def sprintf_out_def buffer_part_def)
next
  fix s s' :: "('x, 'd) clib4"
  assume "sink_frame f s s'" and "sprintf_stream f s"
  then show "sprintf_stream f s' \<and> sprintf_out f s' = sprintf_out f s"
    using sink_part_fields [of "c_iobs s' f" "c_iobs s f"]
    by (auto simp: sink_frame_def sprintf_stream_def sprintf_out_def)
qed

end
