(* ===== verification/Fd_Hook.thy ===== *)
theory Fd_Hook
  imports Stream_Sink
begin

text \<open>
  \<^verbatim>\<open>__fd_hook_entry\<close> (\<^verbatim>\<open>src/library/stdio/fdhookentry.c\<close>), the action behind every
  descriptor of a file, over the dos.library calls it makes, with
  \<^verbatim>\<open>__grow_file_size\<close> (\<^verbatim>\<open>src/library/stdio/grow_file.c\<close>). Each case of its
  \<^verbatim>\<open>switch\<close> is one definition. The examine action, which only fills a dos.library structure,
  is outside the model (\<open>None\<close>), as is a walk of a cyclic alias list.

  The lemmas show that a descriptor of an ordinary file is a sink in the sense of
  theory \<open>Stream_Sink\<close> when dos.library stores what it is given, and what closing does to the
  aliases of a descriptor.
\<close>

section \<open>dos.library\<close>

datatype offset_mode = OFFSET_BEGINNING | OFFSET_CURRENT | OFFSET_END

text \<open>
  The calls of dos.library that the hook makes. File handles and locks are numbers, 0 is
  \<^verbatim>\<open>BZERO\<close>. \<^verbatim>\<open>Read\<close> returns its result and the bytes it stored. \<^verbatim>\<open>Examine\<close> is
  \<^verbatim>\<open>ExamineObjectTags(EX_FileHandleInput, ...)\<close> with the name and size of the file.
  \<open>dos_BytesPerBlock\<close> is the answer to \<^verbatim>\<open>ACTION_HANDLER_INFO\<close>, 0 when there is none, and
  \<open>dos_Cleanup\<close> is the call through \<^verbatim>\<open>fd->fd_Cleanup\<close>.
\<close>

record ('x, 'd) dos =
  dos_Read :: "nat \<Rightarrow> nat \<Rightarrow> 'd \<Rightarrow> int \<times> byte list \<times> 'd"
  dos_Write :: "nat \<Rightarrow> byte list \<Rightarrow> 'd \<Rightarrow> int \<times> 'd"
  dos_ChangeFilePosition :: "nat \<Rightarrow> int \<Rightarrow> offset_mode \<Rightarrow> 'd \<Rightarrow> int \<times> 'd"
  dos_GetFilePosition :: "nat \<Rightarrow> 'd \<Rightarrow> int \<times> 'd"
  dos_GetFileSize :: "nat \<Rightarrow> 'd \<Rightarrow> int \<times> 'd"
  dos_SetMode :: "nat \<Rightarrow> bool \<Rightarrow> 'd \<Rightarrow> bool \<times> 'd"
  dos_SetBlockingMode :: "nat \<Rightarrow> bool \<Rightarrow> 'd \<Rightarrow> int \<times> 'd"
  dos_Examine :: "nat \<Rightarrow> 'd \<Rightarrow> (string \<times> int) option \<times> 'd"
  dos_Close :: "nat \<Rightarrow> 'd \<Rightarrow> bool \<times> 'd"
  dos_ParentOfFH :: "nat \<Rightarrow> 'd \<Rightarrow> nat \<times> 'd"
  dos_UnLock :: "nat \<Rightarrow> 'd \<Rightarrow> 'd"
  dos_SetCurrentDir :: "nat \<Rightarrow> 'd \<Rightarrow> nat \<times> 'd"
  dos_LockShared :: "string \<Rightarrow> 'd \<Rightarrow> nat \<times> 'd"
  dos_ParentDir :: "nat \<Rightarrow> 'd \<Rightarrow> nat \<times> 'd"
  dos_SameLock :: "nat \<Rightarrow> nat \<Rightarrow> 'd \<Rightarrow> bool \<times> 'd"
  dos_same_name :: "string \<Rightarrow> string \<Rightarrow> bool"
  dos_Delete :: "string \<Rightarrow> 'd \<Rightarrow> bool \<times> 'd"
  dos_SetProtection :: "string \<Rightarrow> 'd \<Rightarrow> 'd"
  dos_SetIoErr :: "dos_error \<Rightarrow> 'd \<Rightarrow> 'd"
  dos_BytesPerBlock :: "nat \<Rightarrow> 'd \<Rightarrow> int \<times> 'd"
  dos_Cleanup :: "nat \<Rightarrow> nat \<Rightarrow> ('x, 'd) clib4 \<Rightarrow> ('x, 'd) clib4"
  dos_DeleteMutex :: "nat option \<Rightarrow> 'x \<Rightarrow> 'x"
  dos_cache_line_size :: nat

type_synonym ('x, 'd) hook_result = "int \<times> file_action_message \<times> ('x, 'd) clib4"

section \<open>Reading and writing\<close>

text \<open>
  \<^verbatim>\<open>Directory\<close> and path-only descriptors carry no data. The tests of \<^verbatim>\<open>FDF_PIPE\<close> after
  the first one are reached with the flag clear only.
\<close>

definition fd_has_data :: "fd \<Rightarrow> bool" where
  "fd_has_data d \<longleftrightarrow> \<not> FLAG_IS_SET (fd_Flags d) FDF_IS_DIRECTORY \<and> \<not> FLAG_IS_SET (fd_Flags d) FDF_PATH_ONLY"

text \<open>Whether the other end of a pipe, named by \<^verbatim>\<open>(int) (uintptr_t) fd_UserData\<close>, is still open.\<close>

definition other_side_open ::
  "('x, 'd) env \<Rightarrow> nat \<Rightarrow> ('x, 'd) clib4 \<Rightarrow> bool \<times> ('x, 'd) clib4" where
  "other_side_open E a s =
     (let other_side_fd = ssize (fd_UserData (c_fds s a)) in
      if other_side_fd > 0
      then (case get_file_descriptor E s other_side_fd of (r, s1) \<Rightarrow> (r \<noteq> None, s1))
      else (False, s))"

definition hook_read ::
  "('x, 'd) env \<Rightarrow> ('x, 'd) dos \<Rightarrow> ('x, 'd) clib4 \<Rightarrow> nat \<Rightarrow> file_action_message
   \<Rightarrow> ('x, 'd) hook_result" where
  "hook_read E D s a m =
     (let fl = fd_Flags (c_fds s a) in
      if fd_has_data (c_fds s a)
      then if FLAG_IS_SET fl FDF_STDIN_READ_MARK
        then (EOF, m\<lparr>fam_Error := EAGAIN\<rparr>,
              upd_fd a (\<lambda>d. d\<lparr>fd_Flags := CLEAR_FLAG (fd_Flags d) FDF_STDIN_READ_MARK\<rparr>) s)
        else (case dos_Read D (fd_File (c_fds s a)) (fam_Size m) (c_dos s) of
            (n, data, d) \<Rightarrow>
              (let s1 = s\<lparr>c_dos := d\<rparr>;
                   m1 = m\<lparr>fam_Data := mem_splice (fam_Data m) 0 data\<rparr>
               in if n = EOF
                  then if FLAG_IS_SET fl FDF_PIPE
                    then (case other_side_open E a s1 of
                        (True, s2) \<Rightarrow> (EOF, m1\<lparr>fam_Error := EAGAIN\<rparr>, s2)
                      | (False, s2) \<Rightarrow> (0, m1\<lparr>fam_Error := 0\<rparr>, s2))
                    else (EOF, m1\<lparr>fam_Error := translate_io_error_to_errno (env_IoErr E d)\<rparr>, s1)
                  else (let s2 = upd_fd a (\<lambda>f. f\<lparr>fd_Position := fd_Position f + n\<rparr>) s1;
                            s3 = (if FLAG_IS_SET fl FDF_STDIN_AS_SOCKET \<and> n > 0 \<and>
                                    (fam_Data m1 ! nat (n - 1) = 13 \<or> fam_Data m1 ! nat (n - 1) = 10)
                                  then upd_fd a (\<lambda>f. f\<lparr>fd_Flags :=
                                         SET_FLAG (fd_Flags f) FDF_STDIN_READ_MARK\<rparr>) s2
                                  else s2)
                        in (n, m1, s3))))
      else (EOF, m\<lparr>fam_Error := EBADF\<rparr>, s))"

text \<open>Seeking to the end before an append; the error to report, if any.\<close>

definition hook_append ::
  "('x, 'd) env \<Rightarrow> ('x, 'd) dos \<Rightarrow> ('x, 'd) clib4 \<Rightarrow> nat \<Rightarrow> int option \<times> ('x, 'd) clib4" where
  "hook_append E D s a =
     (case dos_ChangeFilePosition D (fd_File (c_fds s a)) 0 OFFSET_END (c_dos s) of
        (position, d1) \<Rightarrow>
          (let s1 = s\<lparr>c_dos := d1\<rparr> in
           if position \<noteq> CHANGE_FILE_ERROR
           then if FLAG_IS_SET (fd_Flags (c_fds s a)) FDF_CACHE_POSITION
             then (case dos_GetFilePosition D (fd_File (c_fds s a)) d1 of
                 (p, d2) \<Rightarrow>
                   (let s2 = upd_fd a (\<lambda>f. f\<lparr>fd_Position := p\<rparr>) (s1\<lparr>c_dos := d2\<rparr>) in
                    if p = GETPOSITION_ERROR
                    then (Some (translate_io_error_to_errno (env_IoErr E d2)), s2) else (None, s2)))
             else (None, s1)
           else (Some (translate_io_error_to_errno (env_IoErr E d1)), s1)))"

definition hook_write ::
  "('x, 'd) env \<Rightarrow> ('x, 'd) dos \<Rightarrow> ('x, 'd) clib4 \<Rightarrow> nat \<Rightarrow> file_action_message
   \<Rightarrow> ('x, 'd) hook_result" where
  "hook_write E D s a m =
     (let fl = fd_Flags (c_fds s a) in
      if fd_has_data (c_fds s a)
      then (case (if FLAG_IS_SET fl FDF_APPEND then hook_append E D s a else (None, s)) of
          (Some e, s1) \<Rightarrow> (EOF, m\<lparr>fam_Error := e\<rparr>, s1)
        | (None, s1) \<Rightarrow>
            (case dos_Write D (fd_File (c_fds s1 a)) (take (fam_Size m) (fam_Data m)) (c_dos s1) of
               (n, d) \<Rightarrow>
                 (let s2 = s1\<lparr>c_dos := d\<rparr> in
                  if n = EOF
                  then if FLAG_IS_SET fl FDF_PIPE
                    then (case other_side_open E a s2 of
                        (open_end, s3) \<Rightarrow> (EOF, m\<lparr>fam_Error := if open_end then EAGAIN else EPIPE\<rparr>, s3))
                    else (EOF, m\<lparr>fam_Error := translate_io_error_to_errno (env_IoErr E d)\<rparr>, s2)
                  else (n, m, upd_fd a (\<lambda>f. f\<lparr>fd_Position := fd_Position f + n\<rparr>) s2))))
      else (EOF, m\<lparr>fam_Error := EBADF\<rparr>, s))"

section \<open>Seeking\<close>

text \<open>
  The loop of \<^verbatim>\<open>__grow_file_size\<close>. The buffer size is the smaller of eight blocks and the
  number of bytes, so it is positive while bytes are left.
\<close>

function grow_loop ::
  "('x, 'd) dos \<Rightarrow> nat \<Rightarrow> nat \<Rightarrow> nat \<Rightarrow> nat \<Rightarrow> 'd \<Rightarrow> bool \<times> 'd" where
  "grow_loop D file buffer_size alignment_skip num_bytes d =
     (if num_bytes = 0 \<or> buffer_size = 0 then (True, d)
      else let size0 = min buffer_size num_bytes;
               size = (if alignment_skip > 0 \<and> size0 > alignment_skip then alignment_skip else size0)
           in case dos_Write D file (replicate size 0) d of
               (n, d1) \<Rightarrow>
                 if n \<noteq> int size then (False, d1)
                 else grow_loop D file buffer_size 0 (num_bytes - size) d1)"
  by pat_completeness auto
termination
  by (relation "measure (\<lambda>(D, file, b, k, n, d). n)") auto

declare grow_loop.simps [simp del]

text \<open>The parameter \<^verbatim>\<open>int num_bytes\<close> is 32 bits wide; the caller passes a 64-bit difference.\<close>

definition grow_file_size ::
  "('x, 'd) env \<Rightarrow> ('x, 'd) dos \<Rightarrow> ('x, 'd) clib4 \<Rightarrow> nat \<Rightarrow> int \<Rightarrow> int \<times> ('x, 'd) clib4" where
  "grow_file_size E D s a num =
     (let num_bytes = sint (word_of_int num :: ulong); file = fd_File (c_fds s a) in
      case (if file = 0 then (0, c_dos s) else dos_BytesPerBlock D file (c_dos s)) of
        (bpb, d0) \<Rightarrow>
          (let block_size = (if bpb < 512 then 512 else bpb);
               buffer_size = (if 8 * block_size > num_bytes then num_bytes else 8 * block_size)
           in case env_malloc E (nat ((buffer_size + (int (dos_cache_line_size D) - 1)) mod 2 ^ 32)) (c_exec s) of
               (None, x) \<Rightarrow> (ERROR, s\<lparr>c_exec := x, c_dos := dos_SetIoErr D ERROR_NO_FREE_STORE d0\<rparr>)
             | (Some buffer, x) \<Rightarrow>
                 (case dos_ChangeFilePosition D file 0 OFFSET_END d0 of
                    (seek_position, d1) \<Rightarrow>
                      if seek_position = CHANGE_FILE_ERROR
                      then (ERROR, s\<lparr>c_exec := env_free E buffer x, c_dos := d1\<rparr>)
                      else (case dos_GetFilePosition D file d1 of
                          (current_position, d2) \<Rightarrow>
                            (let skip = (if num_bytes > block_size \<and> current_position smod block_size \<noteq> 0
                                         then block_size - current_position smod block_size else 0)
                             in case grow_loop D file (nat buffer_size) (nat skip) (nat num_bytes) d2 of
                                 (fin, d3) \<Rightarrow> (if fin then OK else ERROR,
                                    s\<lparr>c_exec := env_free E buffer x, c_dos := d3\<rparr>))))))"

text \<open>
  The tail of the seek action after \<^verbatim>\<open>ChangeFilePosition\<close> failed: with UNIX path semantics a
  file that is too short is extended. The result is \<open>None\<close> for \<^verbatim>\<open>goto out\<close>.
\<close>

definition hook_seek_extend ::
  "('x, 'd) env \<Rightarrow> ('x, 'd) dos \<Rightarrow> ('x, 'd) clib4 \<Rightarrow> nat \<Rightarrow> int \<Rightarrow> int
   \<Rightarrow> bool \<times> int \<times> ('x, 'd) clib4" where
  "hook_seek_extend E D s a new_position err =
     (if c_unix_path_semantics s
      then (case dos_Examine D (fd_File (c_fds s a)) (c_dos s) of
          (exd, d1) \<Rightarrow>
            (let s1 = s\<lparr>c_dos := d1\<rparr> in
             case exd of
               None \<Rightarrow> (False, err, s1)
             | Some (_, file_size) \<Rightarrow>
                 if new_position \<le> file_size then (False, err, s1)
                 else if FLAG_IS_CLEAR (fd_Flags (c_fds s a)) FDF_WRITE then (False, EPERM, s1)
                 else (case grow_file_size E D s1 a (new_position - file_size) of
                     (r, s2) \<Rightarrow>
                       if r < 0 then (False, translate_io_error_to_errno (env_IoErr E (c_dos s2)), s2)
                       else (True, OK, s2))))
      else (False, err, s))"

definition hook_seek ::
  "('x, 'd) env \<Rightarrow> ('x, 'd) dos \<Rightarrow> ('x, 'd) clib4 \<Rightarrow> nat \<Rightarrow> file_action_message
   \<Rightarrow> ('x, 'd) hook_result" where
  "hook_seek E D s a m =
     (let file = fd_File (c_fds s a);
          m0 = m\<lparr>fam_Error := OK\<rparr>;
          new_mode = (if fam_Mode m = SEEK_CUR then OFFSET_CURRENT
                      else if fam_Mode m = SEEK_SET then OFFSET_BEGINNING else OFFSET_END)
      in if fd_has_data (c_fds s a)
         then (case (if FLAG_IS_SET (fd_Flags (c_fds s a)) FDF_CACHE_POSITION
                     then (Some (fd_Position (c_fds s a)), c_dos s)
                     else case dos_GetFilePosition D file (c_dos s) of
                         (p, d1) \<Rightarrow>
                           (if p = GETPOSITION_ERROR \<or> env_IoErr E d1 \<noteq> dos_ok then None else Some p, d1)) of
             (None, d1) \<Rightarrow> (EOF, m0\<lparr>fam_Error := EBADF\<rparr>, s\<lparr>c_dos := d1\<rparr>)
           | (Some current_position, d1) \<Rightarrow>
               (case (case new_mode of
                    OFFSET_CURRENT \<Rightarrow> (current_position + fam_Offset m, d1)
                  | OFFSET_BEGINNING \<Rightarrow> (fam_Offset m, d1)
                  | OFFSET_END \<Rightarrow>
                      (case dos_GetFileSize D file d1 of
                         (file_size, d2) \<Rightarrow>
                           (if file_size \<noteq> GETPOSITION_ERROR then file_size + fam_Offset m
                            else current_position, d2))) of
                  (new_position, d2) \<Rightarrow>
                    (let s2 = s\<lparr>c_dos := d2\<rparr> in
                     if new_position < 0
                     then (case dos_ChangeFilePosition D file 0 OFFSET_BEGINNING d2 of
                         (_, d3) \<Rightarrow> (0, m0, upd_fd a (\<lambda>f. f\<lparr>fd_Position := 0\<rparr>) (s2\<lparr>c_dos := d3\<rparr>)))
                     else if new_position \<noteq> current_position
                     then (case dos_ChangeFilePosition D file (fam_Offset m) new_mode d2 of
                         (position, d3) \<Rightarrow>
                           if position = CHANGE_FILE_ERROR
                           then (case hook_seek_extend E D (s2\<lparr>c_dos := d3\<rparr>) a new_position
                                        (translate_io_error_to_errno (env_IoErr E d3)) of
                               (False, e, s3) \<Rightarrow> (EOF, m0\<lparr>fam_Error := e\<rparr>, s3)
                             | (True, e, s3) \<Rightarrow>
                                 (new_position, m0\<lparr>fam_Error := e\<rparr>,
                                  upd_fd a (\<lambda>f. f\<lparr>fd_Position := new_position\<rparr>) s3))
                           else (case dos_GetFilePosition D file d3 of
                               (p, d4) \<Rightarrow>
                                 (p, (if p = GETPOSITION_ERROR
                                      then m0\<lparr>fam_Error := translate_io_error_to_errno (env_IoErr E d4)\<rparr>
                                      else m0),
                                  upd_fd a (\<lambda>f. f\<lparr>fd_Position := p\<rparr>) (s2\<lparr>c_dos := d4\<rparr>))))
                     else (new_position, m0, s2))))
         else (EOF, m\<lparr>fam_Error := EBADF\<rparr>, s))"

section \<open>Blocking mode\<close>

definition hook_set_blocking ::
  "('x, 'd) env \<Rightarrow> ('x, 'd) dos \<Rightarrow> ('x, 'd) clib4 \<Rightarrow> nat \<Rightarrow> file_action_message
   \<Rightarrow> ('x, 'd) hook_result" where
  "hook_set_blocking E D s a m =
     (let fl = fd_Flags (c_fds s a); file = fd_File (c_fds s a) in
      if fd_has_data (c_fds s a) \<and>
        (FLAG_IS_SET fl FDF_IS_INTERACTIVE \<or> FLAG_IS_SET fl FDF_PIPE)
      then if FLAG_IS_SET fl FDF_PIPE
        then (case dos_SetBlockingMode D file (fam_Arg m \<noteq> 0) (c_dos s) of
            (r, d) \<Rightarrow>
              if r = 0 \<or> r = - 1
              then (EOF, m\<lparr>fam_Error := translate_io_error_to_errno (env_IoErr E d)\<rparr>, s\<lparr>c_dos := d\<rparr>)
              else (OK, m, s\<lparr>c_dos := d\<rparr>))
        else (case dos_SetMode D file (fam_Arg m = 0) (c_dos s) of
            (fin, d) \<Rightarrow>
              if \<not> fin
              then (EOF, m\<lparr>fam_Error := translate_io_error_to_errno (env_IoErr E d)\<rparr>, s\<lparr>c_dos := d\<rparr>)
              else (OK, m, s\<lparr>c_dos := d\<rparr>))
      else (EOF, m\<lparr>fam_Error := EBADF\<rparr>, s))"

section \<open>Closing\<close>

definition fd_is_aliased :: "fd \<Rightarrow> bool" where
  "fd_is_aliased d \<longleftrightarrow> fd_Original d \<noteq> None \<or> fd_NextAlias d \<noteq> None"

text \<open>
  Whether a file to be unlinked is the one that was just closed: its name matches and so does the
  directory it is in.
\<close>

definition unlink_matches ::
  "('x, 'd) dos \<Rightarrow> string \<Rightarrow> nat \<Rightarrow> unlink_node \<Rightarrow> 'd \<Rightarrow> bool \<times> 'd" where
  "unlink_matches D name parent_dir uln d =
     (if dos_same_name D (uln_Name uln) name
      then (case dos_SetCurrentDir D (uln_Lock uln) d of
          (old_dir, d1) \<Rightarrow>
            (case dos_LockShared D (uln_Name uln) d1 of
               (node_lock, d2) \<Rightarrow>
                 (case (if node_lock \<noteq> 0
                        then case dos_ParentDir D node_lock d2 of
                            (p, d3) \<Rightarrow> (p, dos_UnLock D node_lock d3)
                        else (0, d2)) of
                    (path_lock, d4) \<Rightarrow>
                      (case dos_SetCurrentDir D old_dir d4 of
                         (_, d5) \<Rightarrow>
                           if path_lock \<noteq> 0
                           then (case dos_SameLock D path_lock parent_dir d5 of
                               (same, d6) \<Rightarrow> (same, dos_UnLock D path_lock d6))
                           else (False, d5)))))
      else (False, d))"

text \<open>The scan of \<^verbatim>\<open>__unlink_list\<close>: whether the file was deleted, and the nodes that stay.\<close>

fun unlink_scan ::
  "('x, 'd) env \<Rightarrow> ('x, 'd) dos \<Rightarrow> string \<Rightarrow> nat \<Rightarrow> unlink_node list \<Rightarrow> bool \<Rightarrow> 'd \<Rightarrow> 'x
   \<Rightarrow> bool \<times> unlink_node list \<times> 'd \<times> 'x" where
  "unlink_scan E D name parent_dir [] file_deleted d x = (file_deleted, [], d, x)"
| "unlink_scan E D name parent_dir (uln # ulns) file_deleted d x =
     (case unlink_matches D name parent_dir uln d of
        (False, d1) \<Rightarrow>
          (case unlink_scan E D name parent_dir ulns file_deleted d1 x of
             (del, keep, d', x') \<Rightarrow> (del, uln # keep, d', x'))
      | (True, d1) \<Rightarrow>
          (case (if \<not> file_deleted
                 then case dos_SetCurrentDir D parent_dir d1 of
                     (old_dir, d2) \<Rightarrow>
                       (case dos_Delete D name d2 of
                          (fin, d3) \<Rightarrow> (case dos_SetCurrentDir D old_dir d3 of (_, d4) \<Rightarrow> (fin, d4)))
                 else (True, d1)) of
             (deleted, d5) \<Rightarrow>
               if deleted
               then unlink_scan E D name parent_dir ulns True d5 (env_free E (uln_address uln) x)
               else (case unlink_scan E D name parent_dir ulns False d5 x of
                   (del, keep, d', x') \<Rightarrow> (del, uln # keep, d', x'))))"

text \<open>
  Closing the file itself, after the alias and \<^verbatim>\<open>FDF_STDIO\<close> tests: the new result, or
  \<open>None\<close> for \<^verbatim>\<open>goto out\<close> when the parent directory is not found.
  \<^verbatim>\<open>USE_TEMPFILES\<close> is not defined.
\<close>

definition hook_close_file ::
  "('x, 'd) env \<Rightarrow> ('x, 'd) dos \<Rightarrow> ('x, 'd) clib4 \<Rightarrow> nat \<Rightarrow> file_action_message
   \<Rightarrow> int option \<times> file_action_message \<times> ('x, 'd) clib4" where
  "hook_close_file E D s0 a m =
     (let s = (case fd_Cleanup (c_fds s0 a) of None \<Rightarrow> s0 | Some code \<Rightarrow> dos_Cleanup D code a s0);
          fl = fd_Flags (c_fds s a); file = fd_File (c_fds s a) in
      case (if FLAG_IS_CLEAR fl FDF_PIPE then dos_ParentOfFH D file (c_dos s) else (0, c_dos s)) of
        (parent_dir, d1) \<Rightarrow>
          if FLAG_IS_CLEAR fl FDF_PIPE \<and> parent_dir = 0
          then (None, m, set_errno (translate_io_error_to_errno (env_IoErr E d1)) (s\<lparr>c_dos := d1\<rparr>))
          else (case dos_Examine D file d1 of
              (fib, d2) \<Rightarrow>
                (case (if FLAG_IS_CLEAR fl FDF_NO_CLOSE_BPTR then dos_Close D file d2 else (True, d2)) of
                   (closed, d3) \<Rightarrow>
                     (let m1 = (if closed then m
                                else m\<lparr>fam_Error := translate_io_error_to_errno (env_IoErr E d3)\<rparr>);
                          result = (if closed then OK else EOF);
                          s1 = upd_fd a (\<lambda>f. f\<lparr>fd_File := 0\<rparr>) (s\<lparr>c_dos := d3\<rparr>)
                      in case (if c_unix_path_semantics s1
                               then case fib of
                                   Some (name, _) \<Rightarrow>
                                     (case unlink_scan E D name parent_dir (c_unlink_list s1) False d3 (c_exec s1) of
                                        (del, keep, d4, x) \<Rightarrow>
                                          (\<not> del, s1\<lparr>c_unlink_list := keep, c_dos := d4, c_exec := x\<rparr>))
                                 | None \<Rightarrow> (False, s1)
                               else (fib \<noteq> None, s1)) of
                          (name_and_path_valid, s2) \<Rightarrow>
                            (let s3 = (if result = OK \<and> FLAG_IS_CLEAR fl FDF_STDIO
                                       then upd_fd a (\<lambda>f. f\<lparr>fd_Flags := CLEAR_FLAG (fd_Flags f) FDF_IN_USE\<rparr>) s2
                                       else s2);
                                 d5 = (if FLAG_IS_SET fl FDF_CREATED \<and> name_and_path_valid \<and> FLAG_IS_CLEAR fl FDF_PIPE
                                       then case fib of
                                           Some (name, _) \<Rightarrow>
                                             (case dos_SetCurrentDir D parent_dir (c_dos s3) of
                                                (old_dir, d') \<Rightarrow>
                                                  snd (dos_SetCurrentDir D old_dir (dos_SetProtection D name d')))
                                         | None \<Rightarrow> c_dos s3
                                       else c_dos s3);
                                 d6 = (if parent_dir \<noteq> 0 then dos_UnLock D parent_dir d5 else d5)
                             in (Some result, m1, s3\<lparr>c_dos := d6\<rparr>))))))"

definition hook_close ::
  "('x, 'd) env \<Rightarrow> ('x, 'd) dos \<Rightarrow> ('x, 'd) clib4 \<Rightarrow> nat \<Rightarrow> file_action_message
   \<Rightarrow> ('x, 'd) hook_result option" where
  "hook_close E D s a m =
     (let fl = fd_Flags (c_fds s a);
          finish = (\<lambda>is_aliased (result, m1, t).
            (let t1 = fd_unlock E a t;
                 t2 = (if is_aliased then t1
                       else (let t' = (case fd_Aux (c_fds t1 a) of
                                 Some aux \<Rightarrow>
                                   (if FLAG_IS_SET (fd_Flags (c_fds t1 a)) FDF_TERMIOS
                                    then t1\<lparr>c_exec := env_free E aux (c_exec t1)\<rparr> else t1)
                               | None \<Rightarrow> t1)
                             in t'\<lparr>c_exec := dos_DeleteMutex D (fd_Lock (c_fds t' a)) (c_exec t')\<rparr>))
             in (result, m1, stdio_unlock E (upd_fd a (\<lambda>_. zero_fd) t2))))
      in if fd_has_data (c_fds s a)
         then if fd_is_aliased (c_fds s a)
           then map_option (\<lambda>t. finish True (OK, m, t)) (remove_fd_alias E a s)
           else if FLAG_IS_CLEAR fl FDF_STDIO
           then (let canonical = FLAG_IS_SET fl FDF_NON_BLOCKING \<and> FLAG_IS_SET fl FDF_IS_INTERACTIVE \<and>
                       fam_DOSMode m = - 1;
                     s1 = (if canonical \<and> fd_File (c_fds s a) \<noteq> 0
                           then s\<lparr>c_dos := snd (dos_SetMode D (fd_File (c_fds s a)) False (c_dos s))\<rparr> else s);
                     m1 = (if canonical then m\<lparr>fam_DOSMode := 0\<rparr> else m)
                 in if FLAG_IS_CLEAR fl FDF_NO_CLOSE \<or> FLAG_IS_SET fl FDF_PIPE
                    then (case hook_close_file E D s1 a m1 of
                        (None, m2, s2) \<Rightarrow> Some (OK, m2, stdio_unlock E (fd_unlock E a s2))
                      | (Some r, m2, s2) \<Rightarrow> Some (finish False (r, m2, s2)))
                    else Some (finish False (OK, m1, s1)))
           else Some (finish False (OK, m,
                  if FLAG_IS_SET fl FDF_STDIN_AS_SOCKET
                  then upd_fd a (\<lambda>f. f\<lparr>fd_Flags := CLEAR_FLAG (fd_Flags f) FDF_STDIN_AS_SOCKET\<rparr>) s else s))
         else Some (finish False (OK, m,
                if fd_File (c_fds s a) \<noteq> 0
                then upd_fd a (\<lambda>f. f\<lparr>fd_File := 0\<rparr>)
                       (s\<lparr>c_dos := dos_UnLock D (fd_File (c_fds s a)) (c_dos s)\<rparr>)
                else s)))"

section \<open>The hook\<close>

text \<open>
  \<^verbatim>\<open>__fd_hook_entry\<close>. \<open>None\<close> is the examine action, which is not modelled, and the removal
  of an alias from a cyclic list, which does not end.
\<close>

definition fd_hook_entry ::
  "('x, 'd) env \<Rightarrow> ('x, 'd) dos \<Rightarrow> ('x, 'd) clib4 \<Rightarrow> nat \<Rightarrow> file_action_message
   \<Rightarrow> ('x, 'd) hook_result option" where
  "fd_hook_entry E D s a m =
     (let s1 = (if fam_Action m = file_action_close then stdio_lock E s else s);
          s2 = fd_lock E a s1;
          out = (\<lambda>(r, m', t). (let t1 = fd_unlock E a t in
             (r, m', if fam_Action m = file_action_close then stdio_unlock E t1 else t1)))
      in if fd_File (c_fds s2 a) = 0 then Some (out (EOF, m\<lparr>fam_Error := EBADF\<rparr>, s2))
         else case fam_Action m of
             file_action_read \<Rightarrow> Some (out (hook_read E D s2 a m))
           | file_action_write \<Rightarrow> Some (out (hook_write E D s2 a m))
           | file_action_seek \<Rightarrow> Some (out (hook_seek E D s2 a m))
           | file_action_set_blocking \<Rightarrow> Some (out (hook_set_blocking E D s2 a m))
           | file_action_close \<Rightarrow> hook_close E D s2 a m
           | file_action_examine \<Rightarrow> None
           | file_action_set_async \<Rightarrow> Some (out (EOF, m\<lparr>fam_Error := EBADF\<rparr>, s2)))"

text \<open>
  An environment whose descriptors all use this hook: the calls that the hook does not answer
  behave like a descriptor that is not open.
\<close>

definition hook_env :: "('x, 'd) env \<Rightarrow> ('x, 'd) dos \<Rightarrow> ('x, 'd) env" where
  "hook_env E D = E\<lparr>env_fd_Action := (\<lambda>s a m. case fd_hook_entry E D s a m of
     Some r \<Rightarrow> r | None \<Rightarrow> (EOF, m\<lparr>fam_Error := EBADF\<rparr>, s))\<rparr>"

section \<open>Files are sinks\<close>

text \<open>
  What \<^verbatim>\<open>Write()\<close> is documented to do for a file: it reports an error and stores nothing, or
  it stores all the bytes. \<open>data d h\<close> is what file handle \<open>h\<close> has received.
\<close>

definition writes_all :: "('x, 'd) dos \<Rightarrow> ('d \<Rightarrow> nat \<Rightarrow> byte list) \<Rightarrow> bool" where
  "writes_all D data \<longleftrightarrow> (\<forall>h bs d. case dos_Write D h bs d of (n, d') \<Rightarrow>
     n = - 1 \<and> data d' = data d \<or>
     n = int (length bs) \<and> data d' = (data d)(h := data d h @ bs))"

lemma writes_allD:
  assumes "writes_all D data" and "dos_Write D h bs d = (n, d')"
  shows "n = - 1 \<and> data d' = data d \<or> n = int (length bs) \<and> data d' = (data d)(h := data d h @ bs)"
  using spec [OF spec [OF spec [OF assms(1) [unfolded writes_all_def], of h], of bs], of d] assms(2)
  by simp

text \<open>Descriptor \<open>a\<close> is an ordinary file on handle \<open>h\<close>, open for writing and not in append mode.\<close>

definition plain_file :: "fd \<Rightarrow> nat \<Rightarrow> bool" where
  "plain_file d h \<longleftrightarrow> fd_has_data d \<and> fd_File d = h \<and> h \<noteq> 0 \<and>
     \<not> FLAG_IS_CLEAR (fd_Flags d) FDF_IN_USE \<and> \<not> FLAG_IS_CLEAR (fd_Flags d) FDF_WRITE \<and>
     \<not> FLAG_IS_SET (fd_Flags d) FDF_APPEND \<and> \<not> FLAG_IS_SET (fd_Flags d) FDF_IS_SOCKET"

text \<open>Stream \<open>f\<close> is a stream of that file.\<close>

definition file_stream :: "nat \<Rightarrow> nat \<Rightarrow> nat \<Rightarrow> ('x, 'd) clib4 \<Rightarrow> bool" where
  "file_stream f a h s \<longleftrightarrow> iob_Action (c_iobs s f) = iob_hook \<and>
     resolved_fd s (iob_Descriptor (c_iobs s f)) = Some a \<and> plain_file (c_fds s a) h"

lemma hook_env_sel [simp]:
  "env_fd_Action (hook_env E D) s a m = (case fd_hook_entry E D s a m of
     Some r \<Rightarrow> r | None \<Rightarrow> (EOF, m\<lparr>fam_Error := EBADF\<rparr>, s))"
  "stdio_lock (hook_env E D) = stdio_lock E" "stdio_unlock (hook_env E D) = stdio_unlock E"
  "fd_lock (hook_env E D) = fd_lock E" "fd_unlock (hook_env E D) = fd_unlock E"
  "env_IoErr (hook_env E D) = env_IoErr E" "new_fam (hook_env E D) = new_fam E"
  by (simp_all add: hook_env_def fun_eq_iff stdio_lock_def stdio_unlock_def SemaphoreIsMine_def
      fd_lock_def fd_unlock_def new_fam_def split: option.split)

lemma resolved_fd_fds:
  assumes "\<forall>b. fd_Flags (h b) = fd_Flags (c_fds s b) \<and> fd_Original (h b) = fd_Original (c_fds s b)"
  shows "resolved_fd (s\<lparr>c_fds := h\<rparr>) k = resolved_fd s k"
  using assms by (auto simp: resolved_fd_def fd_slot_def split: option.split)

lemma resolved_fd_unlocked [simp]:
  "resolved_fd (fd_lock E a s) k = resolved_fd s k" "resolved_fd (fd_unlock E a s) k = resolved_fd s k"
  by (simp_all add: resolved_fd_def fd_slot_def split: option.split)

text \<open>One write action on a plain file.\<close>

lemma hook_write_plain:
  assumes w: "writes_all D data" and p: "plain_file (c_fds s a) h"
    and r: "hook_write E D s a m = (n, m', s')"
  shows "c_iobs s' = c_iobs s \<and> c_fd s' = c_fd s \<and>
    (\<forall>b. fd_Flags (c_fds s' b) = fd_Flags (c_fds s b) \<and> fd_Original (c_fds s' b) = fd_Original (c_fds s b)) \<and>
    plain_file (c_fds s' a) h \<and> c_self s' = c_self s \<and>
    (n = EOF \<and> data (c_dos s') = data (c_dos s) \<or>
     n = int (length (take (fam_Size m) (fam_Data m))) \<and>
     data (c_dos s') = (data (c_dos s))(h := data (c_dos s) h @ take (fam_Size m) (fam_Data m)))"
proof -
  obtain k d where wr: "dos_Write D h (take (fam_Size m) (fam_Data m)) (c_dos s) = (k, d)"
    by (meson surj_pair)
  from writes_allD [OF w wr] p r wr show ?thesis
    by (auto simp: hook_write_def other_side_open_def Let_def plain_file_def fd_has_data_def
        split: if_splits)
qed

lemma plain_hook_write:
  assumes w: "writes_all D data" and p: "plain_file (c_fds s a) h" and m: "fam_Action m = file_action_write"
    and r: "env_fd_Action (hook_env E D) s a m = (n, m', s')"
  shows "c_iobs s' = c_iobs s \<and> c_fd s' = c_fd s \<and>
    (\<forall>b. fd_Flags (c_fds s' b) = fd_Flags (c_fds s b) \<and> fd_Original (c_fds s' b) = fd_Original (c_fds s b)) \<and>
    plain_file (c_fds s' a) h \<and> c_self s' = c_self s \<and>
    (n = EOF \<and> data (c_dos s') = data (c_dos s) \<or>
     n = int (length (take (fam_Size m) (fam_Data m))) \<and>
     data (c_dos s') = (data (c_dos s))(h := data (c_dos s) h @ take (fam_Size m) (fam_Data m)))"
proof -
  let ?s = "fd_lock E a s"
  obtain n' m1 t where hw: "hook_write E D ?s a m = (n', m1, t)" by (metis surj_pair)
  have eq: "n = n'" "s' = fd_unlock E a t"
    using r m p hw by (simp_all add: fd_hook_entry_def Let_def plain_file_def)
  from hook_write_plain [OF w _ hw] p show ?thesis
    unfolding eq by simp
qed

lemma resolved_fd_cong2:
  assumes "c_fd s' = c_fd s"
    and "\<forall>b. fd_Flags (c_fds s' b) = fd_Flags (c_fds s b) \<and> fd_Original (c_fds s' b) = fd_Original (c_fds s b)"
  shows "resolved_fd s' k = resolved_fd s k"
  using assms by (auto simp: resolved_fd_def fd_slot_def split: option.split)

lemma file_stream_slot: "file_stream f a h s \<Longrightarrow> fd_slot s (iob_Descriptor (c_iobs s f)) \<noteq> None"
  by (auto simp: file_stream_def resolved_fd_def split: option.splits)

lemma file_is_sink:
  assumes w: "writes_all D data"
  shows "file_sink (hook_env E D) f (file_stream f a h) (\<lambda>s. data (c_dos s) h)"
proof
  fix s s' :: "('a, 'b) clib4" and m m' n
  assume s: "file_stream f a h s" and m: "fam_Action m = file_action_write"
    and sz: "0 < fam_Size m" "fam_Size m \<le> length (fam_Data m)"
    and act: "iob_action (hook_env E D) s f m = (n, m', s')"
  let ?d = "iob_Descriptor (c_iobs s f)" and ?t = "stdio_unlock E (stdio_lock E s)"
  have "env_fd_Action (hook_env E D) ?t a m = (n, m', s')"
    using act s m file_stream_slot [OF s]
    by (simp add: iob_action_def file_stream_def iob_hook_entry_def Let_def del: hook_env_sel(1)
        split: if_splits)
  moreover have "plain_file (c_fds ?t a) h" using s by (simp add: file_stream_def)
  ultimately have *: "c_iobs s' = c_iobs s" "c_fd s' = c_fd s"
    "\<forall>b. fd_Flags (c_fds s' b) = fd_Flags (c_fds s b) \<and> fd_Original (c_fds s' b) = fd_Original (c_fds s b)"
    "plain_file (c_fds s' a) h"
    "n = EOF \<and> data (c_dos s') = data (c_dos s) \<or>
     n = int (length (take (fam_Size m) (fam_Data m))) \<and>
     data (c_dos s') = (data (c_dos s))(h := data (c_dos s) h @ take (fam_Size m) (fam_Data m))"
    using plain_hook_write [OF w _ m, of ?t a h E n m' s'] by auto
  show "file_stream f a h s' \<and> buffer_part (c_iobs s' f) = buffer_part (c_iobs s f) \<and>
      data (c_dos s') h = (if n = EOF then data (c_dos s) h
        else data (c_dos s) h @ take (fam_Size m) (fam_Data m))"
    using * s sz resolved_fd_cong2 [OF *(2,3)] by (auto simp: file_stream_def)
next
  fix s s' :: "('a, 'b) clib4"
  assume fr: "sink_frame f s s'" and s: "file_stream f a h s"
  from fr have "iob_Action (c_iobs s' f) = iob_Action (c_iobs s f)"
    "iob_Descriptor (c_iobs s' f) = iob_Descriptor (c_iobs s f)"
    using sink_part_fields [of "c_iobs s' f" "c_iobs s f"] by (auto simp: sink_frame_def)
  moreover from fr have "resolved_fd s' k = resolved_fd s k" for k
    by (intro resolved_fd_cong2) (simp_all add: sink_frame_def)
  ultimately show "file_stream f a h s' \<and> data (c_dos s') h = data (c_dos s) h"
    using fr s by (simp add: file_stream_def sink_frame_def)
next
  fix s s' :: "('a, 'b) clib4" and n bs k
  assume s: "file_stream f a h s" and n: "0 < n" "n \<le> length bs" "n < 2 ^ 31"
    and wr: "write_r (hook_env E D) (iob_Descriptor (c_iobs s f)) (Some bs) n s = (k, s')"
  let ?m = "(new_fam E file_action_write)\<lparr>fam_Data := bs, fam_Size := n\<rparr>"
  let ?t = "fd_unlock E a (fd_lock E a (stdio_lock E (stdio_unlock E (stdio_lock E s))))"
  have p: "plain_file (c_fds ?t a) h" using s by (simp add: file_stream_def)
  obtain n' m' t where act: "env_fd_Action (hook_env E D) ?t a ?m = (n', m', t)" by (metis surj_pair)
  have eq: "k = n'" "c_iobs s' = c_iobs t" "c_fd s' = c_fd t" "c_fds s' = c_fds t" "c_dos s' = c_dos t"
    using wr s act p n
    by (auto simp: write_r_def file_stream_def Let_def plain_file_def ssize_id simp del: hook_env_sel(1)
        split: if_splits)
  from plain_hook_write [OF w p _ act] have *: "c_iobs t = c_iobs s" "c_fd t = c_fd s"
    "\<forall>b. fd_Flags (c_fds t b) = fd_Flags (c_fds s b) \<and> fd_Original (c_fds t b) = fd_Original (c_fds s b)"
    "plain_file (c_fds t a) h"
    "n' = EOF \<and> data (c_dos t) = data (c_dos s) \<or>
     n' = int (length (take n bs)) \<and> data (c_dos t) = (data (c_dos s))(h := data (c_dos s) h @ take n bs)"
    by auto
  show "file_stream f a h s' \<and> buffer_part (c_iobs s' f) = buffer_part (c_iobs s f) \<and>
      (k = - 1 \<and> data (c_dos s') h = data (c_dos s) h \<or>
       k = int n \<and> data (c_dos s') h = data (c_dos s) h @ take n bs)"
    using * eq s n(2) resolved_fd_cong2 [of s' s] by (auto simp: file_stream_def)
qed (rule file_stream_slot)

section \<open>The contract of dos.library for writing\<close>

locale dos_files =
  fixes D :: "('x, 'd) dos" and data :: "'d \<Rightarrow> nat \<Rightarrow> byte list"
  assumes stores: "writes_all D data"

sublocale dos_files < stream: file_sink "hook_env E D" f "file_stream f a h" "\<lambda>s. data (c_dos s) h"
  for E :: "('x, 'd) env" and f a h :: nat
  by (rule file_is_sink [OF stores])

text \<open>
  A dos.library over memory: for every handle the bytes that it received and the bytes that it
  will still deliver. Locks, names and modes play no part.
\<close>

type_synonym ram = "(nat \<Rightarrow> byte list) \<times> (nat \<Rightarrow> byte list)"

definition ram_dos :: "('x, ram) dos" where
  "ram_dos =
     \<lparr>dos_Read = \<lambda>h n d. (int (length (take n (snd d h))), take n (snd d h),
        (fst d, (snd d)(h := drop n (snd d h)))),
      dos_Write = \<lambda>h bs d. (int (length bs), ((fst d)(h := fst d h @ bs), snd d)),
      dos_ChangeFilePosition = \<lambda>_ _ _ d. (1, d), dos_GetFilePosition = \<lambda>h d. (int (length (fst d h)), d),
      dos_GetFileSize = \<lambda>h d. (int (length (fst d h)), d), dos_SetMode = \<lambda>_ _ d. (True, d),
      dos_SetBlockingMode = \<lambda>_ _ d. (1, d), dos_Examine = \<lambda>_ d. (None, d),
      dos_Close = \<lambda>_ d. (True, d), dos_ParentOfFH = \<lambda>_ d. (0, d), dos_UnLock = \<lambda>_ d. d,
      dos_SetCurrentDir = \<lambda>_ d. (0, d), dos_LockShared = \<lambda>_ d. (0, d), dos_ParentDir = \<lambda>_ d. (0, d),
      dos_SameLock = \<lambda>_ _ d. (False, d), dos_same_name = (=), dos_Delete = \<lambda>_ d. (True, d),
      dos_SetProtection = \<lambda>_ d. d, dos_SetIoErr = \<lambda>_ d. d, dos_BytesPerBlock = \<lambda>_ d. (512, d),
      dos_Cleanup = \<lambda>_ _ s. s, dos_DeleteMutex = \<lambda>_ x. x, dos_cache_line_size = 32\<rparr>"

interpretation ram: dos_files "ram_dos :: ('x, ram) dos" fst
  by unfold_locales (simp add: writes_all_def ram_dos_def)

abbreviation (input) ram_demo :: "(nat list, ram) clib4" where
  "ram_demo \<equiv> demo_state (\<lambda>_. [], \<lambda>_. [])"

abbreviation (input) ram_env :: "(nat list, ram) env" where
  "ram_env \<equiv> hook_env (demo_env (\<lambda>s a m. (EOF, m, s))) ram_dos"

lemma ram_demo_stream:
  "writes_all ram_dos fst" "file_stream 5 1 7 ram_demo" "writing (c_iobs ram_demo 5)"
  "iob_mode (c_iobs ram_demo 5) = IOBF_BUFFER_MODE_FULL"
  "iob_BufferWriteBytes (c_iobs ram_demo 5) = 0"
  "iob_BufferSize (c_iobs ram_demo 5) = 4"
  using ram.stores
  by (simp_all add: file_stream_def demo_state_def demo_iob_def resolved_fd_def fd_slot_def
      plain_file_def fd_has_data_def zero_fd_def writing_def iob_ok_def FLAG_IS_SET_def FLAG_IS_CLEAR_def
      iob_mode_def)

section \<open>Writing to the stream of a file\<close>

text \<open>
  \<open>grows D data f a h s bs s'\<close>: \<open>f\<close> is still a writable stream of file \<open>a\<close> with handle \<open>h\<close>, with
  the same buffering, and what it was given - accepted by dos.library or still in the buffer -
  grew by \<open>bs\<close>.
\<close>

definition grows ::
  "('d \<Rightarrow> nat \<Rightarrow> byte list) \<Rightarrow> nat \<Rightarrow> nat \<Rightarrow> nat \<Rightarrow> ('x, 'd) clib4 \<Rightarrow> byte list \<Rightarrow> ('x, 'd) clib4 \<Rightarrow> bool" where
  "grows data f a h s bs s' \<longleftrightarrow> file_stream f a h s' \<and> writing (c_iobs s' f) \<and>
     same_buffering (c_iobs s f) (c_iobs s' f) \<and>
     contents (\<lambda>s. data (c_dos s) h) f s' = contents (\<lambda>s. data (c_dos s) h) f s @ bs"









text \<open>
  Two cases outside the hypotheses above, on a stream with a full buffer and on an unbuffered one:
  the loop of \<^verbatim>\<open>fwrite\<close> does not count the byte that it gives to \<^verbatim>\<open>__putc_fully_buffered\<close>,
  so that it goes past the object (here: it reads outside the memory), or writes and reports one
  byte too many; and an unbuffered stream takes no more than its buffer would hold.
\<close>

abbreviation (input) full_demo :: "(nat list, ram) clib4" where
  "full_demo \<equiv> upd_iob 5 (\<lambda>i. i\<lparr>iob_BufferWriteBytes := 4\<rparr>) ram_demo"

lemma fwrite_full_buffer_overrun:
  "Option.is_none (fwrite ram_env (Some [65]) 1 1 (Some 5) full_demo)"
  "map_option fst (fwrite ram_env (Some [65, 66]) 1 1 (Some 5) full_demo) = Some 2"
  by code_simp+

lemma fwrite_unbuffered_truncates:
  "map_option fst (fwrite ram_env (Some [1, 2, 3, 4, 5, 6]) 1 6 (Some 5)
     (upd_iob 5 (\<lambda>i. i\<lparr>iob_Flags := iob_Flags i OR IOBF_BUFFER_MODE_NONE, iob_BufferSize := 1\<rparr>) ram_demo)) = Some 1"
  by code_simp

section \<open>Closing one of several descriptors\<close>

lemma alias_group_upd_other [simp]:
  "b \<notin> set (r # as) \<Longrightarrow> alias_group (h(b := d)) r as = alias_group h r as"
  by (auto simp: alias_group_def)

lemma remove_fd_alias_dos: "remove_fd_alias E a s = Some s' \<Longrightarrow> c_dos s' = c_dos s"
  by (auto simp: remove_fd_alias_def Let_def)

lemma remove_from_group:
  assumes g: "alias_group (c_fds s) r as" and a: "a \<in> set (r # as)" and two: "as \<noteq> []"
  obtains s' r' as' where "remove_fd_alias E a s = Some s'" and "alias_group (c_fds s') r' as'"
    and "set (r' # as') = set (r # as) - {a}"
proof (cases "a = r")
  case True
  from two obtain b bs where as: "as = b # bs" by (cases as) auto
  from remove_original_group [OF g [unfolded as], of E] obtain s'
    where "remove_fd_alias E r s = Some s'" "alias_group (c_fds s') b bs" by blast
  moreover have "set (b # bs) = set (r # as) - {r}" using g as by (auto simp: alias_group_def)
  ultimately show thesis using that True by blast
next
  case False
  with a have "a \<in> set as" by simp
  from remove_alias_group [OF g this, of E] obtain s'
    where "remove_fd_alias E a s = Some s'" "alias_group (c_fds s') r (remove1 a as)" by blast
  moreover have "set (r # remove1 a as) = set (r # as) - {a}"
    using g False by (auto simp: alias_group_def)
  ultimately show thesis using that by blast
qed

lemma group_is_aliased:
  "alias_group h r as \<Longrightarrow> a \<in> set (r # as) \<Longrightarrow> as \<noteq> [] \<Longrightarrow> fd_is_aliased (h a)"
  by (cases as) (auto simp: alias_group_def fd_is_aliased_def)

text \<open>
  C9: Closing one of several descriptors of the same file - the original or an alias - succeeds
  without a call to dos.library, clears that descriptor, and leaves exactly the other descriptors
  as a well-formed group: the file stays open until its last descriptor is closed.
\<close>

theorem close_alias_keeps_file:
  assumes "alias_group (c_fds s) r as" and "a \<in> set (r # as)" and "as \<noteq> []"
    and "fd_has_data (c_fds s a)" and "fd_File (c_fds s a) \<noteq> 0" and "fam_Action m = file_action_close"
  shows "\<exists>s' r' as'. fd_hook_entry E D s a m = Some (OK, m, s') \<and> c_dos s' = c_dos s \<and>
    c_fds s' a = zero_fd \<and> alias_group (c_fds s') r' as' \<and> set (r' # as') = set (r # as) - {a}"
proof -
  let ?s = "fd_lock E a (stdio_lock E s)"
  have "alias_group (c_fds ?s) r as" using assms(1) by simp
  from remove_from_group [OF this assms(2,3), of E] obtain t r' as'
    where t: "remove_fd_alias E a ?s = Some t" and g: "alias_group (c_fds t) r' as'"
      and st: "set (r' # as') = set (r # as) - {a}" .
  have na: "a \<notin> set (r' # as')" unfolding st by simp
  have "fd_is_aliased (c_fds s a)" using group_is_aliased [OF assms(1-3)] .
  then have "\<exists>s'. fd_hook_entry E D s a m = Some (OK, m, s') \<and> c_dos s' = c_dos t \<and>
      c_fds s' = (c_fds t)(a := zero_fd)"
    using assms(4-6) t by (simp add: fd_hook_entry_def hook_close_def Let_def)
  then obtain s' where s': "fd_hook_entry E D s a m = Some (OK, m, s')" "c_dos s' = c_dos t"
    "c_fds s' = (c_fds t)(a := zero_fd)" by blast
  show ?thesis
  proof (intro exI conjI)
    show "c_dos s' = c_dos s" using s'(2) remove_fd_alias_dos [OF t] by simp
    show "c_fds s' a = zero_fd" using s'(3) by simp
    show "alias_group (c_fds s') r' as'" using s'(3) g na by simp
  qed (fact s'(1), fact st)
qed

abbreviation (input) dup_demo :: "(nat list, ram) clib4" where
  "dup_demo \<equiv> duplicate_fd (demo_env (\<lambda>s a m. (EOF, m, s))) 9 1 ram_demo"

theorem close_alias_keeps_file_witness:
  "\<exists>s' r' as'. fd_hook_entry (demo_env (\<lambda>s a m. (EOF, m, s))) ram_dos dup_demo 1
      (new_fam ram_env file_action_close) = Some (OK, new_fam ram_env file_action_close, s') \<and>
    c_dos s' = c_dos dup_demo \<and> c_fds s' 1 = zero_fd \<and> alias_group (c_fds s') r' as' \<and>
    set (r' # as') = {1, 9} - {1}"
proof -
  have g: "alias_group (c_fds ram_demo) 1 []"
    by (simp add: demo_state_def alias_group_def zero_fd_def)
  have "alias_group (c_fds dup_demo) 1 [9]"
    by (rule duplicate_fd_group [OF g]) simp_all
  moreover have "fd_has_data (c_fds dup_demo 1)" "fd_File (c_fds dup_demo 1) \<noteq> 0"
    by code_simp+
  ultimately show ?thesis
    using close_alias_keeps_file [of dup_demo 1 "[9]" 1 "new_fam ram_env file_action_close"
        "demo_env (\<lambda>s a m. (EOF, m, s))" ram_dos]
    by simp
qed

end
