(* ===== verification/Stream_Read.thy ===== *)
theory Stream_Read
  imports Stream_Sink
begin

text \<open>
  Block, line and string input: \<^verbatim>\<open>fread\<close>, \<^verbatim>\<open>fgets\<close>, \<^verbatim>\<open>gets\<close>,
  \<^verbatim>\<open>getdelim\<close>, \<^verbatim>\<open>getline\<close> and \<^verbatim>\<open>getc\<close> (\<^verbatim>\<open>src/library/stdio\<close>), over the
  buffer operations of theory \<open>Iob_Core\<close>.

  The memory that the caller passes is a list of bytes; \<open>None\<close> is an access outside of it. The
  locale \<open>read_source\<close> states what the action behind a stream promises when it reads; inside it
  every operation is shown to consume exactly the bytes that it hands over. It is interpreted on
  the string of \<^verbatim>\<open>sscanf\<close> here and on files in theory \<open>File_Read\<close>.
\<close>

section \<open>Blocks\<close>

text \<open>
  Copying what the read buffer holds, at most \<open>n\<close> bytes: the bytes and the advanced stream.
\<close>

definition buffered_bytes :: "iob \<Rightarrow> nat \<Rightarrow> byte list" where
  "buffered_bytes i n =
     take (min (iob_BufferReadBytes i - iob_BufferPosition i) n) (drop (iob_BufferPosition i) (iob_Buffer i))"

definition advance :: "nat \<Rightarrow> nat \<Rightarrow> ('x, 'd) clib4 \<Rightarrow> ('x, 'd) clib4" where
  "advance f n = upd_iob f (\<lambda>i. i\<lparr>iob_BufferPosition := iob_BufferPosition i + n\<rparr>)"

text \<open>
  The buffered loop of \<^verbatim>\<open>fread\<close>. \<open>k\<close> is the number of bytes read, \<open>n\<close> the number still to
  be read, so that \<^verbatim>\<open>data\<close> is \<open>mem\<close> from \<open>k\<close> on. The result tells whether the loop was left
  by \<^verbatim>\<open>break\<close> rather than by \<^verbatim>\<open>goto out\<close>.
\<close>

function fread_loop ::
  "('x, 'd) env \<Rightarrow> nat \<Rightarrow> byte list \<Rightarrow> nat \<Rightarrow> nat \<Rightarrow> ('x, 'd) clib4
   \<Rightarrow> (bool \<times> byte list \<times> nat \<times> ('x, 'd) clib4) option" where
  "fread_loop E f mem k n s =
     (if n = 0 then Some (True, mem, k, s)
      else if iob_BufferReadBytes (c_iobs s f) = 0 \<and> n \<ge> iob_BufferSize (c_iobs s f)
      then (case read E (iob_Descriptor (c_iobs s f)) (Some (drop k mem)) n s of
          None \<Rightarrow> None
        | Some (num_bytes_read, buf, s1) \<Rightarrow>
            (let mem1 = (case buf of None \<Rightarrow> mem | Some b \<Rightarrow> take k mem @ b) in
             if num_bytes_read = - 1 then Some (False, mem1, k, set_iob_flag f IOBF_ERROR s1)
             else Some (True, mem1, k + nat num_bytes_read,
                    if num_bytes_read = 0 then set_iob_flag f IOBF_EOF_REACHED s1 else s1)))
      else let bs = buffered_bytes (c_iobs s f) n;
               mem1 = mem_splice mem k bs; k1 = k + length bs; n1 = n - length bs;
               s1 = advance f (length bs) s
        in if n1 = 0 then Some (True, mem1, k1, s1)
           else (case getc_macro E f s1 of
               (c, s2) \<Rightarrow>
                 if c = EOF then Some (True, mem1, k1, s2)
                 else fread_loop E f (mem1[k1 := word_of_int c]) (k1 + 1) (n1 - 1) s2))"
  by pat_completeness auto
termination
  by (relation "measure (\<lambda>(E, f, mem, k, n, s). n)") auto

declare fread_loop.simps [simp del]

text \<open>
  \<^verbatim>\<open>__fread_internal\<close>. \<open>None\<close> also stands for an object that is smaller than the caller
  says.
\<close>

definition fread_internal ::
  "('x, 'd) env \<Rightarrow> byte list option \<Rightarrow> nat \<Rightarrow> nat \<Rightarrow> nat option \<Rightarrow> ('x, 'd) clib4
   \<Rightarrow> (nat \<times> byte list option \<times> ('x, 'd) clib4) option" where
  "fread_internal E ptr element_size count stream s =
     (case (ptr, stream) of
        (Some mem, Some f) \<Rightarrow>
          (case ftrylockfile_r E stream s of
             (locked, s1) \<Rightarrow>
               map_option (\<lambda>(result, mem', t).
                   (result, Some mem', if locked = OK then funlockfile_r E stream t else t))
                 (if FLAG_IS_CLEAR (iob_Flags (c_iobs s1 f)) IOBF_IN_USE \<or>
                     FLAG_IS_CLEAR (iob_Flags (c_iobs s1 f)) IOBF_READ
                  then Some (0, mem, set_errno EBADF (set_iob_flag f IOBF_ERROR s1))
                  else let s2 = clearerr_r stream s1 in
                    if element_size > 0 \<and> count > 0
                    then (case fgetc_check E stream s2 of
                        (r, s3) \<Rightarrow>
                          let total_size = size_mult element_size count in
                          if r < 0 \<or> element_size \<noteq> total_size div count then Some (0, mem, s3)
                          else if length mem < total_size then None
                          else if iob_mode (c_iobs s3 f) = IOBF_BUFFER_MODE_NONE
                          then (case read E (iob_Descriptor (c_iobs s3 f)) ptr total_size s3 of
                              None \<Rightarrow> None
                            | Some (num_bytes_read, buf, s4) \<Rightarrow>
                                (let mem1 = (case buf of None \<Rightarrow> mem | Some b \<Rightarrow> b) in
                                 if num_bytes_read = - 1
                                 then Some (0, mem1, set_iob_flag f IOBF_ERROR s4)
                                 else Some (nat num_bytes_read div element_size, mem1,
                                        if num_bytes_read = 0 then set_iob_flag f IOBF_EOF_REACHED s4
                                        else s4)))
                          else map_option (\<lambda>(ok, mem1, k, s4).
                                   (if ok then k div element_size else 0, mem1, s4))
                                 (fread_loop E f mem 0 total_size s3))
                    else Some (0, mem, s2)))
      | _ \<Rightarrow> Some (0, ptr, set_errno EFAULT s))"

text \<open>
  \<^verbatim>\<open>fread\<close>; its byte swaps are those of \<^verbatim>\<open>read.c\<close>. \<open>None\<close> for a stream that is
  \<^verbatim>\<open>NULL\<close>, which is dereferenced after the call.
\<close>

definition fread ::
  "('x, 'd) env \<Rightarrow> byte list option \<Rightarrow> nat \<Rightarrow> nat \<Rightarrow> nat option \<Rightarrow> ('x, 'd) clib4
   \<Rightarrow> (nat \<times> byte list option \<times> ('x, 'd) clib4) option" where
  "fread E ptr element_size count stream s =
     (case fread_internal E ptr element_size count stream s of
        None \<Rightarrow> None
      | Some (nread, buf, s1) \<Rightarrow>
          (case stream of
             None \<Rightarrow> None
           | Some f \<Rightarrow>
               (let total_size = size_mult element_size count in
                if FLAG_IS_SET (iob_Flags (c_iobs s1 f)) IOBF_LITTLE_ENDIAN \<and>
                    (total_size = 2 \<or> total_size = 4 \<or> total_size = 8)
                then if element_size = 2 then Some (nread, map_option byteswap16 buf, s1)
                  else if element_size = 4 then Some (nread, map_option byteswap32 buf, s1)
                  else if element_size = 8 then Some (nread, map_option byteswap64 buf, s1)
                  else Some (nread, buf, s1)
                else Some (nread, buf, s1))))"

section \<open>Lines\<close>

text \<open>
  The loop of \<^verbatim>\<open>fgets\<close>. \<open>k\<close> is the number of bytes stored, so that \<^verbatim>\<open>s\<close> is \<open>mem\<close>
  from \<open>k\<close> on; the result is whether the buffer is returned rather than \<^verbatim>\<open>NULL\<close>.
\<close>

function fgets_loop ::
  "('x, 'd) env \<Rightarrow> nat \<Rightarrow> byte list \<Rightarrow> nat \<Rightarrow> nat \<Rightarrow> ('x, 'd) clib4
   \<Rightarrow> bool \<times> byte list \<times> ('x, 'd) clib4" where
  "fgets_loop E f mem k n s =
     (if n = 0 then (True, mem[k := 0], s)
      else let bs = buffered_bytes (c_iobs s f) n in
        case find_byte 10 bs of
          Some j \<Rightarrow> (True, (mem_splice mem k (take (j + 1) bs))[k + (j + 1) := 0], advance f (j + 1) s)
        | None \<Rightarrow>
            (let mem1 = mem_splice mem k bs; k1 = k + length bs; n1 = n - length bs;
                 s1 = advance f (length bs) s
             in if n1 = 0 then (True, mem1[k1 := 0], s1)
                else (case getc_macro E f s1 of
                    (c, s2) \<Rightarrow>
                      if c = EOF
                      then (case ferror_r E (Some f) False s2 of
                          (True, s3) \<Rightarrow> (False, mem1[k1 := 0], s3)
                        | (False, s3) \<Rightarrow> (k1 \<noteq> 0, mem1[k1 := 0], s3))
                      else if c = 10 then (True, (mem1[k1 := 10])[k1 + 1 := 0], s2)
                      else fgets_loop E f (mem1[k1 := word_of_int c]) (k1 + 1) (n1 - 1) s2)))"
  by pat_completeness auto
termination
  by (relation "measure (\<lambda>(E, f, mem, k, n, s). n)") auto

declare fgets_loop.simps [simp del]

text \<open>\<open>None\<close> for a buffer that is smaller than the caller says.\<close>

definition fgets ::
  "('x, 'd) env \<Rightarrow> byte list option \<Rightarrow> int \<Rightarrow> nat option \<Rightarrow> ('x, 'd) clib4
   \<Rightarrow> (bool \<times> byte list option \<times> ('x, 'd) clib4) option" where
  "fgets E buf n stream s =
     (case (buf, stream) of
        (Some mem, Some f) \<Rightarrow>
          if n \<le> 0 then Some (False, buf, s)
          else if int (length mem) < n then None
          else (case fgetc_check E stream (flockfile_r E stream s) of
              (r, s1) \<Rightarrow>
                if r < 0 then Some (False, buf, funlockfile_r E stream s1)
                else (case fgets_loop E f mem 0 (nat n - 1) (clearerr_r stream s1) of
                    (ok, mem', s2) \<Rightarrow> Some (ok, Some mem', funlockfile_r E stream s2)))
      | _ \<Rightarrow> Some (False, buf, set_errno EFAULT s))"

text \<open>A store of bytes at an offset of the caller's memory.\<close>

definition mem_store :: "byte list \<Rightarrow> nat \<Rightarrow> byte list \<Rightarrow> byte list option" where
  "mem_store mem k bs = (if k + length bs \<le> length mem then Some (mem_splice mem k bs) else None)"

text \<open>
  The loop of \<^verbatim>\<open>gets\<close>, which has no limit but the memory. The stores after a line feed in
  the buffer are those of the source: \<^verbatim>\<open>s[num_characters_in_line]\<close> after \<^verbatim>\<open>s\<close> was advanced.
\<close>

function gets_loop ::
  "('x, 'd) env \<Rightarrow> nat \<Rightarrow> byte list \<Rightarrow> nat \<Rightarrow> ('x, 'd) clib4
   \<Rightarrow> (bool \<times> byte list \<times> ('x, 'd) clib4) option" where
  "gets_loop E f mem k s =
     (let i = c_iobs s f; bs = buffered_bytes i (iob_BufferReadBytes i) in
      case find_byte 10 bs of
        Some j \<Rightarrow>
          (case mem_store mem k (take (j + 1) bs) of
             None \<Rightarrow> None
           | Some mem1 \<Rightarrow>
               (case mem_store mem1 (k + (j + 1) + (j + 1)) [0] of
                  None \<Rightarrow> None
                | Some mem2 \<Rightarrow>
                    map_option (\<lambda>mem3. (True, mem3, advance f (j + 1) s)) (mem_store mem2 (k + (j + 1)) [0])))
      | None \<Rightarrow>
          (case mem_store mem k bs of
             None \<Rightarrow> None
           | Some mem1 \<Rightarrow>
               (let k1 = k + length bs in
                case getc_macro E f (advance f (length bs) s) of
                  (c, s2) \<Rightarrow>
                    if c = EOF
                    then (case ferror_r E (Some f) False s2 of
                        (err, s3) \<Rightarrow>
                          map_option (\<lambda>mem2. (\<not> err \<and> k1 \<noteq> 0, mem2, s3)) (mem_store mem1 k1 [0]))
                    else if c = 10 then map_option (\<lambda>mem2. (True, mem2, s2)) (mem_store mem1 k1 [0])
                    else if k1 < length mem1
                    then gets_loop E f (mem1[k1 := word_of_int c]) (k1 + 1) s2
                    else None)))"
  by pat_completeness auto
termination
  by (relation "measure (\<lambda>(E, f, mem, k, s). length mem - k)")
    (auto simp: mem_store_def split: if_splits)

declare gets_loop.simps [simp del]

text \<open>\<open>stream\<close> is \<^verbatim>\<open>stdin\<close>.\<close>

definition gets ::
  "('x, 'd) env \<Rightarrow> byte list option \<Rightarrow> nat option \<Rightarrow> ('x, 'd) clib4
   \<Rightarrow> (bool \<times> byte list option \<times> ('x, 'd) clib4) option" where
  "gets E buf stream s =
     (case (buf, stream) of
        (Some mem, Some f) \<Rightarrow>
          (case fgetc_check E stream (flockfile_r E stream s) of
             (r, s1) \<Rightarrow>
               if r < 0 then Some (False, buf, funlockfile_r E stream s1)
               else map_option (\<lambda>(ok, mem', s2). (ok, Some mem', funlockfile_r E stream s2))
                      (gets_loop E f mem 0 (clearerr_r stream s1)))
      | _ \<Rightarrow> Some (False, buf, set_errno EFAULT s))"

definition getc :: "('x, 'd) env \<Rightarrow> nat option \<Rightarrow> ('x, 'd) clib4 \<Rightarrow> int \<times> ('x, 'd) clib4" where
  "getc E stream s = (case stream of None \<Rightarrow> (EOF, set_errno EFAULT s) | Some f \<Rightarrow> fgetc E stream s)"

text \<open>Making room in the line.\<close>

definition getdelim_grow ::
  "(byte list option \<Rightarrow> nat \<Rightarrow> 'x \<Rightarrow> byte list option \<times> 'x) \<Rightarrow> byte list option \<Rightarrow> nat \<Rightarrow> nat
   \<Rightarrow> ('x, 'd) clib4 \<Rightarrow> bool \<times> byte list option \<times> nat \<times> ('x, 'd) clib4" where
  "getdelim_grow realloc line sz len s =
     (if sz - len \<le> 2
      then let sz' = (if sz \<noteq> 0 then 2 * sz else 256) in
        (case realloc line sz' (c_exec s) of
           (None, x) \<Rightarrow> (False, line, sz, s\<lparr>c_exec := x\<rparr>)
         | (Some p, x) \<Rightarrow> (True, Some p, sz', s\<lparr>c_exec := x\<rparr>))
      else (True, line, sz, s))"

text \<open>
  \<^verbatim>\<open>getdelim\<close> on a line of \<open>sz\<close> bytes, \<open>len\<close> of them filled. \<open>realloc\<close> is the allocator: the
  memory after the call and whether it succeeded. A loop over a stream that never ends or on a
  descriptor that keeps delivering does not return (\<open>None\<close>), as does one whose memory is smaller
  than \<open>sz\<close>.
\<close>

partial_function (option) getdelim_loop ::
  "('x, 'd) env \<Rightarrow> (byte list option \<Rightarrow> nat \<Rightarrow> 'x \<Rightarrow> byte list option \<times> 'x) \<Rightarrow> int \<Rightarrow> nat option
   \<Rightarrow> byte list option \<Rightarrow> nat \<Rightarrow> nat \<Rightarrow> ('x, 'd) clib4
   \<Rightarrow> (int \<times> byte list option \<times> nat \<times> ('x, 'd) clib4) option" where
  "getdelim_loop E realloc delimiter stream line sz len s =
     (case getdelim_grow realloc line sz len s of
        (ok, line1, sz1, s1) \<Rightarrow>
          if \<not> ok then Some (- 1, line1, sz1, s1)
          else (case line1 of
              None \<Rightarrow> None
            | Some mem \<Rightarrow>
                if length mem \<le> len + 1 then None
                else (case fgetc E stream s1 of
                   (c, s2) \<Rightarrow>
                     if c = - 1
                     then if len = 0 then Some (- 1, line1, sz1, s2)
                       else (case ferror_r E stream True s2 of
                           (True, s3) \<Rightarrow> Some (- 1, line1, sz1, s3)
                         | (False, s3) \<Rightarrow> Some (int len, Some (mem[len := 0]), sz1, s3))
                     else if c = delimiter
                     then Some (int len + 1, Some ((mem[len := word_of_int c])[len + 1 := 0]), sz1, s2)
                     else getdelim_loop E realloc delimiter stream (Some (mem[len := word_of_int c]))
                            sz1 (len + 1) s2)))"

text \<open>The line and its size are \<^verbatim>\<open>*lineptr\<close> and \<^verbatim>\<open>*n\<close>.\<close>

definition getdelim ::
  "('x, 'd) env \<Rightarrow> (byte list option \<Rightarrow> nat \<Rightarrow> 'x \<Rightarrow> byte list option \<times> 'x) \<Rightarrow> byte list option \<Rightarrow> nat
   \<Rightarrow> int \<Rightarrow> nat option \<Rightarrow> ('x, 'd) clib4
   \<Rightarrow> (int \<times> byte list option \<times> nat \<times> ('x, 'd) clib4) option" where
  "getdelim E realloc line n delimiter stream s =
     getdelim_loop E realloc delimiter stream line (if line \<noteq> None then n else 0) 0 s"

definition getline ::
  "('x, 'd) env \<Rightarrow> (byte list option \<Rightarrow> nat \<Rightarrow> 'x \<Rightarrow> byte list option \<times> 'x) \<Rightarrow> byte list option \<Rightarrow> nat
   \<Rightarrow> nat option \<Rightarrow> ('x, 'd) clib4
   \<Rightarrow> (int \<times> byte list option \<times> nat \<times> ('x, 'd) clib4) option" where
  "getline E realloc line n stream s = getdelim E realloc line n 10 stream s"

section \<open>The read buffer\<close>

text \<open>A stream in use that can be read from, holds no unwritten data and is not line buffered.\<close>

definition reading :: "iob \<Rightarrow> bool" where
  "reading i \<longleftrightarrow> iob_ok i \<and> \<not> FLAG_IS_CLEAR (iob_Flags i) IOBF_IN_USE \<and>
     FLAG_IS_SET (iob_Flags i) IOBF_IN_USE \<and> \<not> FLAG_IS_CLEAR (iob_Flags i) IOBF_READ \<and>
     iob_BufferWriteBytes i = 0 \<and> iob_mode i \<noteq> IOBF_BUFFER_MODE_LINE"

definition ahead :: "iob \<Rightarrow> byte list" where
  "ahead i = drop (iob_BufferPosition i) (take (iob_BufferReadBytes i) (iob_Buffer i))"

text \<open>What a reader of the stream has still to get: the data read ahead, then the source.\<close>

definition unread :: "(('x, 'd) clib4 \<Rightarrow> byte list) \<Rightarrow> nat \<Rightarrow> ('x, 'd) clib4 \<Rightarrow> byte list" where
  "unread rest f s = ahead (c_iobs s f) @ rest s"

definition stream_error :: "iob \<Rightarrow> bool" where
  "stream_error i \<longleftrightarrow> FLAG_IS_SET (iob_Flags i) IOBF_ERROR"

lemma reading_flags [simp]:
  "reading (i\<lparr>iob_Flags := SET_FLAG (iob_Flags i) IOBF_ERROR\<rparr>) = reading i"
  "reading (i\<lparr>iob_Flags := SET_FLAG (iob_Flags i) IOBF_EOF_REACHED\<rparr>) = reading i"
  "reading (i\<lparr>iob_Flags := SET_FLAG (iob_Flags i) IOBF_LOCKED, iob_TaskLock := t\<rparr>) = reading i"
  "reading (i\<lparr>iob_Flags := CLEAR_FLAG (iob_Flags i) IOBF_LOCKED, iob_TaskLock := t\<rparr>) = reading i"
  by (simp_all add: reading_def iob_ok_def iob_mode_def flag_simps)

lemma ahead_flags [simp]:
  "ahead (i\<lparr>iob_Flags := fl\<rparr>) = ahead i" "ahead (i\<lparr>iob_Flags := fl, iob_TaskLock := t\<rparr>) = ahead i"
  "ahead (i\<lparr>iob_Flags := fl, iob_Flags2 := t2\<rparr>) = ahead i"
  by (simp_all add: ahead_def)

lemma error_flags [simp]:
  "stream_error (i\<lparr>iob_Flags := SET_FLAG (iob_Flags i) IOBF_ERROR\<rparr>)"
  "stream_error (i\<lparr>iob_Flags := SET_FLAG (iob_Flags i) IOBF_EOF_REACHED\<rparr>) = stream_error i"
  "stream_error (i\<lparr>iob_Flags := SET_FLAG (iob_Flags i) IOBF_LOCKED, iob_TaskLock := t\<rparr>) = stream_error i"
  "stream_error (i\<lparr>iob_Flags := CLEAR_FLAG (iob_Flags i) IOBF_LOCKED, iob_TaskLock := t\<rparr>) = stream_error i"
  by (simp_all add: stream_error_def flag_simps)

text \<open>Operations that change no data of the stream, only flags and locks.\<close>

definition flags_only :: "nat \<Rightarrow> ('x, 'd) clib4 \<Rightarrow> ('x, 'd) clib4 \<Rightarrow> bool" where
  "flags_only f s s' \<longleftrightarrow> sink_frame f s s' \<and> (reading (c_iobs s f) \<longrightarrow> reading (c_iobs s' f)) \<and>
     same_buffering (c_iobs s f) (c_iobs s' f) \<and> ahead (c_iobs s' f) = ahead (c_iobs s f)"

lemma flockfile_read:
  "flags_only f s (flockfile_r E (Some f) s)"
  "stream_error (c_iobs (flockfile_r E (Some f) s) f) = stream_error (c_iobs s f)"
  by (simp_all add: flags_only_def flockfile_frame)
    (simp_all add: flockfile_r_def Let_def split: option.split)

lemma funlockfile_read:
  "flags_only f s (funlockfile_r E (Some f) s)"
  "stream_error (c_iobs (funlockfile_r E (Some f) s) f) = stream_error (c_iobs s f)"
  by (simp_all add: flags_only_def funlockfile_frame)
    (simp_all add: funlockfile_r_def Let_def split: option.split)

lemma ftrylockfile_read:
  "flags_only f s (snd (ftrylockfile_r E (Some f) s))"
  "stream_error (c_iobs (snd (ftrylockfile_r E (Some f) s)) f) = stream_error (c_iobs s f)"
  by (simp_all add: flags_only_def ftrylockfile_r_def Let_def sink_frame_def sink_part_def)

lemma clearerr_read:
  "flags_only f s (clearerr_r (Some f) s)"
  "reading (c_iobs s f) \<Longrightarrow> \<not> stream_error (c_iobs (clearerr_r (Some f) s) f)"
  by (simp_all add: flags_only_def clearerr_r_def sink_frame_def sink_part_def reading_def iob_ok_def
      iob_mode_def same_buffering_def stream_error_def flag_simps)

lemma set_flag_read:
  "flags_only f s (set_iob_flag f IOBF_ERROR s)" "flags_only f s (set_iob_flag f IOBF_EOF_REACHED s)"
  by (simp_all add: flags_only_def sink_frame_def sink_part_def same_buffering_def iob_mode_def flag_simps)

lemma take_mem_splice_0: "take (length bs) (mem_splice mem 0 bs) = bs"
  by (simp add: mem_splice_def)

lemma uint_not_EOF [simp]: "uint (b :: byte) \<noteq> - 1" "- 1 \<noteq> uint (b :: byte)"
  using uint_ge_0 [of b] by linarith+

text \<open>Taking bytes out of the read buffer.\<close>

lemma buffered_bytes_ahead: "iob_ok i \<Longrightarrow> buffered_bytes i n = take n (ahead i)"
  by (simp add: buffered_bytes_def ahead_def drop_take min.commute)

lemma advance_read:
  assumes "reading (c_iobs s f)" and "n \<le> length (ahead (c_iobs s f))"
  shows "sink_frame f s (advance f n s)" "reading (c_iobs (advance f n s) f)"
    "same_buffering (c_iobs s f) (c_iobs (advance f n s) f)"
    "ahead (c_iobs (advance f n s) f) = drop n (ahead (c_iobs s f))"
    "stream_error (c_iobs (advance f n s) f) = stream_error (c_iobs s f)"
  using assms
  by (auto simp: advance_def reading_def iob_ok_def ahead_def sink_frame_def sink_part_def
      same_buffering_def iob_mode_def stream_error_def add.commute)

lemma mem_splice_append:
  "k \<le> length mem \<Longrightarrow> mem_splice (mem_splice mem k as) (k + length as) bs = mem_splice mem k (as @ bs)"
  by (simp add: mem_splice_def ac_simps)

lemma mem_splice_snoc:
  "k + length as < length mem \<Longrightarrow> (mem_splice mem k as)[k + length as := c] = mem_splice mem k (as @ [c])"
  using mem_splice_single [of "k + length as" "mem_splice mem k as" c] mem_splice_append [of k mem as "[c]"]
  by simp

text \<open>The first line of some data, with its line feed, cut after \<open>n\<close> bytes.\<close>

fun line_of :: "nat \<Rightarrow> byte list \<Rightarrow> byte list" where
  "line_of 0 bs = []"
| "line_of n [] = []"
| "line_of (Suc n) (b # bs) = (if b = 10 then [b] else b # line_of n bs)"

lemma line_of_Nil [simp]: "line_of n [] = []"
  by (cases n) auto

lemma line_of_found:
  "find_byte 10 bs = Some j \<Longrightarrow> length bs \<le> n \<Longrightarrow> line_of n (bs @ r) = take (Suc j) bs"
proof (induction bs arbitrary: n j)
  case (Cons b bs)
  then show ?case by (cases n) (auto split: if_splits)
qed simp

lemma line_of_not_found:
  "find_byte 10 bs = None \<Longrightarrow> length bs \<le> n \<Longrightarrow> line_of n (bs @ r) = bs @ line_of (n - length bs) r"
proof (induction bs arbitrary: n)
  case (Cons b bs)
  then show ?case by (cases n) (auto split: if_splits)
qed simp

lemma length_line_of: "length (line_of n bs) \<le> n"
  by (induction n bs rule: line_of.induct) auto

lemma line_of_prefix: "\<exists>r. bs = line_of n bs @ r"
  by (induction n bs rule: line_of.induct) auto

text \<open>Some data up to and including the first delimiter.\<close>

fun delim_of :: "int \<Rightarrow> byte list \<Rightarrow> byte list" where
  "delim_of d [] = []"
| "delim_of d (b # bs) = (if uint b = d then [b] else b # delim_of d bs)"

text \<open>What \<^verbatim>\<open>realloc\<close> promises: it fails, or returns memory of the size that keeps the data.\<close>

definition realloc_ok :: "(byte list option \<Rightarrow> nat \<Rightarrow> 'x \<Rightarrow> byte list option \<times> 'x) \<Rightarrow> bool" where
  "realloc_ok realloc \<longleftrightarrow> (\<forall>line n x m x'. realloc line n x = (Some m, x') \<longrightarrow>
     length m = n \<and> (\<forall>old k. line = Some old \<longrightarrow> k \<le> length old \<longrightarrow> k \<le> n \<longrightarrow> take k m = take k old))"

definition line_ok :: "byte list option \<Rightarrow> nat \<Rightarrow> byte list \<Rightarrow> bool" where
  "line_ok line sz pre \<longleftrightarrow> line = None \<and> sz = 0 \<and> pre = [] \<or>
     (\<exists>mem. line = Some mem \<and> sz \<le> length mem \<and> (length pre < sz \<or> sz = 0 \<and> pre = []) \<and> take (length pre) mem = pre)"

lemma getdelim_grow_result:
  assumes r: "realloc_ok realloc" and l: "line_ok line sz pre"
    and g: "getdelim_grow realloc line sz (length pre) s = (ok, line', sz', s')"
  shows "sink_frame f s s' \<and> c_iobs s' = c_iobs s \<and>
    (ok \<and> (\<exists>mem. line' = Some mem \<and> sz' \<le> length mem \<and> length pre + 1 < sz' \<and> take (length pre) mem = pre) \<or>
     \<not> ok \<and> (\<exists>line n x. fst (realloc line n x) = None))"
proof (cases "sz - length pre \<le> 2")
  case False
  with g l show ?thesis by (auto simp: getdelim_grow_def line_ok_def)
next
  case True
  let ?sz = "if sz \<noteq> 0 then 2 * sz else 256 :: nat"
  obtain p x where re: "realloc line ?sz (c_exec s) = (p, x)" by (meson surj_pair)
  show ?thesis
  proof (cases p)
    case None
    have "fst (realloc line ?sz (c_exec s)) = None" using re None by simp
    moreover have "\<not> ok" "s' = s\<lparr>c_exec := x\<rparr>"
      using g True re None by (auto simp: getdelim_grow_def Let_def)
    ultimately show ?thesis by (auto simp: sink_frame_def)
  next
    case (Some m)
    have eq: "ok" "line' = Some m" "sz' = ?sz" "s' = s\<lparr>c_exec := x\<rparr>"
      using g True re Some by (auto simp: getdelim_grow_def Let_def)
    have m: "length m = ?sz" "\<And>old k. line = Some old \<Longrightarrow> k \<le> length old \<Longrightarrow> k \<le> ?sz \<Longrightarrow> take k m = take k old"
      using r re Some unfolding realloc_ok_def by blast+
    have "length pre + 1 < ?sz" using l by (auto simp: line_ok_def)
    moreover have "take (length pre) m = pre"
    proof (cases line)
      case None
      with l show ?thesis by (simp add: line_ok_def)
    next
      case (Some old)
      with l m(2) [of old "length pre"] \<open>length pre + 1 < ?sz\<close> show ?thesis by (auto simp: line_ok_def)
    qed
    ultimately show ?thesis using eq m(1) by (simp add: sink_frame_def)
  qed
qed

section \<open>The contract\<close>

text \<open>
  \<open>rest s\<close> is the data that the source behind \<open>f\<close> has still to deliver. A read action fails and
  delivers nothing, or it delivers as much as was asked for and is left, and it leaves the rest of
  the caller's memory and the buffer of the stream alone.
\<close>

locale read_source =
  fixes E :: "('x, 'd) env" and f :: nat
    and inv :: "('x, 'd) clib4 \<Rightarrow> bool" and rest :: "('x, 'd) clib4 \<Rightarrow> byte list"
  assumes read_action:
    "inv s \<Longrightarrow> fam_Action m = file_action_read \<Longrightarrow> 0 < fam_Size m \<Longrightarrow>
      fam_Size m \<le> length (fam_Data m) \<Longrightarrow> iob_action E s f m = (n, m', s') \<Longrightarrow>
      inv s' \<and> buffer_part (c_iobs s' f) = buffer_part (c_iobs s f) \<and>
      (n = EOF \<and> fam_Data m' = fam_Data m \<and> rest s' = rest s \<or>
       n = int (length (take (fam_Size m) (rest s))) \<and>
       fam_Data m' = mem_splice (fam_Data m) 0 (take (fam_Size m) (rest s)) \<and>
       rest s' = drop (fam_Size m) (rest s))"
    and frame: "sink_frame f s s' \<Longrightarrow> inv s \<Longrightarrow> inv s' \<and> rest s' = rest s"
begin

text \<open>\<open>got s bs s'\<close>: the stream stays readable and exactly \<open>bs\<close> was consumed.\<close>

abbreviation got :: "('x, 'd) clib4 \<Rightarrow> byte list \<Rightarrow> ('x, 'd) clib4 \<Rightarrow> bool" where
  "got s bs s' \<equiv> inv s' \<and> reading (c_iobs s' f) \<and> same_buffering (c_iobs s f) (c_iobs s' f) \<and>
     unread rest f s = bs @ unread rest f s'"

abbreviation err :: "('x, 'd) clib4 \<Rightarrow> bool" where
  "err s \<equiv> stream_error (c_iobs s f)"

lemma got_trans: "got s as t \<Longrightarrow> got t bs u \<Longrightarrow> got s (as @ bs) u"
  by (auto intro: same_buffering_trans)

lemma flags_got: "inv s \<Longrightarrow> reading (c_iobs s f) \<Longrightarrow> flags_only f s s' \<Longrightarrow> got s [] s'"
  using frame by (auto simp: flags_only_def unread_def)

lemma got_flags: "got s bs t \<Longrightarrow> flags_only f t u \<Longrightarrow> got s bs u"
  using got_trans [where s = s and as = bs and t = t and bs = "[]" and u = u] flags_got [of t u] by simp

lemma flags_got_trans: "inv s \<Longrightarrow> reading (c_iobs s f) \<Longrightarrow> flags_only f s t \<Longrightarrow> got t bs u \<Longrightarrow> got s bs u"
  using got_trans [where s = s and as = "[]" and t = t and bs = bs and u = u] flags_got [of s t] by simp

lemma advance_got:
  assumes "inv s" and "reading (c_iobs s f)" and "n \<le> length (ahead (c_iobs s f))"
  shows "got s (take n (ahead (c_iobs s f))) (advance f n s)"
  using frame [OF advance_read(1) [OF assms(2,3)] assms(1)] advance_read(2-4) [OF assms(2,3)]
  by (simp add: unread_def)

lemma fill_result:
  assumes inv: "inv s" and r: "reading (c_iobs s f)" and e: "ahead (c_iobs s f) = []"
    and fl: "fill_iob_read_buffer E f s = (x, s')"
  shows "got s [] s' \<and>
    (x = ERROR \<and> err s' \<or>
     x = OK \<and> err s' = err s \<and> iob_BufferPosition (c_iobs s' f) = 0 \<and>
       (iob_BufferReadBytes (c_iobs s' f) = 0 \<longleftrightarrow> rest s = []) \<and>
       (rest s \<noteq> [] \<longrightarrow> ahead (c_iobs s' f) \<noteq> []))"
proof -
  let ?i = "c_iobs s f"
  let ?m = "(new_fam E file_action_read)\<lparr>fam_Data := iob_Buffer ?i, fam_Size := iob_BufferSize ?i\<rparr>"
  obtain n m t where act: "iob_action E s f ?m = (n, m, t)"
    by (metis surj_pair)
  from r have sz: "0 < iob_BufferSize ?i" "iob_BufferSize ?i \<le> length (iob_Buffer ?i)"
    and ml: "iob_mode ?i \<noteq> IOBF_BUFFER_MODE_LINE"
    by (simp_all add: reading_def iob_ok_def)
  from read_action [OF inv _ _ _ act] sz
  have t: "inv t" "buffer_part (c_iobs t f) = buffer_part ?i"
    and cases: "n = EOF \<and> fam_Data m = iob_Buffer ?i \<and> rest t = rest s \<or>
      n = int (length (take (iob_BufferSize ?i) (rest s))) \<and>
      fam_Data m = mem_splice (iob_Buffer ?i) 0 (take (iob_BufferSize ?i) (rest s)) \<and>
      rest t = drop (iob_BufferSize ?i) (rest s)"
    by simp_all
  show ?thesis
  proof (cases "n = EOF")
    case True
    let ?t = "set_errno (fam_Error m) (set_iob_flag f IOBF_ERROR (upd_iob f (\<lambda>i. i\<lparr>iob_Buffer := fam_Data m\<rparr>) t))"
    have eq: "x = ERROR" "s' = ?t"
      using fl act ml True by (simp_all add: fill_iob_read_buffer_def Let_def)
    have fr: "sink_frame f t ?t" by (simp add: sink_frame_def sink_part_def)
    show ?thesis
      unfolding eq using frame [OF fr t(1)] t(2) cases True r e
      by (auto simp: buffer_part_def reading_def iob_ok_def iob_mode_def same_buffering_def
          unread_def ahead_def stream_error_def flag_simps)
  next
    case False
    let ?bs = "take (iob_BufferSize ?i) (rest s)"
    let ?t = "upd_iob f (\<lambda>i. i\<lparr>iob_BufferReadBytes := nat n, iob_BufferPosition := 0\<rparr>)
        (upd_iob f (\<lambda>i. i\<lparr>iob_Buffer := fam_Data m\<rparr>) t)"
    have eq: "x = OK" "s' = ?t"
      using fl act ml False by (simp_all add: fill_iob_read_buffer_def Let_def)
    have fr: "sink_frame f t ?t" by (simp add: sink_frame_def sink_part_def)
    from cases False have m: "nat n = length ?bs" "fam_Data m = mem_splice (iob_Buffer ?i) 0 ?bs"
      "rest t = drop (iob_BufferSize ?i) (rest s)" by auto
    have len: "length ?bs \<le> length (iob_Buffer ?i)" using sz by simp
    have "take (nat n) (fam_Data m) = ?bs" unfolding m(1,2) by (rule take_mem_splice_0)
    then have ah: "ahead (c_iobs ?t f) = ?bs" by (simp add: ahead_def)
    have bl: "length (fam_Data m) = length (iob_Buffer ?i)"
      using len m(2) by (simp add: length_mem_splice del: length_take)
    have "reading (c_iobs ?t f)" "same_buffering ?i (c_iobs ?t f)" "err ?t = err s"
      using r t(2) bl sz m(1)
      by (simp_all add: buffer_part_def reading_def iob_ok_def iob_mode_def same_buffering_def
          stream_error_def)
    moreover have "nat n = 0 \<longleftrightarrow> rest s = []" "?bs = [] \<longleftrightarrow> rest s = []"
      using sz(1) by (auto simp: m(1) min_def)
    ultimately show ?thesis
      unfolding eq using frame [OF fr t(1)] ah e m(3) sz(1) by (simp add: unread_def)
  qed
qed

text \<open>The next byte, or the end of the data or an error.\<close>

abbreviation next_byte :: "('x, 'd) clib4 \<Rightarrow> int \<Rightarrow> ('x, 'd) clib4 \<Rightarrow> bool" where
  "next_byte s c s' \<equiv>
     (\<exists>b. c = uint b \<and> got s [b] s' \<and> err s' = err s) \<or>
     c = EOF \<and> got s [] s' \<and> (err s' \<or> err s' = err s \<and> unread rest f s = [])"

lemma ahead_hd:
  assumes "iob_ok i" and "ahead i \<noteq> []"
  shows "iob_BufferPosition i < iob_BufferReadBytes i" "[iob_Buffer i ! iob_BufferPosition i] = take 1 (ahead i)"
proof -
  from assms have p: "iob_BufferPosition i < iob_BufferReadBytes i" "iob_BufferReadBytes i \<le> length (iob_Buffer i)"
    by (auto simp: ahead_def iob_ok_def)
  then show "iob_BufferPosition i < iob_BufferReadBytes i" by simp
  have "ahead i = iob_Buffer i ! iob_BufferPosition i # drop (Suc (iob_BufferPosition i)) (take (iob_BufferReadBytes i) (iob_Buffer i))"
    unfolding ahead_def using p by (rule drop_take_nth)
  then show "[iob_Buffer i ! iob_BufferPosition i] = take 1 (ahead i)" by simp
qed

lemma take_byte:
  assumes inv: "inv s" and r: "reading (c_iobs s f)" and a: "ahead (c_iobs s f) \<noteq> []"
  shows "got s [iob_Buffer (c_iobs s f) ! iob_BufferPosition (c_iobs s f)]
      (upd_iob f (\<lambda>i. i\<lparr>iob_BufferPosition := iob_BufferPosition i + 1\<rparr>) s)"
    "err (upd_iob f (\<lambda>i. i\<lparr>iob_BufferPosition := iob_BufferPosition i + 1\<rparr>) s) = err s"
proof -
  have n: "1 \<le> length (ahead (c_iobs s f))" using a by (cases "ahead (c_iobs s f)") auto
  have ok: "iob_ok (c_iobs s f)" using r by (simp add: reading_def)
  show "got s [iob_Buffer (c_iobs s f) ! iob_BufferPosition (c_iobs s f)]
      (upd_iob f (\<lambda>i. i\<lparr>iob_BufferPosition := iob_BufferPosition i + 1\<rparr>) s)"
    unfolding ahead_hd(2) [OF ok a] using advance_got [OF inv r n] by (simp add: advance_def)
  show "err (upd_iob f (\<lambda>i. i\<lparr>iob_BufferPosition := iob_BufferPosition i + 1\<rparr>) s) = err s"
    using advance_read(5) [OF r n] by (simp add: advance_def)
qed

lemma ahead_empty: "iob_ok i \<Longrightarrow> iob_read_buffer_is_empty i \<longleftrightarrow> ahead i = []"
  by (auto simp: iob_ok_def iob_read_buffer_is_empty_def ahead_def)

lemma fgetc_fill_result:
  assumes inv: "inv s" and r: "reading (c_iobs s f)" and e: "ahead (c_iobs s f) = []"
    and g: "fgetc_fill E f s = (c, s')"
  shows "next_byte s c s'"
proof -
  have ok: "iob_ok (c_iobs s f)" using r by (simp add: reading_def)
  obtain x t where fl: "fill_iob_read_buffer E f s = (x, t)" by (meson surj_pair)
  note fr = fill_result [OF inv r e fl]
  have okt: "iob_ok (c_iobs t f)" using fr by (simp add: reading_def)
  have em: "iob_read_buffer_is_empty (c_iobs s f)" using e ahead_empty [OF ok] by simp
  show ?thesis
  proof (cases "x < 0")
    case True
    then have "c = EOF" "s' = t" using g fl em by (simp_all add: fgetc_fill_def Let_def)
    then show ?thesis using fr True by auto
  next
    case x: False
    show ?thesis
    proof (cases "ahead (c_iobs t f) = []")
      case True
      then have "c = EOF" "s' = set_iob_flag f IOBF_EOF_REACHED t"
        using g fl em x ahead_empty [OF okt] by (simp_all add: fgetc_fill_def Let_def)
      moreover have "got s [] (set_iob_flag f IOBF_EOF_REACHED t)"
        using got_flags [OF conjunct1 [OF fr] set_flag_read(2)] .
      moreover have "unread rest f s = []" using fr True x e by (auto simp: unread_def)
      ultimately show ?thesis using fr x by auto
    next
      case False
      have "got s ([] @ [iob_Buffer (c_iobs t f) ! iob_BufferPosition (c_iobs t f)])
          (upd_iob f (\<lambda>i. i\<lparr>iob_BufferPosition := iob_BufferPosition i + 1\<rparr>) t)"
        by (rule got_trans [OF conjunct1 [OF fr] take_byte(1)]) (use fr False in auto)
      moreover have "err (upd_iob f (\<lambda>i. i\<lparr>iob_BufferPosition := iob_BufferPosition i + 1\<rparr>) t) = err s"
        using take_byte(2) [of t] fr False x by auto
      moreover have "c = uint (iob_Buffer (c_iobs t f) ! iob_BufferPosition (c_iobs t f))"
        "s' = upd_iob f (\<lambda>i. i\<lparr>iob_BufferPosition := iob_BufferPosition i + 1\<rparr>) t"
        using g fl em x False ahead_empty [OF okt] by (simp_all add: fgetc_fill_def Let_def)
      ultimately show ?thesis by auto
    qed
  qed
qed

lemma getc_result:
  assumes inv: "inv s" and r: "reading (c_iobs s f)" and g: "getc_macro E f s = (c, s')"
  shows "next_byte s c s'"
proof (cases "ahead (c_iobs s f) = []")
  case True
  then have "\<not> iob_BufferPosition (c_iobs s f) < iob_BufferReadBytes (c_iobs s f)"
    using r by (auto simp: reading_def iob_ok_def ahead_def)
  with g have "fgetc_fill E f s = (c, s')" by (simp add: getc_macro_def)
  from fgetc_fill_result [OF inv r True this] show ?thesis .
next
  case False
  have ok: "iob_ok (c_iobs s f)" using r by (simp add: reading_def)
  have "c = uint (iob_Buffer (c_iobs s f) ! iob_BufferPosition (c_iobs s f))"
    "s' = upd_iob f (\<lambda>i. i\<lparr>iob_BufferPosition := iob_BufferPosition i + 1\<rparr>) s"
    using g ahead_hd(1) [OF ok False] by (simp_all add: getc_macro_def)
  with take_byte [OF inv r False] show ?thesis by blast
qed

lemma fgetc_check_reading:
  "reading (c_iobs s f) \<Longrightarrow> fgetc_check E (Some f) s = (OK, s)"
  by (simp add: fgetc_check_def reading_def iob_write_buffer_is_valid_def)

lemma next_byte_flags:
  assumes inv: "inv s" and r: "reading (c_iobs s f)"
    and s1: "flags_only f s s1" "err s1 = err s" and n: "next_byte s1 c t"
    and u: "flags_only f t u" "err u = err t"
  shows "next_byte s c u"
proof -
  have "unread rest f s1 = unread rest f s"
    using flags_got [OF inv r s1(1)] by simp
  moreover have "got s bs u" if "got s1 bs t" for bs
    using got_flags [OF flags_got_trans [OF inv r s1(1) that] u(1)] .
  ultimately show ?thesis using n s1(2) u(2) by metis
qed

lemma fgetc_result:
  assumes inv: "inv s" and r: "reading (c_iobs s f)" and g: "fgetc E (Some f) s = (c, s')"
  shows "next_byte s c s'"
proof -
  let ?l = "flockfile_r E (Some f) s"
  have l: "inv ?l" "reading (c_iobs ?l f)" using flags_got [OF inv r flockfile_read(1)] by auto
  obtain d t where gt: "getc_macro E f ?l = (d, t)" by (meson surj_pair)
  have eq: "c = d" "s' = funlockfile_r E (Some f) t"
    using g gt by (simp_all add: fgetc_def fgetc_check_reading [OF l(2)])
  show ?thesis
    unfolding eq
    by (rule next_byte_flags [OF inv r flockfile_read getc_result [OF l gt] funlockfile_read])
qed

text \<open>What \<^verbatim>\<open>fgets\<close> stores: the next line, or less of it after an error.\<close>

abbreviation line_result ::
  "('x, 'd) clib4 \<Rightarrow> byte list \<Rightarrow> nat \<Rightarrow> nat \<Rightarrow> bool \<times> byte list \<times> ('x, 'd) clib4 \<Rightarrow> bool" where
  "line_result s mem k n x \<equiv> (case x of (ok, mem', s') \<Rightarrow>
     \<exists>l. got s l s' \<and> length l \<le> n \<and> mem' = (mem_splice mem k l)[k + length l := 0] \<and>
       (\<not> err s' \<and> l = line_of n (unread rest f s) \<and> ok = (n = 0 \<or> k + length l \<noteq> 0) \<or> err s' \<and> \<not> ok))"

lemma line_here:
  assumes "got s [] t" and "\<not> err t \<and> line_of n (unread rest f s) = [] \<and> ok = (n = 0 \<or> k \<noteq> 0) \<or> err t \<and> \<not> ok"
  shows "line_result s mem k n (ok, mem[k := 0], t)"
  using assms by (intro case_prodI exI [of _ "[]"]) (auto simp: mem_splice_def)

lemma line_prepend:
  assumes g: "got s as t" and k: "k \<le> length mem" and n: "length as + m \<le> n" "m = 0 \<longrightarrow> n = 0 \<or> k + length as \<noteq> 0"
    and l: "line_of n (unread rest f s) = as @ line_of m (unread rest f t)"
    and x: "line_result t (mem_splice mem k as) (k + length as) m x"
  shows "line_result s mem k n x"
proof -
  from x obtain ok mem' u l where x: "x = (ok, mem', u)" and gu: "got t l u" and ll: "length l \<le> m"
    and mem': "mem' = (mem_splice (mem_splice mem k as) (k + length as) l)[k + length as + length l := 0]"
    and out: "\<not> err u \<and> l = line_of m (unread rest f t) \<and> ok = (m = 0 \<or> k + length as + length l \<noteq> 0) \<or>
      err u \<and> \<not> ok"
    by (auto split: prod.splits)
  have "mem' = (mem_splice mem k (as @ l))[k + length (as @ l) := 0]"
    unfolding mem' mem_splice_append [OF k] by (simp add: add.assoc)
  moreover have "got s (as @ l) u" by (rule got_trans [OF g gu])
  moreover have "length (as @ l) \<le> n" using ll n by simp
  ultimately show ?thesis
    unfolding x using out l n by (intro case_prodI exI [of _ "as @ l"]) auto
qed

lemma buffered_got:
  assumes inv: "inv s" and r: "reading (c_iobs s f)" and j: "j \<le> length (buffered_bytes (c_iobs s f) n)"
  shows "got s (take j (buffered_bytes (c_iobs s f) n)) (advance f j s)"
    "err (advance f j s) = err s" "length (buffered_bytes (c_iobs s f) n) \<le> n"
proof -
  have bb: "buffered_bytes (c_iobs s f) n = take n (ahead (c_iobs s f))"
    by (rule buffered_bytes_ahead) (use r in \<open>simp add: reading_def\<close>)
  with j have j': "j \<le> n" "j \<le> length (ahead (c_iobs s f))" by auto
  show "got s (take j (buffered_bytes (c_iobs s f) n)) (advance f j s)"
    unfolding bb using advance_got [OF inv r j'(2)] j'(1) by (simp add: min_absorb1)
  show "err (advance f j s) = err s" by (rule advance_read(5) [OF r j'(2)])
  show "length (buffered_bytes (c_iobs s f) n) \<le> n" unfolding bb by simp
qed

lemma line_found:
  assumes inv: "inv s" and r: "reading (c_iobs s f)" and ne: "\<not> err s"
    and j: "find_byte 10 (buffered_bytes (c_iobs s f) n) = Some j"
  defines "bs \<equiv> buffered_bytes (c_iobs s f) n"
  shows "line_result s mem k n (True, (mem_splice mem k (take (j + 1) bs))[k + (j + 1) := 0], advance f (j + 1) s)"
proof -
  have jl: "j + 1 \<le> length bs" using find_byte_less [OF j] by (simp add: bs_def)
  note g = buffered_got [OF inv r jl [unfolded bs_def], folded bs_def]
  have "bs = take n (ahead (c_iobs s f))"
    unfolding bs_def by (rule buffered_bytes_ahead) (use r in \<open>simp add: reading_def\<close>)
  then have "unread rest f s = bs @ (drop n (ahead (c_iobs s f)) @ rest s)"
    by (simp only: unread_def append_assoc [symmetric] append_take_drop_id)
  then have "line_of n (unread rest f s) = take (j + 1) bs"
    using line_of_found [OF j [folded bs_def] g(3)] by simp
  moreover have "length (take (j + 1) bs) = j + 1" using jl by simp
  ultimately show ?thesis
    using g ne jl by (intro case_prodI exI [of _ "take (j + 1) bs"]) auto
qed

text \<open>After the buffer was copied: the next byte decides.\<close>

lemma line_byte:
  assumes inv: "inv s" and r: "reading (c_iobs s f)" and ne: "\<not> err s" and k: "k < length mem"
    and gc: "getc_macro E f s = (c, t)"
    and rec: "\<And>b. got s [b] t \<Longrightarrow> \<not> err t \<Longrightarrow>
      line_result t (mem_splice mem k [b]) (k + 1) n (fgets_loop E f (mem_splice mem k [b]) (k + 1) n t)"
  shows "line_result s mem k (Suc n)
     (if c = EOF then (\<not> err t \<and> k \<noteq> 0, mem[k := 0], t)
      else if c = 10 then (True, (mem[k := 10])[k + 1 := 0], t)
      else fgets_loop E f (mem[k := word_of_int c]) (k + 1) n t)"
proof (cases "c = EOF")
  case True
  with getc_result [OF inv r gc] ne
  have g: "got s [] t" and fin: "err t \<or> \<not> err t \<and> unread rest f s = []" by auto
  then have "line_result s mem k (Suc n) (\<not> err t \<and> k \<noteq> 0, mem[k := 0], t)"
    by (intro line_here) auto
  with True show ?thesis by simp
next
  case False
  with getc_result [OF inv r gc] obtain b where b: "c = uint b" and g: "got s [b] t" and et: "\<not> err t"
    using ne by auto
  have w: "word_of_int c = b" using b by simp
  have m: "mem[k := b] = mem_splice mem k [b]" by (rule mem_splice_single [OF k, symmetric])
  have un: "unread rest f s = b # unread rest f t" using g by simp
  have pre: "line_result s mem k (Suc n) x"
    if "line_result t (mem_splice mem k [b]) (k + 1) m x" "m \<le> n"
      "line_of (Suc n) (unread rest f s) = [b] @ line_of m (unread rest f t)" for m x
    by (rule line_prepend [OF g _ _ _ that(3)]) (use that k in auto)
  show ?thesis
  proof (cases "b = 10")
    case True
    have "line_result t (mem_splice mem k [b]) (k + 1) 0 (True, (mem_splice mem k [b])[k + 1 := 0], t)"
      by (rule line_here) (use g et in auto)
    from pre [OF this] have "line_result s mem k (Suc n) (True, (mem[k := 10])[k + 1 := 0], t)"
      unfolding un using True m by simp
    with b True show ?thesis by simp
  next
    case b10: False
    have "c \<noteq> 10" using b b10 by (metis word_of_int_uint word_of_int_numeral)
    with False w m pre [OF rec [OF g et]] show ?thesis unfolding un using b10 by simp
  qed
qed

lemma fgets_loop_result:
  "inv s \<Longrightarrow> reading (c_iobs s f) \<Longrightarrow> \<not> err s \<Longrightarrow> k + n < length mem \<Longrightarrow>
    line_result s mem k n (fgets_loop E f mem k n s)"
proof (induction n arbitrary: mem k s rule: less_induct)
  case (less n)
  note inv = less.prems(1) and r = less.prems(2) and ne = less.prems(3) and len = less.prems(4)
  let ?bs = "buffered_bytes (c_iobs s f) n"
  consider (zero) "n = 0" | (found) j where "n \<noteq> 0" "find_byte 10 ?bs = Some j"
    | (copy) "n \<noteq> 0" "find_byte 10 ?bs = None" by (cases "find_byte 10 ?bs") auto
  then show ?case
  proof cases
    case zero
    then have "line_result s mem k n (True, mem[k := 0], s)"
      by (intro line_here) (use inv r ne in auto)
    with zero show ?thesis by (simp add: fgets_loop.simps)
  next
    case found
    with line_found [OF inv r ne found(2)] show ?thesis
      by (subst fgets_loop.simps) (simp add: Let_def)
  next
    case copy
    let ?k = "k + length ?bs" and ?n = "n - length ?bs" and ?s = "advance f (length ?bs) s"
    let ?mem = "mem_splice mem k ?bs"
    note g = buffered_got [OF inv r order_refl, of n]
    have gs: "got s ?bs ?s" and es: "\<not> err ?s" using g ne by auto
    have lo: "line_of n (unread rest f s) = ?bs @ line_of ?n (unread rest f ?s)"
      using line_of_not_found [OF copy(2) g(3)] gs by simp
    have ml: "length ?mem = length mem" by (rule length_mem_splice) (use len g(3) in simp)
    obtain c t where gc: "getc_macro E f ?s = (c, t)" by (meson surj_pair)
    have step: "fgets_loop E f mem k n s =
        (if ?n = 0 then (True, ?mem[?k := 0], ?s)
         else if c = EOF then (\<not> err t \<and> ?k \<noteq> 0, ?mem[?k := 0], t)
         else if c = 10 then (True, (?mem[?k := 10])[?k + 1 := 0], t)
         else fgets_loop E f (?mem[?k := word_of_int c]) (?k + 1) (?n - 1) t)"
      using copy gc
      by (subst fgets_loop.simps) (simp add: Let_def ferror_r_def stream_error_def split: bool.split)
    have rest_of: "line_result ?s ?mem ?k ?n (fgets_loop E f mem k n s)"
    proof (cases ?n)
      case 0
      then show ?thesis unfolding step using line_here [of ?s ?s 0 True ?k ?mem] gs es by simp
    next
      case (Suc m)
      have "line_result ?s ?mem ?k (Suc m)
         (if c = EOF then (\<not> err t \<and> ?k \<noteq> 0, ?mem[?k := 0], t)
          else if c = 10 then (True, (?mem[?k := 10])[?k + 1 := 0], t)
          else fgets_loop E f (?mem[?k := word_of_int c]) (?k + 1) m t)"
        by (rule line_byte [OF _ _ es _ gc less.IH]) (use gs ml len Suc in auto)
      then show ?thesis unfolding step Suc by (simp only: Suc_not_Zero if_False diff_Suc_1)
    qed
    show ?thesis
      by (rule line_prepend [OF gs _ _ _ lo rest_of]) (use g(3) len copy(1) in auto)
  qed
qed

lemma fgets_result:
  assumes inv: "inv s" and r: "reading (c_iobs s f)" and n: "0 < n" "n \<le> int (length mem)"
  shows "\<exists>ok s' l. fgets E (Some mem) n (Some f) s = Some (ok, Some (mem_splice mem 0 (l @ [0])), s') \<and>
    got s l s' \<and> length l < nat n \<and>
    (\<not> err s' \<and> l = line_of (nat n - 1) (unread rest f s) \<and> ok = (n = 1 \<or> l \<noteq> []) \<or> err s' \<and> \<not> ok)"
proof -
  let ?l = "flockfile_r E (Some f) s"
  let ?c = "clearerr_r (Some f) ?l"
  have gl: "got s [] ?l" by (rule flags_got [OF inv r flockfile_read(1)])
  have gc: "got s [] ?c" by (rule got_flags [OF gl clearerr_read(1)])
  have ne: "\<not> err ?c" using clearerr_read(2) gl by blast
  obtain ok mem' t where lp: "fgets_loop E f mem 0 (nat n - 1) ?c = (ok, mem', t)" by (metis surj_pair)
  have "line_result ?c mem 0 (nat n - 1) (ok, mem', t)"
    unfolding lp [symmetric] by (rule fgets_loop_result) (use gc ne n in auto)
  then obtain l where l: "got ?c l t" "length l \<le> nat n - 1" "mem' = (mem_splice mem 0 l)[length l := 0]"
    "\<not> err t \<and> l = line_of (nat n - 1) (unread rest f ?c) \<and> ok = (nat n - 1 = 0 \<or> length l \<noteq> 0) \<or> err t \<and> \<not> ok"
    by auto
  let ?u = "funlockfile_r E (Some f) t"
  have "mem' = mem_splice mem 0 (l @ [0])"
    unfolding l(3) using mem_splice_snoc [of 0 l mem 0] l(2) n by simp
  then have eq: "fgets E (Some mem) n (Some f) s = Some (ok, Some (mem_splice mem 0 (l @ [0])), ?u)"
    using n lp gl fgetc_check_reading [of ?l] by (simp add: fgets_def)
  have "got s ([] @ l) t" by (rule got_trans [OF gc l(1)])
  then have "got s l t" by simp
  then have gu: "got s l ?u" using got_flags [OF _ funlockfile_read(1)] by blast
  have "err ?u = err t" by (rule funlockfile_read(2))
  moreover have "nat n - 1 = 0 \<longleftrightarrow> n = 1" using n by auto
  ultimately show ?thesis
    using eq gu l(2,4) gc n by (intro exI [of _ ok] exI [of _ ?u] exI [of _ l]) auto
qed

text \<open>A byte that was read can be pushed back.\<close>

lemma fgetc_position:
  assumes "fgetc E (Some f) s = (c, s')" and "c \<noteq> EOF"
  shows "0 < iob_BufferPosition (c_iobs s' f)"
  using assms
  by (auto simp: fgetc_def getc_macro_def fgetc_fill_def Let_def split: prod.splits if_splits)

lemma ungetc_result:
  assumes inv: "inv s" and r: "reading (c_iobs s f)" and p: "0 < iob_BufferPosition (c_iobs s f)"
    and c: "c \<noteq> EOF" and u: "ungetc_r E c (Some f) s = (x, s')"
  shows "x = c mod 256 \<and> inv s' \<and> reading (c_iobs s' f) \<and> same_buffering (c_iobs s f) (c_iobs s' f) \<and>
    unread rest f s' = word_of_int c # unread rest f s \<and> err s' = err s"
proof -
  let ?l = "flockfile_r E (Some f) s"
  let ?b = "word_of_int c :: byte"
  let ?t = "upd_iob f (\<lambda>i. i\<lparr>iob_BufferPosition := iob_BufferPosition i - 1,
      iob_Buffer := (iob_Buffer i)[iob_BufferPosition i - 1 := ?b]\<rparr>) (clear_iob_flag f IOBF_EOF_REACHED ?l)"
  have gl: "got s [] ?l" by (rule flags_got [OF inv r flockfile_read(1)])
  have el: "err ?l = err s" by (rule flockfile_read(2))
  have eq: "x = c mod 256" "s' = funlockfile_r E (Some f) ?t"
    using u gl p c by (simp_all add: ungetc_r_def Let_def reading_def iob_write_buffer_is_valid_def)
  have fr: "sink_frame f ?l ?t" by (simp add: sink_frame_def sink_part_def)
  obtain q where q: "iob_BufferPosition (c_iobs ?l f) = Suc q" using p by (cases "iob_BufferPosition (c_iobs ?l f)") auto
  have ok: "iob_ok (c_iobs ?l f)" using gl by (simp add: reading_def)
  have "ahead (c_iobs ?t f) = ?b # ahead (c_iobs ?l f)"
    using ok q by (simp add: ahead_def iob_ok_def drop_take_nth [of q] drop_take [of "Suc q"])
  moreover have "reading (c_iobs ?t f)" "same_buffering (c_iobs ?l f) (c_iobs ?t f)" "err ?t = err ?l"
    using gl q by (auto simp: reading_def iob_ok_def iob_mode_def same_buffering_def stream_error_def flag_simps)
  ultimately have t: "inv ?t" "reading (c_iobs ?t f)" "same_buffering (c_iobs s f) (c_iobs ?t f)"
    "unread rest f ?t = ?b # unread rest f s" "err ?t = err s"
    using frame [OF fr] gl el by (auto simp: unread_def intro: same_buffering_trans)
  from flags_got [OF t(1,2) funlockfile_read(1)] t show ?thesis
    unfolding eq using funlockfile_read(2) [of E f ?t] by (auto intro: same_buffering_trans)
qed

lemma ferror_flags:
  assumes "ferror_r E (Some f) True s = (b, s')"
  shows "b = err s \<and> flags_only f s s' \<and> err s' = err s"
proof -
  obtain l t where tr: "ftrylockfile_r E (Some f) s = (l, t)" by (meson surj_pair)
  have t: "flags_only f s t" "err t = err s" using ftrylockfile_read [where f = f and s = s and E = E] tr by simp_all
  have u: "flags_only f t (funlockfile_r E (Some f) t)" "err (funlockfile_r E (Some f) t) = err t"
    by (rule funlockfile_read)+
  have "flags_only f s (funlockfile_r E (Some f) t)"
    using t(1) u(1) by (auto simp: flags_only_def intro: sink_frame_trans same_buffering_trans)
  with t u assms tr show ?thesis by (auto simp: ferror_r_def stream_error_def split: if_splits)
qed

text \<open>\<open>getdelim\<close> ends, with the line up to the delimiter stored after what was there before.\<close>

lemma getdelim_loop_result:
  assumes re: "realloc_ok realloc"
  shows "inv s \<Longrightarrow> reading (c_iobs s f) \<Longrightarrow> line_ok line sz pre \<Longrightarrow>
    \<exists>n line' sz' s' l. getdelim_loop E realloc d (Some f) line sz (length pre) s = Some (n, line', sz', s') \<and>
      got s l s' \<and>
      (n = int (length (pre @ l)) \<and> pre @ l \<noteq> [] \<and> l = delim_of d (unread rest f s) \<and>
         (\<exists>mem. line' = Some mem \<and> take (length (pre @ l) + 1) mem = pre @ l @ [0]) \<or>
       n = - 1 \<and> (err s' \<or> pre @ unread rest f s = [] \<or> (\<exists>line n x. fst (realloc line n x) = None)))"
proof (induction "length (unread rest f s)" arbitrary: s line sz pre rule: less_induct)
  case less
  note inv = less.prems(1) and r = less.prems(2) and lok = less.prems(3)
  obtain ok line1 sz1 s1 where gr: "getdelim_grow realloc line sz (length pre) s = (ok, line1, sz1, s1)"
    by (metis surj_pair)
  note grow = getdelim_grow_result [OF re lok gr, of f]
  have g1: "got s [] s1" using grow frame [of s s1] inv r by (simp add: unread_def)
  show ?case
  proof (cases ok)
    case False
    then have "getdelim_loop E realloc d (Some f) line sz (length pre) s = Some (- 1, line1, sz1, s1)"
      using gr by (subst getdelim_loop.simps) simp
    then show ?thesis using g1 grow False by blast
  next
    case True
    with grow obtain mem where mem: "line1 = Some mem" "sz1 \<le> length mem" "length pre + 1 < sz1"
      "take (length pre) mem = pre" by blast
    obtain c t where gc: "fgetc E (Some f) s1 = (c, t)" by (meson surj_pair)
    have nb: "next_byte s1 c t" by (rule fgetc_result [OF _ _ gc]) (use g1 in auto)
    have un: "unread rest f s1 = unread rest f s" using g1 by simp
    obtain e u where fe: "ferror_r E (Some f) True t = (e, u)" by (meson surj_pair)
    have step: "getdelim_loop E realloc d (Some f) line sz (length pre) s =
        (if c = - 1
         then if pre = [] then Some (- 1, line1, sz1, t)
           else if e then Some (- 1, line1, sz1, u) else Some (int (length pre), Some (mem[length pre := 0]), sz1, u)
         else if c = d
         then Some (int (length pre) + 1, Some ((mem[length pre := word_of_int c])[length pre + 1 := 0]), sz1, t)
         else getdelim_loop E realloc d (Some f) (Some (mem[length pre := word_of_int c])) sz1 (length pre + 1) t)"
      using gr True mem gc fe by (subst getdelim_loop.simps) (simp split: bool.split)
    have snoc: "take (Suc (length pre)) (mem[length pre := b]) = pre @ [b]" for b
      using mem by (simp add: take_Suc_update)
    show ?thesis
    proof (cases "c = - 1")
      case True
      with nb have gt: "got s1 [] t" and fin: "err t \<or> unread rest f s1 = []" by auto
      have "got s ([] @ []) t" by (rule got_trans [OF g1 gt])
      then have gs: "got s [] t" by simp
      then have gu: "got s [] u" using got_flags ferror_flags [OF fe] by blast
      show ?thesis
        unfolding step using True fin un gs gu ferror_flags [OF fe] snoc [of 0]
        by (auto intro!: exI [of _ "[]"])
    next
      case False
      with nb obtain b where b: "c = uint b" and gt: "got s1 [b] t" by auto
      have "got s ([] @ [b]) t" by (rule got_trans [OF g1 gt])
      then have gs: "got s [b] t" by simp
      have w: "word_of_int c = b" using b by simp
      show ?thesis
      proof (cases "c = d")
        case True
        have "take (length (pre @ [b]) + 1) ((mem[length pre := b])[length pre + 1 := 0]) = (pre @ [b]) @ [0]"
          using mem snoc [of b] take_Suc_update [of "length pre + 1" "mem[length pre := b]" 0] by simp
        then show ?thesis
          unfolding step using True False w gs b by (intro exI [of _ "[b]"] exI) auto
      next
        case cd: False
        have shrink: "length (unread rest f t) < length (unread rest f s)" using gs by simp
        have lok': "line_ok (Some (mem[length pre := b])) sz1 (pre @ [b])"
          using mem snoc [of b] by (simp add: line_ok_def)
        from less.hyps [OF shrink _ _ lok'] gs obtain n line' sz' s' l
          where lp: "getdelim_loop E realloc d (Some f) (Some (mem[length pre := b])) sz1 (length (pre @ [b])) t =
              Some (n, line', sz', s')" and gl: "got t l s'"
            and out: "n = int (length ((pre @ [b]) @ l)) \<and> l = delim_of d (unread rest f t) \<and>
              (\<exists>mem. line' = Some mem \<and> take (length ((pre @ [b]) @ l) + 1) mem = (pre @ [b]) @ l @ [0]) \<or>
              n = - 1 \<and> (err s' \<or> (\<exists>line n x. fst (realloc line n x) = None))"
          by fastforce
        have eq: "getdelim_loop E realloc d (Some f) line sz (length pre) s = Some (n, line', sz', s')"
          unfolding step using False cd w lp by simp
        have gbl: "got s ([b] @ l) s'" by (rule got_trans [OF gs gl])
        have "delim_of d (unread rest f s) = [b] @ delim_of d (unread rest f t)"
          using gs b cd by simp
        then show ?thesis
          using eq gbl out by (intro exI [of _ n] exI [of _ line'] exI [of _ sz'] exI [of _ s'] exI [of _ "[b] @ l"]) auto
      qed
    qed
  qed
qed

end

section \<open>Streams of files\<close>

text \<open>
  A stream of a file reads large blocks past its buffer, with \<^verbatim>\<open>read()\<close> on its descriptor,
  which makes the same promise.
\<close>

locale file_source = read_source E f inv rest
  for E :: "('x, 'd) env" and f :: nat
    and inv :: "('x, 'd) clib4 \<Rightarrow> bool" and rest :: "('x, 'd) clib4 \<Rightarrow> byte list" +
  assumes read_call:
    "inv s \<Longrightarrow> 0 < n \<Longrightarrow> n \<le> length buf \<Longrightarrow> n < 2 ^ 31 \<Longrightarrow>
      \<exists>k buf' s'. read E (iob_Descriptor (c_iobs s f)) (Some buf) n s = Some (k, Some buf', s') \<and>
        inv s' \<and> buffer_part (c_iobs s' f) = buffer_part (c_iobs s f) \<and>
        (k = - 1 \<and> buf' = buf \<and> rest s' = rest s \<or>
         k = int (length (take n (rest s))) \<and> buf' = mem_splice buf 0 (take n (rest s)) \<and>
         rest s' = drop n (rest s))"
begin

text \<open>What \<^verbatim>\<open>fread\<close> stores: as many bytes as asked for and left, or fewer after an error.\<close>

abbreviation block_result ::
  "('x, 'd) clib4 \<Rightarrow> byte list \<Rightarrow> nat \<Rightarrow> nat \<Rightarrow> (bool \<times> byte list \<times> nat \<times> ('x, 'd) clib4) option \<Rightarrow> bool" where
  "block_result s mem k n x \<equiv>
     \<exists>ok s' bs. x = Some (ok, mem_splice mem k bs, k + length bs, s') \<and> got s bs s' \<and> length bs \<le> n \<and>
       (\<not> err s' \<and> ok \<and> bs = take n (unread rest f s) \<or> err s')"

lemma block_prepend:
  assumes g: "got s as t" and k: "k \<le> length mem" and n: "n = length as + m"
    and x: "block_result t (mem_splice mem k as) (k + length as) m x"
  shows "block_result s mem k n x"
proof -
  from x obtain ok u bs where x: "x = Some (ok, mem_splice (mem_splice mem k as) (k + length as) bs, k + length as + length bs, u)"
    and gu: "got t bs u" and l: "length bs \<le> m" and out: "\<not> err u \<and> ok \<and> bs = take m (unread rest f t) \<or> err u"
    by blast
  have "x = Some (ok, mem_splice mem k (as @ bs), k + length (as @ bs), u)"
    unfolding x mem_splice_append [OF k] by (simp add: add.assoc)
  moreover have "got s (as @ bs) u" by (rule got_trans [OF g gu])
  moreover have "unread rest f s = as @ unread rest f t" using g by simp
  ultimately show ?thesis using l n out by (intro exI [of _ ok] exI [of _ u] exI [of _ "as @ bs"]) auto
qed

lemma block_here:
  assumes "got s [] t" and "\<not> err t \<and> ok \<and> take n (unread rest f s) = [] \<or> err t"
  shows "block_result s mem k n (Some (ok, mem, k, t))"
  using assms by (intro exI [of _ ok] exI [of _ t] exI [of _ "[]"]) (auto simp: mem_splice_def)

text \<open>The bytes that bypass the buffer.\<close>

lemma block_bypass:
  assumes inv: "inv s" and r: "reading (c_iobs s f)" and ne: "\<not> err s" and e: "ahead (c_iobs s f) = []"
    and n: "0 < n" "k + n \<le> length mem" "n < 2 ^ 31"
  shows "\<exists>x buf t. read E (iob_Descriptor (c_iobs s f)) (Some (drop k mem)) n s = Some (x, Some buf, t) \<and>
    block_result s mem k n
      (if x = - 1 then Some (False, take k mem @ buf, k, set_iob_flag f IOBF_ERROR t)
       else Some (True, take k mem @ buf, k + nat x, if x = 0 then set_iob_flag f IOBF_EOF_REACHED t else t))"
proof -
  have "n \<le> length (drop k mem)" using n by simp
  from read_call [OF inv n(1) this n(3)] obtain x buf t
    where rd: "read E (iob_Descriptor (c_iobs s f)) (Some (drop k mem)) n s = Some (x, Some buf, t)"
      and t: "inv t" "buffer_part (c_iobs t f) = buffer_part (c_iobs s f)"
      and cases: "x = - 1 \<and> buf = drop k mem \<and> rest t = rest s \<or>
        x = int (length (take n (rest s))) \<and> buf = mem_splice (drop k mem) 0 (take n (rest s)) \<and>
        rest t = drop n (rest s)" by blast
  have t': "reading (c_iobs t f)" "same_buffering (c_iobs s f) (c_iobs t f)" "ahead (c_iobs t f) = []" "\<not> err t"
    using t(2) r e ne
    by (auto simp: buffer_part_def reading_def iob_ok_def iob_mode_def same_buffering_def ahead_def stream_error_def)
  show ?thesis
  proof (cases "x = - 1")
    case True
    with cases have "got s [] t" "buf = drop k mem" using t t' e by (auto simp: unread_def)
    moreover have "got s [] (set_iob_flag f IOBF_ERROR t)"
      by (rule got_flags [OF \<open>got s [] t\<close> set_flag_read(1)])
    ultimately have "block_result s mem k n (Some (False, mem, k, set_iob_flag f IOBF_ERROR t))"
      by (intro block_here) (auto simp: stream_error_def flag_simps)
    with rd True \<open>buf = drop k mem\<close> show ?thesis by simp
  next
    case False
    let ?bs = "take n (rest s)"
    let ?u = "if x = 0 then set_iob_flag f IOBF_EOF_REACHED t else t"
    from False cases have c: "x = int (length ?bs)" "buf = mem_splice (drop k mem) 0 ?bs" "rest t = drop n (rest s)"
      by auto
    have g: "got s ?bs t" using t t' e c(3) by (simp add: unread_def)
    have gu: "got s ?bs ?u" using g got_flags [OF g set_flag_read(2)] by simp
    have eu: "\<not> err ?u" using t'(4) by simp
    have "take k mem @ buf = mem_splice mem k ?bs"
      unfolding c(2) using n by (simp add: mem_splice_def ac_simps)
    moreover have "unread rest f s = rest s" using e by (simp add: unread_def)
    ultimately have "block_result s mem k n (Some (True, take k mem @ buf, k + nat x, ?u))"
      using gu eu c(1) by (intro exI [of _ True] exI [of _ ?u] exI [of _ ?bs]) auto
    with rd False show ?thesis by simp
  qed
qed

lemma fread_loop_result:
  "inv s \<Longrightarrow> reading (c_iobs s f) \<Longrightarrow> \<not> err s \<Longrightarrow> k + n \<le> length mem \<Longrightarrow> n < 2 ^ 31 \<Longrightarrow>
    block_result s mem k n (fread_loop E f mem k n s)"
proof (induction n arbitrary: mem k s rule: less_induct)
  case (less n)
  note inv = less.prems(1) and r = less.prems(2) and ne = less.prems(3) and len = less.prems(4,5)
  consider (zero) "n = 0" | (bypass) "n \<noteq> 0" "iob_BufferReadBytes (c_iobs s f) = 0" "n \<ge> iob_BufferSize (c_iobs s f)"
    | (copy) "n \<noteq> 0" "\<not> (iob_BufferReadBytes (c_iobs s f) = 0 \<and> n \<ge> iob_BufferSize (c_iobs s f))" by argo
  then show ?case
  proof cases
    case zero
    then have "fread_loop E f mem k n s = Some (True, mem, k, s)" by (simp add: fread_loop.simps)
    moreover have "block_result s mem k n (Some (True, mem, k, s))"
      by (rule block_here) (use zero inv r ne in auto)
    ultimately show ?thesis by simp
  next
    case bypass
    have "ahead (c_iobs s f) = []" using bypass by (simp add: ahead_def)
    from block_bypass [OF inv r ne this] bypass(1) len obtain x buf t
      where "read E (iob_Descriptor (c_iobs s f)) (Some (drop k mem)) n s = Some (x, Some buf, t)"
        and b: "block_result s mem k n
      (if x = - 1 then Some (False, take k mem @ buf, k, set_iob_flag f IOBF_ERROR t)
       else Some (True, take k mem @ buf, k + nat x, if x = 0 then set_iob_flag f IOBF_EOF_REACHED t else t))"
      by blast
    then have eq: "fread_loop E f mem k n s =
      (if x = - 1 then Some (False, take k mem @ buf, k, set_iob_flag f IOBF_ERROR t)
       else Some (True, take k mem @ buf, k + nat x, if x = 0 then set_iob_flag f IOBF_EOF_REACHED t else t))"
      using bypass by (subst fread_loop.simps) (simp add: Let_def)
    show ?thesis unfolding eq by (rule b)
  next
    case copy
    let ?bs = "buffered_bytes (c_iobs s f) n"
    let ?k = "k + length ?bs" and ?n = "n - length ?bs" and ?s = "advance f (length ?bs) s"
    let ?mem = "mem_splice mem k ?bs"
    note g = buffered_got [OF inv r order_refl, of n]
    have gs: "got s ?bs ?s" and es: "\<not> err ?s" using g ne by auto
    have ml: "length ?mem = length mem" by (rule length_mem_splice) (use len g(3) in simp)
    obtain c t where gc: "getc_macro E f ?s = (c, t)" by (meson surj_pair)
    have step: "fread_loop E f mem k n s =
        (if ?n = 0 then Some (True, ?mem, ?k, ?s)
         else if c = EOF then Some (True, ?mem, ?k, t)
         else fread_loop E f (?mem[?k := word_of_int c]) (?k + 1) (?n - 1) t)"
      by (subst fread_loop.simps) (simp only: if_not_P [OF copy(1)] if_not_P [OF copy(2)] Let_def gc prod.case)
    have nb: "next_byte ?s c t" by (rule getc_result [OF _ _ gc]) (use gs in auto)
    have rest_of: "block_result ?s ?mem ?k ?n (fread_loop E f mem k n s)"
    proof (cases "?n = 0 \<or> c = EOF")
      case True
      have h: "block_result ?s ?mem ?k ?n (Some (True, ?mem, ?k, u))"
        if "got ?s [] u" "\<not> err u \<and> take ?n (unread rest f ?s) = [] \<or> err u" for u
        by (rule block_here) (use that in auto)
      show ?thesis
      proof (cases "?n = 0")
        case True
        have "block_result ?s ?mem ?k ?n (Some (True, ?mem, ?k, ?s))" by (rule h) (use gs es True in auto)
        then show ?thesis unfolding step if_P [OF True] .
      next
        case False
        with True have c: "c = EOF" by simp
        have "block_result ?s ?mem ?k ?n (Some (True, ?mem, ?k, t))" by (rule h) (use nb c es in auto)
        then show ?thesis unfolding step if_not_P [OF False] if_P [OF c] .
      qed
    next
      case False
      with nb es obtain b where b: "c = uint b" and gt: "got ?s [b] t" and et: "\<not> err t" by auto
      have m: "?mem[?k := word_of_int c] = mem_splice ?mem ?k [b]"
        using mem_splice_single [of ?k ?mem b] b ml len False by simp
      have "block_result t (mem_splice ?mem ?k [b]) (?k + length [b]) (?n - 1)
          (fread_loop E f (mem_splice ?mem ?k [b]) (?k + length [b]) (?n - 1) t)"
      proof (rule less.IH)
        show "?n - 1 < n" using copy(1) by simp
        show "?k + length [b] + (?n - 1) \<le> length (mem_splice ?mem ?k [b])"
          using len(1) ml False by simp
      qed (use gt et len in auto)
      then have "block_result ?s ?mem ?k ?n (fread_loop E f (mem_splice ?mem ?k [b]) (?k + length [b]) (?n - 1) t)"
        by (intro block_prepend [OF gt]) (use ml len False in auto)
      then show ?thesis unfolding step using False m by simp
    qed
    show ?thesis by (rule block_prepend [OF gs _ _ rest_of]) (use len g(3) in auto)
  qed
qed

lemma fread_internal_result:
  assumes inv: "inv s" and r: "reading (c_iobs s f)" and mode: "iob_mode (c_iobs s f) \<noteq> IOBF_BUFFER_MODE_NONE"
    and n: "0 < es" "0 < count" "es * count < 2 ^ 31" "es * count \<le> length mem"
  shows "\<exists>x s' bs. fread_internal E (Some mem) es count (Some f) s = Some (x, Some (mem_splice mem 0 bs), s') \<and>
    got s bs s' \<and> length bs \<le> es * count \<and> x * es \<le> length bs \<and>
    (\<not> err s' \<and> bs = take (es * count) (unread rest f s) \<and> x = length bs div es \<or> err s')"
proof -
  let ?n = "es * count"
  obtain l s1 where tr: "ftrylockfile_r E (Some f) s = (l, s1)" by (meson surj_pair)
  let ?c = "clearerr_r (Some f) s1"
  have g1: "got s [] s1"
    using flags_got [OF inv r ftrylockfile_read(1)] tr by (metis snd_conv)
  have gc: "got s [] ?c" by (rule got_flags [OF g1 clearerr_read(1)])
  have ne: "\<not> err ?c" using clearerr_read(2) g1 by blast
  have "?n < 2 ^ 32" using n(3) by simp
  then have sz: "size_mult es count = ?n" "?n div count = es" using n(2) by (simp_all add: size_mult_id)
  have "block_result ?c mem 0 ?n (fread_loop E f mem 0 ?n ?c)"
    by (rule fread_loop_result) (use gc ne n in auto)
  from this [unfolded add_0] obtain ok t bs where lp: "fread_loop E f mem 0 ?n ?c = Some (ok, mem_splice mem 0 bs, length bs, t)"
    and gt: "got ?c bs t" and len: "length bs \<le> ?n"
    and out: "\<not> err t \<and> ok \<and> bs = take ?n (unread rest f ?c) \<or> err t"
    by blast
  let ?u = "if l = OK then funlockfile_r E (Some f) t else t" and ?x = "if ok then length bs div es else 0"
  have md: "iob_mode (c_iobs ?c f) \<noteq> IOBF_BUFFER_MODE_NONE" using gc mode by (simp add: same_buffering_def)
  have "FLAG_IS_CLEAR (iob_Flags (c_iobs s1 f)) IOBF_IN_USE = False"
    "FLAG_IS_CLEAR (iob_Flags (c_iobs s1 f)) IOBF_READ = False" using g1 by (simp_all add: reading_def)
  then have eq: "fread_internal E (Some mem) es count (Some f) s = Some (?x, Some (mem_splice mem 0 bs), ?u)"
    using n sz lp tr md fgetc_check_reading [of ?c] gc
    by (simp add: fread_internal_def Let_def del: upd_iob_def)
  have "got s ([] @ bs) t" by (rule got_trans [OF gc gt])
  then have gs: "got s bs t" by simp
  have gu: "got s bs ?u" using gs got_flags [OF gs funlockfile_read(1)] by simp
  have eu: "err ?u = err t" using funlockfile_read(2) [where E = E and f = f and s = t] by simp
  have "?x * es \<le> length bs" by simp
  with eq gu len out eu gc show ?thesis
    by (intro exI [of _ ?x] exI [of _ ?u] exI [of _ bs]) auto
qed

lemma fread_result:
  assumes inv: "inv s" and r: "reading (c_iobs s f)" and mode: "iob_mode (c_iobs s f) \<noteq> IOBF_BUFFER_MODE_NONE"
    and le: "\<not> FLAG_IS_SET (iob_Flags (c_iobs s f)) IOBF_LITTLE_ENDIAN"
    and n: "0 < es" "0 < count" "es * count < 2 ^ 31" "es * count \<le> length mem"
  shows "\<exists>x s' bs. fread E (Some mem) es count (Some f) s = Some (x, Some (mem_splice mem 0 bs), s') \<and>
    got s bs s' \<and> length bs \<le> es * count \<and> x * es \<le> length bs \<and>
    (\<not> err s' \<and> bs = take (es * count) (unread rest f s) \<and> x = length bs div es \<or> err s')"
proof -
  from fread_internal_result [OF inv r mode n] obtain x s' bs
    where i: "fread_internal E (Some mem) es count (Some f) s = Some (x, Some (mem_splice mem 0 bs), s')"
      and g: "got s bs s'" and out: "length bs \<le> es * count \<and> x * es \<le> length bs \<and>
    (\<not> err s' \<and> bs = take (es * count) (unread rest f s) \<and> x = length bs div es \<or> err s')" by blast
  have "\<not> FLAG_IS_SET (iob_Flags (c_iobs s' f)) IOBF_LITTLE_ENDIAN" using g le by (simp add: same_buffering_def)
  then have "fread E (Some mem) es count (Some f) s = Some (x, Some (mem_splice mem 0 bs), s')"
    using i by (simp add: fread_def Let_def)
  with g out show ?thesis by blast
qed

end

section \<open>The string of \<^verbatim>\<open>sscanf\<close> is a source\<close>

definition sscanf_stream :: "nat \<Rightarrow> ('x, 'd) clib4 \<Rightarrow> bool" where
  "sscanf_stream f s \<longleftrightarrow> iob_Action (c_iobs s f) = sscanf_hook \<and>
     iob_StringLength (c_iobs s f) \<le> length (iob_String (c_iobs s f))"

definition sscanf_rest :: "nat \<Rightarrow> ('x, 'd) clib4 \<Rightarrow> byte list" where
  "sscanf_rest f s = drop (iob_StringPosition (c_iobs s f)) (take (iob_StringLength (c_iobs s f)) (iob_String (c_iobs s f)))"

interpretation sscanf: read_source E f "sscanf_stream f" "sscanf_rest f"
  for E :: "('x, 'd) env" and f :: nat
proof
  fix s s' :: "('x, 'd) clib4" and m m' n
  assume s: "sscanf_stream f s" and m: "fam_Action m = file_action_read"
    and sz: "0 < fam_Size m" "fam_Size m \<le> length (fam_Data m)"
    and act: "iob_action E s f m = (n, m', s')"
  let ?i = "c_iobs s f"
  let ?left = "iob_StringLength ?i - iob_StringPosition ?i"
  have rest: "sscanf_rest f s = take ?left (drop (iob_StringPosition ?i) (iob_String ?i))"
    by (simp add: sscanf_rest_def drop_take)
  show "sscanf_stream f s' \<and> buffer_part (c_iobs s' f) = buffer_part (c_iobs s f) \<and>
      (n = EOF \<and> fam_Data m' = fam_Data m \<and> sscanf_rest f s' = sscanf_rest f s \<or>
       n = int (length (take (fam_Size m) (sscanf_rest f s))) \<and>
       fam_Data m' = mem_splice (fam_Data m) 0 (take (fam_Size m) (sscanf_rest f s)) \<and>
       sscanf_rest f s' = drop (fam_Size m) (sscanf_rest f s))"
  proof (cases "iob_StringPosition ?i < iob_StringLength ?i")
    case True
    let ?k = "min (fam_Size m) ?left"
    have k: "(if fam_Size m > ?left then ?left else fam_Size m) = ?k" by (simp add: min_def)
    have eq: "n = int ?k"
      "m' = m\<lparr>fam_Data := mem_splice (fam_Data m) 0 (take ?k (drop (iob_StringPosition ?i) (iob_String ?i)))\<rparr>"
      "s' = upd_iob f (\<lambda>j. j\<lparr>iob_StringPosition := iob_StringPosition j + ?k\<rparr>) s"
      using act s m True
      by (auto simp: iob_action_def sscanf_stream_def sscanf_hook_entry_def Let_def k)
    have "take (fam_Size m) (sscanf_rest f s) = take ?k (drop (iob_StringPosition ?i) (iob_String ?i))"
      by (simp add: rest)
    moreover have "length (take (fam_Size m) (sscanf_rest f s)) = ?k"
      using s by (auto simp: rest sscanf_stream_def min_def)
    moreover have "sscanf_rest f s' = drop (fam_Size m) (sscanf_rest f s)"
      using s by (simp add: eq(3) sscanf_rest_def sscanf_stream_def ac_simps min_def)
    ultimately show ?thesis
      using s by (simp add: eq sscanf_stream_def buffer_part_def)
  next
    case False
    then have eq: "n = 0" "m' = m" "s' = s"
      using act s m by (auto simp: iob_action_def sscanf_stream_def sscanf_hook_entry_def Let_def)
    have "sscanf_rest f s = []" using False by (simp add: rest)
    then show ?thesis using s by (simp add: eq mem_splice_def)
  qed
next
  fix s s' :: "('x, 'd) clib4"
  assume "sink_frame f s s'" and "sscanf_stream f s"
  then show "sscanf_stream f s' \<and> sscanf_rest f s' = sscanf_rest f s"
    using sink_part_fields [of "c_iobs s' f" "c_iobs s f"]
    by (auto simp: sink_frame_def sscanf_stream_def sscanf_rest_def)
qed

end
