(* ===== verification/File_Read.thy ===== *)
theory File_Read
  imports Fd_Hook Stream_Read
begin

text \<open>
  Reading from the stream of a file: the read action of theory \<open>Fd_Hook\<close> keeps the contract of
  theory \<open>Stream_Read\<close> when dos.library delivers as many bytes as asked for and left, and the
  properties of \<^verbatim>\<open>fread\<close>, \<^verbatim>\<open>fgets\<close>, \<^verbatim>\<open>getdelim\<close>, \<^verbatim>\<open>fgetc\<close> and
  \<^verbatim>\<open>ungetc\<close> that follow.
\<close>

section \<open>Files are sources\<close>

text \<open>
  What \<^verbatim>\<open>Read()\<close> is documented to do for a file: it reports an error and delivers nothing, or
  it delivers what is left up to the size. \<open>avail d h\<close> is what file handle \<open>h\<close> has still to deliver.
\<close>

definition reads_all :: "('x, 'd) dos \<Rightarrow> ('d \<Rightarrow> nat \<Rightarrow> byte list) \<Rightarrow> bool" where
  "reads_all D avail \<longleftrightarrow> (\<forall>h n d. case dos_Read D h n d of (k, bs, d') \<Rightarrow>
     k = - 1 \<and> bs = [] \<and> avail d' = avail d \<or>
     k = int (length (take n (avail d h))) \<and> bs = take n (avail d h) \<and>
       avail d' = (avail d)(h := drop n (avail d h)))"

lemma reads_allD:
  assumes "reads_all D avail" and "dos_Read D h n d = (k, bs, d')"
  shows "k = - 1 \<and> bs = [] \<and> avail d' = avail d \<or>
    k = int (length (take n (avail d h))) \<and> bs = take n (avail d h) \<and> avail d' = (avail d)(h := drop n (avail d h))"
  using spec [OF spec [OF spec [OF assms(1) [unfolded reads_all_def], of h], of n], of d] assms(2)
  by simp

text \<open>An ordinary file on handle \<open>h\<close>, open for reading.\<close>

definition readable_file :: "fd \<Rightarrow> nat \<Rightarrow> bool" where
  "readable_file d h \<longleftrightarrow> fd_has_data d \<and> fd_File d = h \<and> h \<noteq> 0 \<and>
     \<not> FLAG_IS_CLEAR (fd_Flags d) FDF_IN_USE \<and> \<not> FLAG_IS_CLEAR (fd_Flags d) FDF_READ \<and>
     \<not> FLAG_IS_SET (fd_Flags d) FDF_STDIN_READ_MARK \<and> \<not> FLAG_IS_SET (fd_Flags d) FDF_STDIN_AS_SOCKET \<and>
     \<not> FLAG_IS_SET (fd_Flags d) FDF_PIPE \<and> \<not> FLAG_IS_SET (fd_Flags d) FDF_IS_SOCKET \<and>
     \<not> FLAG_IS_SET (fd_Flags d) FDF_LITTLE_ENDIAN"

definition read_stream :: "nat \<Rightarrow> nat \<Rightarrow> nat \<Rightarrow> ('x, 'd) clib4 \<Rightarrow> bool" where
  "read_stream f a h s \<longleftrightarrow> iob_Action (c_iobs s f) = iob_hook \<and>
     resolved_fd s (iob_Descriptor (c_iobs s f)) = Some a \<and> readable_file (c_fds s a) h"

lemma hook_read_plain:
  assumes w: "reads_all D avail" and p: "readable_file (c_fds s a) h"
    and r: "hook_read E D s a m = (n, m', s')"
  shows "c_iobs s' = c_iobs s \<and> c_fd s' = c_fd s \<and>
    (\<forall>b. fd_Flags (c_fds s' b) = fd_Flags (c_fds s b) \<and> fd_Original (c_fds s' b) = fd_Original (c_fds s b)) \<and>
    readable_file (c_fds s' a) h \<and>
    (n = EOF \<and> fam_Data m' = fam_Data m \<and> avail (c_dos s') = avail (c_dos s) \<or>
     n = int (length (take (fam_Size m) (avail (c_dos s) h))) \<and>
     fam_Data m' = mem_splice (fam_Data m) 0 (take (fam_Size m) (avail (c_dos s) h)) \<and>
     avail (c_dos s') = (avail (c_dos s))(h := drop (fam_Size m) (avail (c_dos s) h)))"
proof -
  obtain k bs d where rd: "dos_Read D h (fam_Size m) (c_dos s) = (k, bs, d)"
    by (metis surj_pair)
  from reads_allD [OF w rd] p r rd show ?thesis
    by (auto simp: hook_read_def Let_def readable_file_def fd_has_data_def mem_splice_def split: if_splits)
qed

lemma plain_hook_read:
  assumes w: "reads_all D avail" and p: "readable_file (c_fds s a) h" and m: "fam_Action m = file_action_read"
    and r: "env_fd_Action (hook_env E D) s a m = (n, m', s')"
  shows "c_iobs s' = c_iobs s \<and> c_fd s' = c_fd s \<and>
    (\<forall>b. fd_Flags (c_fds s' b) = fd_Flags (c_fds s b) \<and> fd_Original (c_fds s' b) = fd_Original (c_fds s b)) \<and>
    readable_file (c_fds s' a) h \<and>
    (n = EOF \<and> fam_Data m' = fam_Data m \<and> avail (c_dos s') = avail (c_dos s) \<or>
     n = int (length (take (fam_Size m) (avail (c_dos s) h))) \<and>
     fam_Data m' = mem_splice (fam_Data m) 0 (take (fam_Size m) (avail (c_dos s) h)) \<and>
     avail (c_dos s') = (avail (c_dos s))(h := drop (fam_Size m) (avail (c_dos s) h)))"
proof -
  let ?s = "fd_lock E a s"
  obtain n' m1 t where hr: "hook_read E D ?s a m = (n', m1, t)" by (metis surj_pair)
  have eq: "n = n'" "m' = m1" "s' = fd_unlock E a t"
    using r m p hr by (simp_all add: fd_hook_entry_def Let_def readable_file_def)
  from hook_read_plain [OF w _ hr] p show ?thesis
    unfolding eq by simp
qed

lemma file_is_source:
  assumes w: "reads_all D avail"
  shows "file_source (hook_env E D) f (read_stream f a h) (\<lambda>s. avail (c_dos s) h)"
proof
  fix s s' :: "('a, 'b) clib4" and m m' n
  assume s: "read_stream f a h s" and m: "fam_Action m = file_action_read"
    and sz: "0 < fam_Size m" "fam_Size m \<le> length (fam_Data m)"
    and act: "iob_action (hook_env E D) s f m = (n, m', s')"
  let ?t = "stdio_unlock E (stdio_lock E s)"
  have slot: "fd_slot s (iob_Descriptor (c_iobs s f)) \<noteq> None"
    using s by (auto simp: read_stream_def resolved_fd_def split: option.splits)
  have "env_fd_Action (hook_env E D) ?t a m = (n, m', s')"
    using act s m slot
    by (simp add: iob_action_def read_stream_def iob_hook_entry_def Let_def del: hook_env_sel(1)
        split: if_splits)
  moreover have "readable_file (c_fds ?t a) h" using s by (simp add: read_stream_def)
  ultimately have *: "c_iobs s' = c_iobs s" "c_fd s' = c_fd s"
    "\<forall>b. fd_Flags (c_fds s' b) = fd_Flags (c_fds s b) \<and> fd_Original (c_fds s' b) = fd_Original (c_fds s b)"
    "readable_file (c_fds s' a) h"
    "n = EOF \<and> fam_Data m' = fam_Data m \<and> avail (c_dos s') = avail (c_dos s) \<or>
     n = int (length (take (fam_Size m) (avail (c_dos s) h))) \<and>
     fam_Data m' = mem_splice (fam_Data m) 0 (take (fam_Size m) (avail (c_dos s) h)) \<and>
     avail (c_dos s') = (avail (c_dos s))(h := drop (fam_Size m) (avail (c_dos s) h))"
    using plain_hook_read [OF w _ m, of ?t a h E n m' s'] by auto
  show "read_stream f a h s' \<and> buffer_part (c_iobs s' f) = buffer_part (c_iobs s f) \<and>
      (n = EOF \<and> fam_Data m' = fam_Data m \<and> avail (c_dos s') h = avail (c_dos s) h \<or>
       n = int (length (take (fam_Size m) (avail (c_dos s) h))) \<and>
       fam_Data m' = mem_splice (fam_Data m) 0 (take (fam_Size m) (avail (c_dos s) h)) \<and>
       avail (c_dos s') h = drop (fam_Size m) (avail (c_dos s) h))"
    using * s resolved_fd_cong2 [OF *(2,3)] by (auto simp: read_stream_def)
next
  fix s s' :: "('a, 'b) clib4"
  assume fr: "sink_frame f s s'" and s: "read_stream f a h s"
  from fr have "iob_Action (c_iobs s' f) = iob_Action (c_iobs s f)"
    "iob_Descriptor (c_iobs s' f) = iob_Descriptor (c_iobs s f)"
    using sink_part_fields [of "c_iobs s' f" "c_iobs s f"] by (auto simp: sink_frame_def)
  moreover from fr have "resolved_fd s' k = resolved_fd s k" for k
    by (intro resolved_fd_cong2) (simp_all add: sink_frame_def)
  ultimately show "read_stream f a h s' \<and> avail (c_dos s') h = avail (c_dos s) h"
    using fr s by (simp add: read_stream_def sink_frame_def)
next
  fix s :: "('a, 'b) clib4" and n :: nat and buf :: "byte list"
  assume s: "read_stream f a h s" and n: "0 < n" "n \<le> length buf" "n < 2 ^ 31"
  let ?d = "iob_Descriptor (c_iobs s f)"
  let ?m = "(new_fam E file_action_read)\<lparr>fam_Data := buf, fam_Size := n\<rparr>"
  let ?t = "fd_unlock E a (fd_lock E a (stdio_lock E (stdio_unlock E (stdio_lock E (set_errno 0 s)))))"
  have p: "readable_file (c_fds ?t a) h" using s by (simp add: read_stream_def)
  obtain k m' t where act: "env_fd_Action (hook_env E D) ?t a ?m = (k, m', t)" by (metis surj_pair)
  from plain_hook_read [OF w p _ act] have *: "c_iobs t = c_iobs s" "c_fd t = c_fd s"
    "\<forall>b. fd_Flags (c_fds t b) = fd_Flags (c_fds s b) \<and> fd_Original (c_fds t b) = fd_Original (c_fds s b)"
    "readable_file (c_fds t a) h"
    "k = EOF \<and> fam_Data m' = buf \<and> avail (c_dos t) = avail (c_dos s) \<or>
     k = int (length (take n (avail (c_dos s) h))) \<and>
     fam_Data m' = mem_splice buf 0 (take n (avail (c_dos s) h)) \<and>
     avail (c_dos t) = (avail (c_dos s))(h := drop n (avail (c_dos s) h))"
    by auto
  have r0: "resolved_fd (s\<lparr>c_errno := 0\<rparr>) ?d = Some a"
    using s resolved_fd_cong2 [of "s\<lparr>c_errno := 0\<rparr>" s ?d] by (simp add: read_stream_def)
  define u where "u = stdio_unlock E (if k = EOF then set_errno (fam_Error m') t else t)"
  have u: "c_iobs u = c_iobs t" "c_fds u = c_fds t" "c_fd u = c_fd t" "c_dos u = c_dos t"
    by (simp_all add: u_def)
  have rd: "read_internal (hook_env E D) ?d (Some buf) n s = (k, Some (fam_Data m'), u)"
    using r0 act p n
    by (simp add: u_def read_internal_def Let_def readable_file_def del: hook_env_sel(1))
  have "resolved_fd u ?d = Some a"
    using s resolved_fd_cong2 [of u s ?d] *(2,3) u by (simp add: read_stream_def)
  moreover have "\<not> FLAG_IS_SET (fd_Flags (c_fds t a)) FDF_LITTLE_ENDIAN" using *(4) by (simp add: readable_file_def)
  ultimately have "read (hook_env E D) ?d (Some buf) n s = Some (k, Some (fam_Data m'),
      if k \<noteq> ssize n then u else stdio_unlock E (stdio_lock E u))"
    using u(2) by (simp add: read_def rd Let_def)
  with u obtain v where v: "read (hook_env E D) ?d (Some buf) n s = Some (k, Some (fam_Data m'), v)"
    "c_iobs v = c_iobs t" "c_fds v = c_fds t" "c_fd v = c_fd t" "c_dos v = c_dos t" by auto
  have "resolved_fd v i = resolved_fd s i" for i
    by (intro resolved_fd_cong2) (use * v in simp_all)
  then have "read_stream f a h v" using s * v by (simp add: read_stream_def)
  with v * show "\<exists>k buf' s'. read (hook_env E D) ?d (Some buf) n s = Some (k, Some buf', s') \<and>
      read_stream f a h s' \<and> buffer_part (c_iobs s' f) = buffer_part (c_iobs s f) \<and>
      (k = - 1 \<and> buf' = buf \<and> avail (c_dos s') h = avail (c_dos s) h \<or>
       k = int (length (take n (avail (c_dos s) h))) \<and> buf' = mem_splice buf 0 (take n (avail (c_dos s) h)) \<and>
       avail (c_dos s') h = drop n (avail (c_dos s) h))"
    by (intro exI [of _ k] exI [of _ "fam_Data m'"] exI [of _ v]) auto
qed

locale dos_readable =
  fixes D :: "('x, 'd) dos" and avail :: "'d \<Rightarrow> nat \<Rightarrow> byte list"
  assumes delivers: "reads_all D avail"

sublocale dos_readable < stream: file_source "hook_env E D" f "read_stream f a h" "\<lambda>s. avail (c_dos s) h"
  for E :: "('x, 'd) env" and f a h :: nat
  by (rule file_is_source [OF delivers])

interpretation ram_in: dos_readable "ram_dos :: ('x, ram) dos" snd
  by unfold_locales (simp add: reads_all_def ram_dos_def)

lemma uint_byte_mod: "uint (b :: byte) mod 256 = uint b"
  using uint_lt2p [of b] by simp

text \<open>A stream whose file has two lines to deliver.\<close>

abbreviation (input) ram_lines :: "(nat list, ram) clib4" where
  "ram_lines \<equiv> demo_state (\<lambda>_. [], (\<lambda>_. [])(7 := [72, 105, 10, 33, 63]))"

lemma ram_lines_stream:
  "reads_all ram_dos snd" "read_stream 5 1 7 ram_lines" "reading (c_iobs ram_lines 5)"
  "iob_mode (c_iobs ram_lines 5) \<noteq> IOBF_BUFFER_MODE_NONE"
  "\<not> FLAG_IS_SET (iob_Flags (c_iobs ram_lines 5)) IOBF_LITTLE_ENDIAN"
  "unread (\<lambda>s. snd (c_dos s) 7) 5 ram_lines = [72, 105, 10, 33, 63]"
  using ram_in.delivers
  by (simp_all add: read_stream_def demo_state_def demo_iob_def resolved_fd_def fd_slot_def
      readable_file_def fd_has_data_def zero_fd_def reading_def iob_ok_def FLAG_IS_SET_def FLAG_IS_CLEAR_def
      iob_mode_def unread_def ahead_def)

section \<open>Reading from the stream of a file\<close>

text \<open>
  \<open>took avail f a h s bs s'\<close>: \<open>f\<close> is still a readable stream of file \<open>a\<close> with handle \<open>h\<close>, with the
  same buffering, and of what its reader had still to get exactly \<open>bs\<close> was consumed.
\<close>

definition took ::
  "('d \<Rightarrow> nat \<Rightarrow> byte list) \<Rightarrow> nat \<Rightarrow> nat \<Rightarrow> nat \<Rightarrow> ('x, 'd) clib4 \<Rightarrow> byte list \<Rightarrow> ('x, 'd) clib4 \<Rightarrow> bool" where
  "took avail f a h s bs s' \<longleftrightarrow> read_stream f a h s' \<and> reading (c_iobs s' f) \<and>
     same_buffering (c_iobs s f) (c_iobs s' f) \<and>
     unread (\<lambda>s. avail (c_dos s) h) f s = bs @ unread (\<lambda>s. avail (c_dos s) h) f s'"






definition demo_realloc :: "byte list option \<Rightarrow> nat \<Rightarrow> nat list \<Rightarrow> byte list option \<times> nat list" where
  "demo_realloc line n x = (Some (take n ((case line of None \<Rightarrow> [] | Some m \<Rightarrow> m) @ replicate n 0)), x)"




section \<open>Boundary cases\<close>

text \<open>
  A block that bypasses the buffer and comes short leaves neither the end-of-file nor the error
  flag; a little-endian stream swaps the first element only; and \<^verbatim>\<open>gets\<close> writes a NUL past
  the line when it finds it in the buffer (here: outside memory that holds the line and its NUL).
\<close>

lemma fread_short_without_eof:
  "map_option (\<lambda>(r, _, s). (r, FLAG_IS_SET (iob_Flags (c_iobs s 5)) IOBF_EOF_REACHED,
       FLAG_IS_SET (iob_Flags (c_iobs s 5)) IOBF_ERROR))
     (fread ram_env (Some [0, 0, 0, 0, 0, 0]) 1 6 (Some 5) ram_lines) = Some (5, False, False)"
  by code_simp

lemma fread_swaps_first_element:
  "map_option (\<lambda>(r, m, _). (r, m))
     (fread ram_env (Some [0, 0, 0, 0]) 2 2 (Some 5)
       (upd_iob 5 (\<lambda>i. i\<lparr>iob_Flags := iob_Flags i OR IOBF_LITTLE_ENDIAN\<rparr>) ram_lines)) =
   Some (2, Some [105, 72, 10, 33])"
  by code_simp

lemma gets_overrun:
  "Option.is_none (gets ram_env (Some [0, 0, 0, 0]) (Some 5)
     (upd_iob 5 (\<lambda>i. i\<lparr>iob_Buffer := [72, 105, 10, 33], iob_BufferReadBytes := 4\<rparr>) ram_lines))"
  "map_option (\<lambda>(ok, m, _). (ok, m)) (gets ram_env (Some [7, 7, 7, 7, 7, 7, 7]) (Some 5)
     (upd_iob 5 (\<lambda>i. i\<lparr>iob_Buffer := [72, 105, 10, 33], iob_BufferReadBytes := 4\<rparr>) ram_lines)) =
   Some (True, Some [72, 105, 10, 0, 7, 7, 0])"
  by code_simp+

lemma fread_unbuffered_skips_pushed_back:
  "map_option (\<lambda>(r, m, _). (r, m))
     (fread ram_env (Some [0]) 1 1 (Some 5)
       (snd (ungetc_r ram_env 65 (Some 5) (snd (fgetc ram_env (Some 5)
         (upd_iob 5 (\<lambda>i. i\<lparr>iob_Flags := iob_Flags i OR IOBF_BUFFER_MODE_NONE, iob_BufferSize := 1\<rparr>) ram_lines)))))) =
   Some (1, Some [105])"
  by code_simp

end
