(* ===== verification/Sort_Search.thy ===== *)
theory Sort_Search
  imports Clib4_Prelude "HOL-Library.Multiset"
begin

text \<open>
  \<^verbatim>\<open>qsort\<close> and \<^verbatim>\<open>bsearch\<close> (\<^verbatim>\<open>src/library/stdlib\<close>), \<^verbatim>\<open>lfind\<close> and
  \<^verbatim>\<open>lsearch\<close> (\<^verbatim>\<open>src/library/search\<close>). An array is the list of its elements and a pointer
  into it an index, so that \<^verbatim>\<open>es\<close> is the unit; the comparison function is a parameter.

  The results of \<^verbatim>\<open>cmp\<close> are kept in \<^verbatim>\<open>size_t r\<close>, as in the source. The lemmas show that
  \<^verbatim>\<open>qsort\<close> ends with a permutation of the array that differs in the sorted part only, and that
  the array is sorted when it is short or no two elements compare equal; a counterexample shows
  that it need not be otherwise.
\<close>

section \<open>Sorting\<close>

definition swap_at :: "'a list \<Rightarrow> nat \<Rightarrow> nat \<Rightarrow> 'a list" where
  "swap_at xs i j = (xs[i := xs ! j])[j := xs ! i]"

text \<open>The inner and the outer loop of the insertion sort, on the elements from \<open>a\<close> to \<open>e - 1\<close>.\<close>

fun insert_down :: "'a cmp \<Rightarrow> nat \<Rightarrow> nat \<Rightarrow> 'a list \<Rightarrow> 'a list" where
  "insert_down cmp a pl xs =
     (if pl > a \<and> cmp (xs ! (pl - 1)) (xs ! pl) > 0
      then insert_down cmp a (pl - 1) (swap_at xs pl (pl - 1)) else xs)"

declare insert_down.simps [simp del]

function insertion_sort :: "'a cmp \<Rightarrow> nat \<Rightarrow> nat \<Rightarrow> nat \<Rightarrow> 'a list \<Rightarrow> 'a list" where
  "insertion_sort cmp a pm e xs =
     (if pm < e then insertion_sort cmp a (pm + 1) e (insert_down cmp a pm xs) else xs)"
  by pat_completeness auto
termination
  by (relation "measure (\<lambda>(cmp, a, pm, e, xs). e - pm)") auto

declare insertion_sort.simps [simp del]

definition med3 :: "'a cmp \<Rightarrow> 'a list \<Rightarrow> nat \<Rightarrow> nat \<Rightarrow> nat \<Rightarrow> nat" where
  "med3 cmp xs a b c =
     (if cmp (xs ! a) (xs ! b) < 0
      then (if cmp (xs ! b) (xs ! c) < 0 then b else if cmp (xs ! a) (xs ! c) < 0 then c else a)
      else (if cmp (xs ! b) (xs ! c) > 0 then b else if cmp (xs ! a) (xs ! c) < 0 then a else c))"

text \<open>The element that is taken as the pivot.\<close>

definition choose_pivot :: "'a cmp \<Rightarrow> 'a list \<Rightarrow> nat \<Rightarrow> nat \<Rightarrow> nat" where
  "choose_pivot cmp xs a n =
     (let pm = a + n div 2 in
      if n > 7
      then let pl = a; pn = a + (n - 1) in
        if n > 40
        then let d = n div 8 in
          med3 cmp xs (med3 cmp xs pl (pl + d) (pl + 2 * d)) (med3 cmp xs (pm - d) pm (pm + d))
            (med3 cmp xs (pn - 2 * d) (pn - d) pn)
        else med3 cmp xs pl pm pn
      else pm)"

text \<open>
  The partition. \<open>r\<close> is the \<^verbatim>\<open>size_t\<close> that the result of \<^verbatim>\<open>cmp\<close> is assigned to before it
  is compared with 0. \<^verbatim>\<open>pb\<close> is above the pivot, so that \<open>p_pc p > 0\<close> holds whenever
  \<^verbatim>\<open>pb <= pc\<close> does.
\<close>

record 'a part =
  p_xs :: "'a list"
  p_pa :: nat
  p_pb :: nat
  p_pc :: nat
  p_pd :: nat
  p_swap_cnt :: nat

definition scan_up_step :: "ulong \<Rightarrow> 'a part \<Rightarrow> 'a part" where
  "scan_up_step r p =
     (let p' = (if r = 0
                then p\<lparr>p_swap_cnt := 1, p_xs := swap_at (p_xs p) (p_pa p) (p_pb p), p_pa := p_pa p + 1\<rparr>
                else p)
      in p'\<lparr>p_pb := p_pb p' + 1\<rparr>)"

function scan_up :: "'a cmp \<Rightarrow> nat \<Rightarrow> 'a part \<Rightarrow> 'a part" where
  "scan_up cmp a p =
     (let r = (word_of_int (cmp (p_xs p ! p_pb p) (p_xs p ! a)) :: ulong) in
      if p_pb p \<le> p_pc p \<and> r \<le> 0 then scan_up cmp a (scan_up_step r p) else p)"
  by pat_completeness auto
termination
  by (relation "measure (\<lambda>(cmp, a, p). Suc (p_pc p) - p_pb p)") (auto simp: scan_up_step_def Let_def)

declare scan_up.simps [simp del]

definition scan_down_step :: "ulong \<Rightarrow> 'a part \<Rightarrow> 'a part" where
  "scan_down_step r p =
     (let p' = (if r = 0
                then p\<lparr>p_swap_cnt := 1, p_xs := swap_at (p_xs p) (p_pc p) (p_pd p), p_pd := p_pd p - 1\<rparr>
                else p)
      in p'\<lparr>p_pc := p_pc p' - 1\<rparr>)"

function scan_down :: "'a cmp \<Rightarrow> nat \<Rightarrow> 'a part \<Rightarrow> 'a part" where
  "scan_down cmp a p =
     (let r = (word_of_int (cmp (p_xs p ! p_pc p) (p_xs p ! a)) :: ulong) in
      if p_pc p > 0 \<and> p_pb p \<le> p_pc p \<and> r \<ge> 0 then scan_down cmp a (scan_down_step r p) else p)"
  by pat_completeness auto
termination
  by (relation "measure (\<lambda>(cmp, a, p). p_pc p)") (auto simp: scan_down_step_def Let_def)

declare scan_down.simps [simp del]

function part_loop :: "'a cmp \<Rightarrow> nat \<Rightarrow> 'a part \<Rightarrow> 'a part" where
  "part_loop cmp a p =
     (let q = scan_down cmp a (scan_up cmp a p) in
      if p_pb q > p_pc q then q
      else if p_pc q = 0 then q
      else part_loop cmp a (q\<lparr>p_xs := swap_at (p_xs q) (p_pb q) (p_pc q), p_swap_cnt := 1,
             p_pb := p_pb q + 1, p_pc := p_pc q - 1\<rparr>))"
  by pat_completeness auto
termination
proof (relation "measure (\<lambda>(cmp, a, p). p_pc p)")
  fix cmp a and p q :: "'a part"
  have up: "p_pc (scan_up cmp a p) = p_pc p"
    by (induction cmp a p rule: scan_up.induct) (subst scan_up.simps, auto simp: Let_def scan_up_step_def)
  have down: "p_pc (scan_down cmp a p) \<le> p_pc p" for p :: "'a part"
    by (induction cmp a p rule: scan_down.induct)
      (subst scan_down.simps, auto simp: Let_def scan_down_step_def split: if_splits intro: le_trans)
  assume "q = scan_down cmp a (scan_up cmp a p)" and "\<not> p_pc q < p_pb q" and "p_pc q \<noteq> 0"
  then show "((cmp, a, q\<lparr>p_xs := swap_at (p_xs q) (p_pb q) (p_pc q), p_swap_cnt := 1,
      p_pb := p_pb q + 1, p_pc := p_pc q - 1\<rparr>), cmp, a, p) \<in> measure (\<lambda>(cmp, a, p). p_pc p)"
    using down [of "scan_up cmp a p"] up by simp
qed simp

declare part_loop.simps [simp del]

text \<open>\<^verbatim>\<open>vecswap(&xs[i], &xs[j], r)\<close>\<close>

fun vecswap :: "'a list \<Rightarrow> nat \<Rightarrow> nat \<Rightarrow> nat \<Rightarrow> 'a list" where
  "vecswap xs i j 0 = xs"
| "vecswap xs i j (Suc r) = vecswap (swap_at xs i j) (i + 1) (j + 1) r"

definition part_start :: "'a cmp \<Rightarrow> 'a list \<Rightarrow> nat \<Rightarrow> nat \<Rightarrow> 'a part" where
  "part_start cmp xs a n =
     \<lparr>p_xs = swap_at xs a (choose_pivot cmp xs a n), p_pa = a + 1, p_pb = a + 1, p_pc = a + (n - 1),
      p_pd = a + (n - 1), p_swap_cnt = 0\<rparr>"

text \<open>The block moves after the partition.\<close>

definition part_join :: "nat \<Rightarrow> nat \<Rightarrow> 'a part \<Rightarrow> 'a list" where
  "part_join a n p =
     (let pn = a + n;
          r1 = min (p_pa p - a) (p_pb p - p_pa p);
          xs1 = vecswap (p_xs p) a (p_pb p - r1) r1;
          r2 = min (p_pd p - p_pc p) (pn - p_pd p - 1)
      in vecswap xs1 (p_pb p) (pn - r2) r2)"

text \<open>Where the pointers of a partition of \<open>n\<close> elements from \<open>a\<close> on are.\<close>

definition part_ok :: "nat \<Rightarrow> nat \<Rightarrow> 'a part \<Rightarrow> bool" where
  "part_ok a n p \<longleftrightarrow> a < p_pa p \<and> p_pa p \<le> p_pb p \<and> p_pb p \<le> p_pc p + 1 \<and> a \<le> p_pc p \<and>
     p_pc p \<le> p_pd p \<and> p_pd p < a + n"

lemma scan_up_ok: "part_ok a n p \<Longrightarrow> part_ok a n (scan_up cmp a p)"
proof (induction cmp a p rule: scan_up.induct)
  case (1 cmp a p)
  let ?r = "word_of_int (cmp (p_xs p ! p_pb p) (p_xs p ! a)) :: ulong"
  show ?case
  proof (cases "p_pb p \<le> p_pc p \<and> ?r \<le> 0")
    case True
    then have "part_ok a n (scan_up_step ?r p)"
      using 1(2) by (auto simp: part_ok_def scan_up_step_def Let_def)
    from 1(1) [OF refl True this] show ?thesis
      using True by (subst scan_up.simps) (simp add: Let_def)
  next
    case False
    then show ?thesis using 1(2) by (subst scan_up.simps) (auto simp: Let_def)
  qed
qed

lemma scan_down_ok: "part_ok a n p \<Longrightarrow> part_ok a n (scan_down cmp a p) \<and> p_pc (scan_down cmp a p) < p_pb (scan_down cmp a p)"
proof (induction cmp a p rule: scan_down.induct)
  case (1 cmp a p)
  let ?r = "word_of_int (cmp (p_xs p ! p_pc p) (p_xs p ! a)) :: ulong"
  show ?case
  proof (cases "p_pb p \<le> p_pc p")
    case True
    with 1(2) have c: "p_pc p > 0 \<and> p_pb p \<le> p_pc p \<and> ?r \<ge> 0" by (auto simp: part_ok_def)
    have "part_ok a n (scan_down_step ?r p)"
      using 1(2) True by (auto simp: part_ok_def scan_down_step_def Let_def)
    from 1(1) [OF refl c this] show ?thesis
      using c by (subst (1 2 3) scan_down.simps) (simp add: Let_def)
  next
    case False
    then show ?thesis using 1(2) by (subst (1 2 3) scan_down.simps) (auto simp: Let_def)
  qed
qed

lemma part_loop_eq: "part_ok a n p \<Longrightarrow> part_loop cmp a p = scan_down cmp a (scan_up cmp a p)"
  using scan_down_ok [OF scan_up_ok, of a n p cmp cmp] by (subst part_loop.simps) (simp add: Let_def)

lemma part_loop_ok: "part_ok a n p \<Longrightarrow> part_ok a n (part_loop cmp a p)"
  using part_loop_eq scan_down_ok scan_up_ok by metis

lemma part_start_ok: "1 < n \<Longrightarrow> part_ok a n (part_start cmp xs a n)"
  by (simp add: part_ok_def part_start_def)

function qsort :: "'a cmp \<Rightarrow> 'a list \<Rightarrow> nat \<Rightarrow> nat \<Rightarrow> 'a list" where
  "qsort cmp xs a n =
     (if n < 7 then insertion_sort cmp a (a + 1) (a + n) xs
      else let p = part_loop cmp a (part_start cmp xs a n) in
        if p_swap_cnt p = 0 then insertion_sort cmp a (a + 1) (a + n) (p_xs p)
        else let xs1 = part_join a n p; pn = a + n; r1 = p_pb p - p_pa p; r2 = p_pd p - p_pc p;
                 xs2 = (if r1 > 1 then qsort cmp xs1 a r1 else xs1)
          in if r2 > 1 then qsort cmp xs2 (pn - r2) r2 else xs2)"
  by pat_completeness auto
termination
proof (relation "measure (\<lambda>(cmp, xs, a, n). n)")
  fix cmp :: "'a cmp" and xs a n p xs1 pn r1 r2 xs2
  assume "\<not> n < 7" and p: "p = part_loop cmp a (part_start cmp xs a n)"
  then have "1 < n" by simp
  then have ok: "part_ok a n p" unfolding p by (intro part_loop_ok part_start_ok)
  show "r1 = p_pb p - p_pa p \<Longrightarrow> ((cmp, xs1, a, r1), cmp, xs, a, n) \<in> measure (\<lambda>(cmp, xs, a, n). n)"
    using ok by (auto simp: part_ok_def)
  show "r2 = p_pd p - p_pc p \<Longrightarrow> ((cmp, xs2, pn - r2, r2), cmp, xs, a, n) \<in> measure (\<lambda>(cmp, xs, a, n). n)"
    using ok by (auto simp: part_ok_def)
qed simp

declare qsort.simps [simp del]

section \<open>Searching\<close>

text \<open>
  The loop of \<^verbatim>\<open>bsearch\<close>; \<open>compare\<close> is already applied to the key. The sum of the bounds is
  that of two \<^verbatim>\<open>size_t\<close> values and may wrap around, in which case the loop need not end.
\<close>

partial_function (option) bsearch_loop :: "('b \<Rightarrow> int) \<Rightarrow> 'b list \<Rightarrow> nat \<Rightarrow> nat \<Rightarrow> nat option option" where
  "bsearch_loop cmp base lower upper =
     (if lower < upper
      then let position = size_add lower upper div 2; delta = cmp (base ! position) in
        if delta = 0 then Some (Some position)
        else if delta < 0 then bsearch_loop cmp base lower position
        else bsearch_loop cmp base (position + 1) upper
      else Some None)"

text \<open>The element found, by its index, and \<^verbatim>\<open>errno\<close>; a key or an array that is \<^verbatim>\<open>NULL\<close> is \<open>None\<close>.\<close>

definition bsearch ::
  "'a option \<Rightarrow> 'b list option \<Rightarrow> nat \<Rightarrow> nat \<Rightarrow> ('a \<Rightarrow> 'b \<Rightarrow> int) option \<Rightarrow> int \<Rightarrow> (nat option \<times> int) option" where
  "bsearch key base n sz compare e =
     (if n > 0 \<and> sz > 0
      then case (key, base, compare) of
          (Some k, Some xs, Some cmp) \<Rightarrow> map_option (\<lambda>r. (r, e)) (bsearch_loop (cmp k) xs 0 n)
        | _ \<Rightarrow> Some (None, EFAULT)
      else Some (None, e))"

text \<open>\<^verbatim>\<open>lfind\<close> and \<^verbatim>\<open>lsearch\<close>, from index \<open>cur\<close> on; the array has \<open>nelp\<close> elements in use.\<close>

function lfind_from :: "('b \<Rightarrow> bool) \<Rightarrow> 'b list \<Rightarrow> nat \<Rightarrow> nat \<Rightarrow> nat option" where
  "lfind_from differs base cur e =
     (if cur < e then (if \<not> differs (base ! cur) then Some cur else lfind_from differs base (cur + 1) e)
      else None)"
  by pat_completeness auto
termination
  by (relation "measure (\<lambda>(d, base, cur, e). e - cur)") auto

declare lfind_from.simps [simp del]

definition lfind :: "'a \<Rightarrow> 'b list \<Rightarrow> nat \<Rightarrow> ('b \<Rightarrow> 'a \<Rightarrow> int) \<Rightarrow> nat option" where
  "lfind key base nelp compar = lfind_from (\<lambda>x. compar x key \<noteq> 0) base 0 nelp"

text \<open>The position, the array and the new number of elements; \<open>None\<close> when the array is full.\<close>

definition lsearch :: "'a \<Rightarrow> 'a list \<Rightarrow> nat \<Rightarrow> 'a cmp \<Rightarrow> (nat \<times> 'a list \<times> nat) option" where
  "lsearch key base nelp compar =
     (case lfind_from (\<lambda>x. compar x key \<noteq> 0) base 0 nelp of
        Some cur \<Rightarrow> Some (cur, base, nelp)
      | None \<Rightarrow> if nelp < length base then Some (nelp, base[nelp := key], nelp + 1) else None)"

section \<open>Sorting permutes\<close>

text \<open>\<open>ys\<close> is \<open>xs\<close> with the \<open>n\<close> elements from \<open>a\<close> on permuted.\<close>

definition perm_range :: "nat \<Rightarrow> nat \<Rightarrow> 'a list \<Rightarrow> 'a list \<Rightarrow> bool" where
  "perm_range a n xs ys \<longleftrightarrow> length ys = length xs \<and> mset ys = mset xs \<and> take a ys = take a xs \<and>
     drop (a + n) ys = drop (a + n) xs"

lemma perm_range_refl [simp]: "perm_range a n xs xs"
  by (simp add: perm_range_def)

lemma perm_range_trans: "perm_range a n xs ys \<Longrightarrow> perm_range a n ys zs \<Longrightarrow> perm_range a n xs zs"
  by (simp add: perm_range_def)

lemma perm_range_sub:
  assumes "perm_range b m xs ys" and "a \<le> b" and "b + m \<le> a + n"
  shows "perm_range a n xs ys"
proof -
  have "take a ys = take a (take b ys)" "take a xs = take a (take b xs)" using assms(2) by (simp_all add: min_def)
  moreover obtain k where k: "a + n = k + (b + m)" using assms(3) by (metis add.commute le_Suc_ex)
  have "drop (a + n) zs = drop k (drop (b + m) zs)" for zs :: "'a list" unfolding k by simp
  ultimately show ?thesis using assms(1) unfolding perm_range_def by metis
qed

lemma length_swap_at [simp]: "length (swap_at xs i j) = length xs"
  by (simp add: swap_at_def)

lemma swap_at_perm:
  assumes "a \<le> i" "i < a + n" "a \<le> j" "j < a + n" "a + n \<le> length xs"
  shows "perm_range a n xs (swap_at xs i j)"
  using assms mset_swap [of j xs i] by (simp add: perm_range_def swap_at_def)

lemma insert_down_perm:
  "a \<le> pl \<Longrightarrow> pl < a + n \<Longrightarrow> a + n \<le> length xs \<Longrightarrow> perm_range a n xs (insert_down cmp a pl xs)"
proof (induction cmp a pl xs rule: insert_down.induct)
  case (1 cmp a pl xs)
  show ?case
  proof (cases "pl > a \<and> cmp (xs ! (pl - 1)) (xs ! pl) > 0")
    case True
    let ?ys = "swap_at xs pl (pl - 1)"
    have "perm_range a n xs ?ys" by (rule swap_at_perm) (use True 1(2-4) in auto)
    moreover have "perm_range a n ?ys (insert_down cmp a (pl - 1) ?ys)"
      by (rule 1(1) [OF True]) (use True 1(2-4) in auto)
    ultimately show ?thesis
      using True by (subst insert_down.simps) (auto intro: perm_range_trans)
  next
    case False
    then show ?thesis by (subst insert_down.simps) auto
  qed
qed

lemma insertion_sort_perm:
  "a \<le> pm \<Longrightarrow> a + n \<le> length xs \<Longrightarrow> perm_range a n xs (insertion_sort cmp a pm (a + n) xs)"
proof (induction "a + n - pm" arbitrary: pm xs)
  case 0
  then show ?case by (subst insertion_sort.simps) simp
next
  case (Suc k)
  let ?ys = "insert_down cmp a pm xs"
  have p: "perm_range a n xs ?ys" by (rule insert_down_perm) (use Suc in auto)
  then have "a + n \<le> length ?ys" using Suc by (simp add: perm_range_def)
  with Suc have "perm_range a n ?ys (insertion_sort cmp a (pm + 1) (a + n) ?ys)" by auto
  with p Suc(2) show ?case by (subst insertion_sort.simps) (auto intro: perm_range_trans)
qed

lemma vecswap_perm:
  "a \<le> i \<Longrightarrow> i + r \<le> a + n \<Longrightarrow> a \<le> j \<Longrightarrow> j + r \<le> a + n \<Longrightarrow> a + n \<le> length xs \<Longrightarrow>
    perm_range a n xs (vecswap xs i j r)"
proof (induction xs i j r rule: vecswap.induct)
  case (2 xs i j r)
  have "perm_range a n xs (swap_at xs i j)" by (rule swap_at_perm) (use 2 in auto)
  with 2 show ?case by (auto intro: perm_range_trans)
qed simp

lemma med3_cases: "med3 cmp xs i j k \<in> {i, j, k}"
  by (auto simp: med3_def)

lemma choose_pivot_range:
  assumes "0 < n" shows "a \<le> choose_pivot cmp xs a n" "choose_pivot cmp xs a n < a + n"
proof -
  let ?P = "\<lambda>i. a \<le> i \<and> i < a + n"
  have m: "?P (med3 cmp xs i j k)" if "?P i" "?P j" "?P k" for i j k
    using med3_cases [of cmp xs i j k] that by auto
  define d h where "d = n div 8" and "h = n div 2"
  have dh: "8 * d \<le> n" "2 * h \<le> n" "n \<le> 2 * h + 1" by (simp_all add: d_def h_def)
  have "?P (choose_pivot cmp xs a n)"
  proof (cases "n > 40")
    case True
    have eq: "choose_pivot cmp xs a n =
        med3 cmp xs (med3 cmp xs a (a + d) (a + 2 * d)) (med3 cmp xs (a + h - d) (a + h) (a + h + d))
          (med3 cmp xs (a + (n - 1) - 2 * d) (a + (n - 1) - d) (a + (n - 1)))"
      using True by (simp add: choose_pivot_def Let_def d_def h_def)
    show ?thesis unfolding eq by (intro m) (use dh True in auto)
  next
    case False
    then have eq: "choose_pivot cmp xs a n = (if n > 7 then med3 cmp xs a (a + h) (a + (n - 1)) else a + h)"
      by (simp add: choose_pivot_def Let_def h_def)
    have "?P (med3 cmp xs a (a + h) (a + (n - 1)))" by (intro m) (use dh assms in auto)
    then show ?thesis unfolding eq using dh assms by auto
  qed
  then show "a \<le> choose_pivot cmp xs a n" "choose_pivot cmp xs a n < a + n" by auto
qed

text \<open>The partition permutes.\<close>

definition part_perm :: "nat \<Rightarrow> nat \<Rightarrow> 'a list \<Rightarrow> 'a part \<Rightarrow> bool" where
  "part_perm a n xs p \<longleftrightarrow> part_ok a n p \<and> perm_range a n xs (p_xs p)"

lemma scan_up_perm: "part_perm a n xs p \<Longrightarrow> a + n \<le> length xs \<Longrightarrow> part_perm a n xs (scan_up cmp a p)"
proof (induction cmp a p rule: scan_up.induct)
  case (1 cmp a p)
  let ?r = "word_of_int (cmp (p_xs p ! p_pb p) (p_xs p ! a)) :: ulong"
  show ?case
  proof (cases "p_pb p \<le> p_pc p \<and> ?r \<le> 0")
    case True
    have "perm_range a n (p_xs p) (swap_at (p_xs p) (p_pa p) (p_pb p))"
      using 1(2,3) True by (intro swap_at_perm) (auto simp: part_perm_def part_ok_def perm_range_def)
    with 1(2) True have "part_perm a n xs (scan_up_step ?r p)"
      by (auto simp: part_perm_def part_ok_def scan_up_step_def Let_def intro: perm_range_trans)
    from 1(1) [OF refl True this 1(3)] show ?thesis
      using True by (subst scan_up.simps) (simp add: Let_def)
  next
    case False
    then show ?thesis using 1(2) by (subst scan_up.simps) (auto simp: Let_def)
  qed
qed

lemma scan_down_perm: "part_perm a n xs p \<Longrightarrow> a + n \<le> length xs \<Longrightarrow> part_perm a n xs (scan_down cmp a p)"
proof (induction cmp a p rule: scan_down.induct)
  case (1 cmp a p)
  let ?r = "word_of_int (cmp (p_xs p ! p_pc p) (p_xs p ! a)) :: ulong"
  show ?case
  proof (cases "p_pc p > 0 \<and> p_pb p \<le> p_pc p \<and> ?r \<ge> 0")
    case True
    have "perm_range a n (p_xs p) (swap_at (p_xs p) (p_pc p) (p_pd p))"
      using 1(2,3) True by (intro swap_at_perm) (auto simp: part_perm_def part_ok_def perm_range_def)
    with 1(2) True have "part_perm a n xs (scan_down_step ?r p)"
      by (auto simp: part_perm_def part_ok_def scan_down_step_def Let_def intro: perm_range_trans)
    from 1(1) [OF refl True this 1(3)] show ?thesis
      using True by (subst scan_down.simps) (simp add: Let_def)
  next
    case False
    then show ?thesis using 1(2) by (subst scan_down.simps) (auto simp: Let_def)
  qed
qed

lemma part_start_perm:
  assumes "1 < n" and "a + n \<le> length xs"
  shows "part_perm a n xs (part_start cmp xs a n)"
  using assms part_start_ok [OF assms(1)] choose_pivot_range [where n = n and a = a and cmp = cmp and xs = xs]
  by (auto simp: part_perm_def part_start_def intro!: swap_at_perm)

lemma part_loop_perm:
  assumes "part_perm a n xs p" and "a + n \<le> length xs"
  shows "part_perm a n xs (part_loop cmp a p)"
proof -
  have "part_ok a n p" using assms(1) by (simp add: part_perm_def)
  from part_loop_eq [OF this] scan_down_perm [OF scan_up_perm [OF assms] assms(2)] show ?thesis by simp
qed

lemma part_join_perm:
  assumes "part_perm a n xs p" and "a + n \<le> length xs"
  shows "perm_range a n xs (part_join a n p)"
proof -
  let ?r1 = "min (p_pa p - a) (p_pb p - p_pa p)" and ?r2 = "min (p_pd p - p_pc p) (a + n - p_pd p - 1)"
  have ok: "part_ok a n p" and p: "perm_range a n xs (p_xs p)" using assms(1) by (simp_all add: part_perm_def)
  have "perm_range a n (p_xs p) (vecswap (p_xs p) a (p_pb p - ?r1) ?r1)"
    by (rule vecswap_perm) (use ok p assms(2) in \<open>auto simp: part_ok_def perm_range_def\<close>)
  with p have q: "perm_range a n xs (vecswap (p_xs p) a (p_pb p - ?r1) ?r1)" by (rule perm_range_trans)
  have "perm_range a n (vecswap (p_xs p) a (p_pb p - ?r1) ?r1)
      (vecswap (vecswap (p_xs p) a (p_pb p - ?r1) ?r1) (p_pb p) (a + n - ?r2) ?r2)"
  proof (rule vecswap_perm)
    show "p_pb p + ?r2 \<le> a + n" "a \<le> a + n - ?r2" "a \<le> p_pb p" "a + n - ?r2 + ?r2 \<le> a + n"
      using ok by (auto simp: part_ok_def min_def)
  qed (use q assms(2) in \<open>simp add: perm_range_def\<close>)
  with q show ?thesis unfolding part_join_def Let_def by (rule perm_range_trans)
qed

lemma qsort_perm: "a + n \<le> length xs \<Longrightarrow> perm_range a n xs (qsort cmp xs a n)"
proof (induction cmp xs a n rule: qsort.induct)
  case (1 cmp xs a n)
  let ?p = "part_loop cmp a (part_start cmp xs a n)"
  show ?case
  proof (cases "n < 7")
    case True
    with insertion_sort_perm [of a "a + 1" n xs cmp] 1(3) show ?thesis by (subst qsort.simps) simp
  next
    case n: False
    then have pp: "part_perm a n xs ?p"
      using 1(3) by (intro part_loop_perm part_start_perm) auto
    then have ok: "part_ok a n ?p" and len: "length (p_xs ?p) = length xs"
      by (simp_all add: part_perm_def perm_range_def)
    show ?thesis
    proof (cases "p_swap_cnt ?p = 0")
      case True
      have "perm_range a n (p_xs ?p) (insertion_sort cmp a (a + 1) (a + n) (p_xs ?p))"
        by (rule insertion_sort_perm) (use len 1(3) in auto)
      with pp n True show ?thesis
        by (subst qsort.simps) (auto simp: Let_def part_perm_def intro: perm_range_trans)
    next
      case False
      let ?xs1 = "part_join a n ?p" and ?r1 = "p_pb ?p - p_pa ?p" and ?r2 = "p_pd ?p - p_pc ?p"
      let ?xs2 = "if ?r1 > 1 then qsort cmp ?xs1 a ?r1 else ?xs1"
      have p1: "perm_range a n xs ?xs1" by (rule part_join_perm [OF pp 1(3)])
      have p2: "perm_range a n ?xs1 ?xs2"
      proof (cases "?r1 > 1")
        case True
        have "perm_range a ?r1 ?xs1 (qsort cmp ?xs1 a ?r1)"
          by (rule 1(1) [OF n refl False refl refl refl refl True])
            (use p1 1(3) ok in \<open>auto simp: perm_range_def part_ok_def\<close>)
        then have "perm_range a n ?xs1 (qsort cmp ?xs1 a ?r1)"
          by (rule perm_range_sub) (use ok in \<open>auto simp: part_ok_def\<close>)
        then show ?thesis unfolding if_P [OF True] .
      qed (simp only: if_False perm_range_refl)
      have p12: "perm_range a n xs ?xs2" by (rule perm_range_trans [OF p1 p2])
      have p3: "perm_range a n ?xs2 (if ?r2 > 1 then qsort cmp ?xs2 (a + n - ?r2) ?r2 else ?xs2)"
      proof (cases "?r2 > 1")
        case True
        have "perm_range (a + n - ?r2) ?r2 ?xs2 (qsort cmp ?xs2 (a + n - ?r2) ?r2)"
          by (rule 1(2) [OF n refl False refl refl refl refl refl True])
            (use p12 1(3) ok in \<open>auto simp: perm_range_def part_ok_def\<close>)
        then have "perm_range a n ?xs2 (qsort cmp ?xs2 (a + n - ?r2) ?r2)"
          by (rule perm_range_sub) (use ok in \<open>auto simp: part_ok_def\<close>)
        then show ?thesis unfolding if_P [OF True] .
      qed (simp only: if_False perm_range_refl)
      have "qsort cmp xs a n = (if ?r2 > 1 then qsort cmp ?xs2 (a + n - ?r2) ?r2 else ?xs2)"
        using n False by (subst qsort.simps) (simp only: Let_def if_False)
      with perm_range_trans [OF p12 p3] show ?thesis by simp
    qed
  qed
qed

section \<open>Sorting sorts\<close>

text \<open>What a comparison function must be for an order to exist, with \<^verbatim>\<open>int\<close> results.\<close>

definition cmp_order :: "'a cmp \<Rightarrow> bool" where
  "cmp_order cmp \<longleftrightarrow> (\<forall>x y. cmp x y > 0 \<longrightarrow> cmp y x \<le> 0) \<and>
     (\<forall>x y z. cmp x y \<le> 0 \<longrightarrow> cmp y z \<le> 0 \<longrightarrow> cmp x z \<le> 0) \<and>
     (\<forall>x y. - (2 ^ 31) \<le> cmp x y \<and> cmp x y < 2 ^ 31)"

abbreviation (input) sorted_cmp :: "'a cmp \<Rightarrow> 'a list \<Rightarrow> bool" where
  "sorted_cmp cmp \<equiv> sorted_wrt (\<lambda>x y. cmp x y \<le> 0)"

text \<open>Insertion from the right into a sorted list.\<close>

definition insert_right :: "'a cmp \<Rightarrow> 'a \<Rightarrow> 'a list \<Rightarrow> 'a list" where
  "insert_right cmp y ys =
     rev (dropWhile (\<lambda>z. cmp z y > 0) (rev ys)) @ y # rev (takeWhile (\<lambda>z. cmp z y > 0) (rev ys))"

lemma insert_right_snoc:
  "insert_right cmp y (ys @ [z]) = (if cmp z y > 0 then insert_right cmp y ys @ [z] else ys @ [z, y])"
  by (simp add: insert_right_def)

lemma length_insert_right: "length (insert_right cmp y ys) = Suc (length ys)"
  by (induction ys rule: rev_induct) (simp_all add: insert_right_snoc, simp add: insert_right_def)

lemma insert_right_sorted:
  assumes c: "cmp_order cmp"
  shows "sorted_cmp cmp ys \<Longrightarrow> sorted_cmp cmp (insert_right cmp y ys) \<and> set (insert_right cmp y ys) = insert y (set ys)"
proof (induction ys rule: rev_induct)
  case Nil
  show ?case by (simp add: insert_right_def)
next
  case (snoc z zs)
  show ?case
  proof (cases "cmp z y > 0")
    case True
    with c have "cmp y z \<le> 0" by (auto simp: cmp_order_def)
    with snoc True show ?thesis by (auto simp: insert_right_snoc sorted_wrt_append)
  next
    case False
    have "cmp x y \<le> 0" if "x \<in> set zs" for x
      using that snoc.prems False c unfolding cmp_order_def sorted_wrt_append by (metis list.set_intros(1) linorder_not_le)
    with snoc.prems False show ?thesis by (auto simp: insert_right_snoc sorted_wrt_append)
  qed
qed

lemma swap_at_append:
  "swap_at (pre @ u # v # post) (Suc (length pre)) (length pre) = pre @ v # u # post"
  by (simp add: swap_at_def nth_append list_update_append)

lemma insert_down_eq:
  "insert_down cmp (length pre) (length pre + length ys) (pre @ ys @ y # post) = pre @ insert_right cmp y ys @ post"
proof (induction ys arbitrary: post rule: rev_induct)
  case Nil
  show ?case by (subst insert_down.simps) (simp add: insert_right_def)
next
  case (snoc z zs)
  let ?xs = "pre @ (zs @ [z]) @ y # post" and ?pl = "length pre + length (zs @ [z])"
  have nth: "?xs ! (?pl - 1) = z" "?xs ! ?pl = y" by (simp_all add: nth_append)
  have sw: "swap_at ?xs ?pl (?pl - 1) = pre @ zs @ y # (z # post)"
    using swap_at_append [of "pre @ zs" z y post] by simp
  show ?case
  proof (cases "cmp z y > 0")
    case True
    have "insert_down cmp (length pre) ?pl ?xs =
        insert_down cmp (length pre) (length pre + length zs) (pre @ zs @ y # (z # post))"
      using True nth sw by (subst insert_down.simps) simp
    with snoc.IH [of "z # post"] True show ?thesis by (simp add: insert_right_snoc)
  next
    case False
    with nth show ?thesis by (subst insert_down.simps) (simp add: insert_right_snoc)
  qed
qed

lemma insertion_sort_sorted:
  assumes c: "cmp_order cmp"
  shows "sorted_cmp cmp ys \<Longrightarrow>
    \<exists>ws. insertion_sort cmp (length pre) (length pre + length ys) (length pre + length ys + length zs) (pre @ ys @ zs @ post) =
      pre @ ws @ post \<and> sorted_cmp cmp ws \<and> length ws = length ys + length zs"
proof (induction zs arbitrary: ys)
  case Nil
  then show ?case by (subst insertion_sort.simps) (auto intro!: exI [of _ ys])
next
  case (Cons z zs)
  let ?ys = "insert_right cmp z ys"
  note len = length_insert_right [of cmp z ys]
  have "insert_down cmp (length pre) (length pre + length ys) (pre @ ys @ (z # zs) @ post) = pre @ ?ys @ zs @ post"
    using insert_down_eq [of cmp pre ys z "zs @ post"] by simp
  then have "insertion_sort cmp (length pre) (length pre + length ys) (length pre + length ys + length (z # zs)) (pre @ ys @ (z # zs) @ post) =
      insertion_sort cmp (length pre) (length pre + length ?ys) (length pre + length ?ys + length zs) (pre @ ?ys @ zs @ post)"
    by (subst insertion_sort.simps) (simp add: len)
  moreover from Cons.IH [of ?ys] insert_right_sorted [OF c Cons.prems]
  obtain ws where "insertion_sort cmp (length pre) (length pre + length ?ys) (length pre + length ?ys + length zs) (pre @ ?ys @ zs @ post) =
      pre @ ws @ post" "sorted_cmp cmp ws" "length ws = length ?ys + length zs" by blast
  ultimately show ?case using len by auto
qed

lemma insertion_sort_range:
  assumes c: "cmp_order cmp" and n: "a + n \<le> length xs"
  shows "sorted_cmp cmp (take n (drop a (insertion_sort cmp a (a + 1) (a + n) xs)))"
proof (cases n)
  case 0
  then show ?thesis by simp
next
  case (Suc m)
  let ?y = "xs ! a" and ?zs = "take m (drop (Suc a) xs)" and ?post = "drop (a + n) xs"
  have xs: "xs = take a xs @ [?y] @ ?zs @ ?post"
    using n Suc id_take_nth_drop [of a xs] append_take_drop_id [of m "drop (Suc a) xs"] by (simp add: add.commute)
  have len: "length (take a xs) = a" "length ?zs = m" using n Suc by auto
  from insertion_sort_sorted [OF c, of "[?y]" "take a xs" ?zs ?post, unfolded xs [symmetric] len] Suc
  obtain ws where "insertion_sort cmp a (a + 1) (a + n) xs = take a xs @ ws @ ?post"
    "sorted_cmp cmp ws" "length ws = n" by auto
  then show ?thesis using len(1) by simp
qed

text \<open>No two elements of the array compare equal.\<close>

definition distinct_cmp :: "'a cmp \<Rightarrow> 'a list \<Rightarrow> bool" where
  "distinct_cmp cmp xs \<longleftrightarrow> (\<forall>i j. i < length xs \<and> j < length xs \<and> i \<noteq> j \<longrightarrow> cmp (xs ! i) (xs ! j) \<noteq> 0)"

lemma cmp_word_zero:
  assumes "cmp_order cmp" and "cmp x y \<noteq> 0"
  shows "\<not> (word_of_int (cmp x y) :: ulong) \<le> 0" "(word_of_int (cmp x y) :: ulong) \<noteq> 0"
proof -
  have "- (2 ^ 31) \<le> cmp x y" "cmp x y < 2 ^ 31" using assms(1) by (simp_all add: cmp_order_def)
  then have "sint (word_of_int (cmp x y) :: ulong) = cmp x y"
    by (simp add: signed_of_int signed_take_bit_int_eq_self)
  with assms(2) have "(word_of_int (cmp x y) :: ulong) \<noteq> 0" by auto
  then show "\<not> (word_of_int (cmp x y) :: ulong) \<le> 0" "(word_of_int (cmp x y) :: ulong) \<noteq> 0"
    by simp_all
qed

lemma swap_at_nth:
  "i < length xs \<Longrightarrow> j < length xs \<Longrightarrow> k < length xs \<Longrightarrow>
    swap_at xs i j ! k = xs ! (if k = j then i else if k = i then j else k)"
  by (auto simp: swap_at_def nth_list_update)

lemma distinct_cmp_swap:
  assumes "distinct_cmp cmp xs" and "i < length xs" and "j < length xs"
  shows "distinct_cmp cmp (swap_at xs i j)"
  using assms unfolding distinct_cmp_def by (auto simp: swap_at_nth)

lemma scan_down_distinct:
  assumes c: "cmp_order cmp" and d: "distinct_cmp cmp (p_xs p)"
  shows "a < p_pb p \<Longrightarrow> p_pc p < length (p_xs p) \<Longrightarrow>
    p_xs (scan_down cmp a p) = p_xs p \<and> p_swap_cnt (scan_down cmp a p) = p_swap_cnt p"
  using d
proof (induction "p_pc p" arbitrary: p rule: less_induct)
  case less
  let ?r = "word_of_int (cmp (p_xs p ! p_pc p) (p_xs p ! a)) :: ulong"
  show ?case
  proof (cases "p_pc p > 0 \<and> p_pb p \<le> p_pc p")
    case True
    then have "cmp (p_xs p ! p_pc p) (p_xs p ! a) \<noteq> 0"
      using less.prems by (auto simp: distinct_cmp_def)
    from cmp_word_zero [OF c this] have st: "scan_down_step ?r p = p\<lparr>p_pc := p_pc p - 1\<rparr>"
      by (simp add: scan_down_step_def)
    have "scan_down cmp a p = scan_down cmp a (p\<lparr>p_pc := p_pc p - 1\<rparr>)"
      using True st by (subst scan_down.simps) (simp add: Let_def)
    moreover have "p_xs (scan_down cmp a (p\<lparr>p_pc := p_pc p - 1\<rparr>)) = p_xs (p\<lparr>p_pc := p_pc p - 1\<rparr>) \<and>
        p_swap_cnt (scan_down cmp a (p\<lparr>p_pc := p_pc p - 1\<rparr>)) = p_swap_cnt (p\<lparr>p_pc := p_pc p - 1\<rparr>)"
      by (rule less.hyps) (use True less.prems in auto)
    ultimately show ?thesis by simp
  next
    case False
    then show ?thesis by (subst (1 2) scan_down.simps) (auto simp: Let_def)
  qed
qed

lemma part_loop_distinct:
  assumes c: "cmp_order cmp" and d: "distinct_cmp cmp xs" and n: "1 < n" "a + n \<le> length xs"
  shows "p_swap_cnt (part_loop cmp a (part_start cmp xs a n)) = 0"
proof -
  let ?p = "part_start cmp xs a n"
  have d': "distinct_cmp cmp (p_xs ?p)"
    using d n choose_pivot_range [where n = n and a = a and cmp = cmp and xs = xs]
    by (auto simp: part_start_def intro!: distinct_cmp_swap)
  have len: "length (p_xs ?p) = length xs" by (simp add: part_start_def)
  have "cmp (p_xs ?p ! p_pb ?p) (p_xs ?p ! a) \<noteq> 0"
    using d' n len unfolding distinct_cmp_def by (simp add: part_start_def)
  from cmp_word_zero [OF c this] have "scan_up cmp a ?p = ?p" by (subst scan_up.simps) (simp add: Let_def)
  then have "part_loop cmp a ?p = scan_down cmp a ?p"
    using part_loop_eq [OF part_start_ok [OF n(1), of a cmp xs], of cmp] by simp
  moreover have "a < p_pb ?p" "p_pc ?p < length (p_xs ?p)" using n len by (simp_all add: part_start_def)
  ultimately show ?thesis using scan_down_distinct [OF c d'] by (simp add: part_start_def)
qed

text \<open>
  C14: \<^verbatim>\<open>qsort()\<close> returns, and the array it leaves is a permutation of the array it got; what
  lies before and behind the sorted elements is untouched.
\<close>

theorem qsort_permutes:
  assumes "a + n \<le> length xs"
  shows "length (qsort cmp xs a n) = length xs \<and> mset (qsort cmp xs a n) = mset xs \<and>
    take a (qsort cmp xs a n) = take a xs \<and> drop (a + n) (qsort cmp xs a n) = drop (a + n) xs"
  using qsort_perm [OF assms, of cmp] by (simp add: perm_range_def)

theorem qsort_permutes_witness:
  "length (qsort (\<lambda>x y. x - y) [3, 1, 2 :: int] 0 3) = 3 \<and> mset (qsort (\<lambda>x y. x - y) [3, 1, 2] 0 3) = mset [3, 1, 2] \<and>
   take 0 (qsort (\<lambda>x y. x - y) [3, 1, 2] 0 3) = [] \<and> drop (0 + 3) (qsort (\<lambda>x y. x - y) [3, 1, 2] 0 3) = []"
  using qsort_permutes [of 0 3 "[3, 1, 2 :: int]" "\<lambda>x y. x - y"] by simp

text \<open>
  C15: \<^verbatim>\<open>qsort()\<close> leaves the elements in order when there are fewer than seven or when no two
  of the array compare equal, for every comparison function that is an order.
\<close>

theorem qsort_sorts:
  assumes "cmp_order cmp" and "a + n \<le> length xs" and "n < 7 \<or> distinct_cmp cmp xs"
  shows "sorted_wrt (\<lambda>x y. cmp x y \<le> 0) (take n (drop a (qsort cmp xs a n)))"
proof (cases "n < 7")
  case True
  then have "qsort cmp xs a n = insertion_sort cmp a (a + 1) (a + n) xs" by (subst qsort.simps) simp
  with insertion_sort_range [OF assms(1,2)] show ?thesis by simp
next
  case False
  let ?p = "part_loop cmp a (part_start cmp xs a n)"
  have "1 < n" using False by simp
  from part_loop_distinct [OF assms(1) _ this assms(2)] assms(3) False
  have "qsort cmp xs a n = insertion_sort cmp a (a + 1) (a + n) (p_xs ?p)"
    by (subst qsort.simps) (simp add: Let_def)
  moreover have "a + n \<le> length (p_xs ?p)"
    using part_loop_perm [OF part_start_perm [OF \<open>1 < n\<close> assms(2)] assms(2), of cmp cmp] assms(2)
    by (simp add: part_perm_def perm_range_def)
  ultimately show ?thesis using insertion_sort_range [OF assms(1)] by simp
qed

definition nat_cmp :: "nat cmp" where
  "nat_cmp x y = (if x < y then - 1 else if x = y then 0 else 1)"

lemma nat_cmp_order: "cmp_order nat_cmp"
  by (auto simp: cmp_order_def nat_cmp_def)

theorem qsort_sorts_witness:
  "sorted_wrt (\<lambda>x y. nat_cmp x y \<le> 0) (take 8 (drop 0 (qsort nat_cmp [8, 3, 5, 1, 7, 2, 6, 4] 0 8)))"
proof (rule qsort_sorts [OF nat_cmp_order])
  have "distinct [8, 3, 5, 1, 7, 2, 6, 4 :: nat]" by simp
  then show "8 < (7 :: nat) \<or> distinct_cmp nat_cmp [8, 3, 5, 1, 7, 2, 6, 4]"
    unfolding distinct_cmp_def nat_cmp_def distinct_conv_nth by auto
qed simp


section \<open>Binary search\<close>

lemma bsearch_loop_result:
  assumes le: "\<And>i j. i \<le> j \<Longrightarrow> j < length base \<Longrightarrow> cmp (base ! i) \<le> 0 \<Longrightarrow> cmp (base ! j) \<le> 0"
    and lt: "\<And>i j. i \<le> j \<Longrightarrow> j < length base \<Longrightarrow> cmp (base ! i) < 0 \<Longrightarrow> cmp (base ! j) < 0"
  shows "upper \<le> length base \<Longrightarrow> upper \<le> 2 ^ 31 \<Longrightarrow>
    \<exists>r. bsearch_loop cmp base lower upper = Some r \<and>
      (case r of Some i \<Rightarrow> lower \<le> i \<and> i < upper \<and> cmp (base ! i) = 0
       | None \<Rightarrow> (\<forall>i. lower \<le> i \<longrightarrow> i < upper \<longrightarrow> cmp (base ! i) \<noteq> 0))"
proof (induction "upper - lower" arbitrary: lower upper rule: less_induct)
  case less
  let ?m = "(lower + upper) div 2"
  show ?case
  proof (cases "lower < upper")
    case False
    then show ?thesis by (subst bsearch_loop.simps) auto
  next
    case True
    then have sz: "size_add lower upper = lower + upper" by (intro size_add_id) (use less.prems in auto)
    have m: "lower \<le> ?m" "?m < upper" using True by auto
    have step: "bsearch_loop cmp base lower upper =
        (if cmp (base ! ?m) = 0 then Some (Some ?m)
         else if cmp (base ! ?m) < 0 then bsearch_loop cmp base lower ?m
         else bsearch_loop cmp base (?m + 1) upper)"
      using True by (subst bsearch_loop.simps) (simp add: Let_def sz)
    consider "cmp (base ! ?m) = 0" | (lo) "cmp (base ! ?m) < 0" | (hi) "cmp (base ! ?m) > 0" by linarith
    then show ?thesis
    proof cases
      case 1
      with step m show ?thesis by auto
    next
      case lo
      have "\<exists>r. bsearch_loop cmp base lower ?m = Some r \<and>
          (case r of Some i \<Rightarrow> lower \<le> i \<and> i < ?m \<and> cmp (base ! i) = 0
           | None \<Rightarrow> (\<forall>i. lower \<le> i \<longrightarrow> i < ?m \<longrightarrow> cmp (base ! i) \<noteq> 0))"
        by (rule less.hyps) (use m less.prems True in auto)
      then obtain r where r: "bsearch_loop cmp base lower ?m = Some r" "case r of Some i \<Rightarrow> lower \<le> i \<and> i < ?m \<and> cmp (base ! i) = 0
           | None \<Rightarrow> (\<forall>i. lower \<le> i \<longrightarrow> i < ?m \<longrightarrow> cmp (base ! i) \<noteq> 0)" by blast
      have up: "cmp (base ! i) < 0" if "?m \<le> i" "i < upper" for i
        using lt [OF that(1)] that lo less.prems by auto
      have "cmp (base ! i) \<noteq> 0" if "lower \<le> i" "i < upper" "r = None" for i
        using r(2) that up [of i] by (cases "i < ?m") auto
      with r m lo step show ?thesis by (auto split: option.splits intro!: exI [of _ r])
    next
      case hi
      have "\<exists>r. bsearch_loop cmp base (?m + 1) upper = Some r \<and>
          (case r of Some i \<Rightarrow> ?m + 1 \<le> i \<and> i < upper \<and> cmp (base ! i) = 0
           | None \<Rightarrow> (\<forall>i. ?m + 1 \<le> i \<longrightarrow> i < upper \<longrightarrow> cmp (base ! i) \<noteq> 0))"
        by (rule less.hyps) (use m less.prems True in auto)
      then obtain r where r: "bsearch_loop cmp base (?m + 1) upper = Some r" "case r of Some i \<Rightarrow> ?m + 1 \<le> i \<and> i < upper \<and> cmp (base ! i) = 0
           | None \<Rightarrow> (\<forall>i. ?m + 1 \<le> i \<longrightarrow> i < upper \<longrightarrow> cmp (base ! i) \<noteq> 0)" by blast
      have down: "cmp (base ! i) > 0" if "i \<le> ?m" for i
        using le [OF that] hi m less.prems by force
      have "cmp (base ! i) \<noteq> 0" if "lower \<le> i" "i < upper" "r = None" for i
        using r(2) that down [of i] by (cases "i \<le> ?m") auto
      with r m hi step show ?thesis by (auto split: option.splits intro!: exI [of _ r])
    qed
  qed
qed

text \<open>The array is sorted for the key: the comparisons go from positive over zero to negative.\<close>

definition key_sorted :: "('b \<Rightarrow> int) \<Rightarrow> 'b list \<Rightarrow> bool" where
  "key_sorted cmp base \<longleftrightarrow> (\<forall>i j. i \<le> j \<and> j < length base \<longrightarrow> sgn (cmp (base ! j)) \<le> sgn (cmp (base ! i)))"

text \<open>
  C17: \<^verbatim>\<open>bsearch()\<close> on an array of at most \<open>2 ^ 31\<close> elements that is sorted for the key
  returns; it finds an element that compares equal to the key whenever there is one among the
  \<open>n\<close> elements, and \<^verbatim>\<open>NULL\<close> otherwise.
\<close>

theorem bsearch_correct:
  assumes "key_sorted (cmp k) base" and "n \<le> length base" and "n \<le> 2 ^ 31" and "0 < n" and "0 < sz"
  shows "\<exists>r. bsearch (Some k) (Some base) n sz (Some cmp) e = Some (r, e) \<and>
    (case r of Some i \<Rightarrow> i < n \<and> cmp k (base ! i) = 0 | None \<Rightarrow> (\<forall>i. i < n \<longrightarrow> cmp k (base ! i) \<noteq> 0))"
proof -
  have sg: "sgn (cmp k (base ! j)) \<le> sgn (cmp k (base ! i))" if "i \<le> j" "j < length base" for i j
    using assms(1) that by (auto simp: key_sorted_def)
  have "\<exists>r. bsearch_loop (cmp k) base 0 n = Some r \<and>
      (case r of Some i \<Rightarrow> 0 \<le> i \<and> i < n \<and> cmp k (base ! i) = 0
       | None \<Rightarrow> (\<forall>i. 0 \<le> i \<longrightarrow> i < n \<longrightarrow> cmp k (base ! i) \<noteq> 0))"
  proof (rule bsearch_loop_result)
    fix i j assume "i \<le> j" "j < length base"
    from sg [OF this] show "cmp k (base ! i) \<le> 0 \<Longrightarrow> cmp k (base ! j) \<le> 0" "cmp k (base ! i) < 0 \<Longrightarrow> cmp k (base ! j) < 0"
      by (auto simp: sgn_if split: if_splits)
  qed (use assms in auto)
  then show ?thesis using assms(4,5) by (auto simp: bsearch_def split: option.splits)
qed

theorem bsearch_correct_witness:
  "\<exists>r. bsearch (Some 5) (Some [1, 3, 5, 8]) 4 1 (Some nat_cmp) 0 = Some (Some r, 0) \<and> [1, 3, 5, 8] ! r = (5 :: nat)"
proof -
  have c: "nat_cmp 5 ([1, 3, 5, 8] ! 2) = 0" by code_simp
  have "key_sorted (nat_cmp 5) [1, 3, 5, 8]"
    by (auto simp: key_sorted_def nat_cmp_def nth_Cons' split: if_splits)
  then have "\<exists>r. bsearch (Some 5) (Some [1, 3, 5, 8]) 4 1 (Some nat_cmp) 0 = Some (r, 0) \<and>
      (case r of Some i \<Rightarrow> i < 4 \<and> nat_cmp 5 ([1, 3, 5, 8] ! i) = 0 | None \<Rightarrow> (\<forall>i. i < 4 \<longrightarrow> nat_cmp 5 ([1, 3, 5, 8] ! i) \<noteq> 0))"
    by (rule bsearch_correct) simp_all
  then obtain r where r: "bsearch (Some 5) (Some [1, 3, 5, 8]) 4 1 (Some nat_cmp) 0 = Some (r, 0)"
    "case r of Some i \<Rightarrow> i < 4 \<and> nat_cmp 5 ([1, 3, 5, 8] ! i) = 0 | None \<Rightarrow> (\<forall>i. i < 4 \<longrightarrow> nat_cmp 5 ([1, 3, 5, 8] ! i) \<noteq> 0)"
    by auto
  obtain i where "r = Some i" "nat_cmp 5 ([1, 3, 5, 8] ! i) = 0"
  proof (cases r)
    case None
    with r(2) have "\<forall>i. i < 4 \<longrightarrow> nat_cmp 5 ([1, 3, 5, 8] ! i) \<noteq> 0" by (simp only: option.case)
    from spec [OF this, of 2] c show ?thesis by simp
  qed (use r(2) that in \<open>simp only: option.case\<close>)
  with r(1) show ?thesis by (auto simp: nat_cmp_def split: if_splits)
qed

section \<open>Linear search\<close>

lemma lfind_from_Some:
  "lfind_from d base cur e = Some i \<Longrightarrow> cur \<le> i \<and> i < e \<and> \<not> d (base ! i) \<and> (\<forall>j. cur \<le> j \<longrightarrow> j < i \<longrightarrow> d (base ! j))"
proof (induction d base cur e rule: lfind_from.induct)
  case (1 d base cur e)
  show ?case
  proof (cases "cur < e \<and> d (base ! cur)")
    case True
    with 1 have "Suc cur \<le> i \<and> i < e \<and> \<not> d (base ! i) \<and> (\<forall>j. Suc cur \<le> j \<longrightarrow> j < i \<longrightarrow> d (base ! j))"
      by (subst (asm) (2) lfind_from.simps) auto
    with True show ?thesis by (metis Suc_leD Suc_leI le_neq_implies_less)
  next
    case False
    with 1(2) show ?thesis by (subst (asm) lfind_from.simps) (auto split: if_splits)
  qed
qed

lemma lfind_from_None:
  "lfind_from d base cur e = None \<Longrightarrow> cur \<le> j \<Longrightarrow> j < e \<Longrightarrow> d (base ! j)"
proof (induction d base cur e rule: lfind_from.induct)
  case (1 d base cur e)
  then show ?case
    by (subst (asm) (2) lfind_from.simps) (cases "j = cur"; auto split: if_splits)
qed

lemma lfind_from_first:
  "\<not> d (base ! i) \<Longrightarrow> (\<And>j. cur \<le> j \<Longrightarrow> j < i \<Longrightarrow> d (base ! j)) \<Longrightarrow> cur \<le> i \<Longrightarrow> i < e \<Longrightarrow>
    lfind_from d base cur e = Some i"
proof (induction "i - cur" arbitrary: cur)
  case 0
  then show ?case by (subst lfind_from.simps) auto
next
  case (Suc k)
  then have "lfind_from d base (Suc cur) e = Some i" by auto
  moreover have "d (base ! cur)" using Suc by auto
  ultimately show ?case using Suc by (subst lfind_from.simps) auto
qed

text \<open>
  C18: \<^verbatim>\<open>lsearch()\<close> on an array with room returns a position where \<^verbatim>\<open>lfind()\<close> afterwards finds
  the key. The elements that were in use keep their places, and the array grows, by the key at its
  end, exactly when \<^verbatim>\<open>lfind()\<close> did not find it before.
\<close>

theorem lsearch_lfind:
  assumes "nelp < length base" and "compar key key = 0"
  shows "\<exists>i base' n. lsearch key base nelp compar = Some (i, base', n) \<and> lfind key base' n compar = Some i \<and>
    length base' = length base \<and> take nelp base' = take nelp base \<and>
    (n = nelp \<and> lfind key base nelp compar = Some i \<or>
     n = nelp + 1 \<and> i = nelp \<and> base' ! i = key \<and> lfind key base nelp compar = None)"
proof (cases "lfind_from (\<lambda>x. compar x key \<noteq> 0) base 0 nelp")
  case None
  let ?b = "base[nelp := key]"
  have "compar (base ! j) key \<noteq> 0" if "j < nelp" for j using lfind_from_None [OF None, of j] that by simp
  then have "lfind_from (\<lambda>x. compar x key \<noteq> 0) ?b 0 (nelp + 1) = Some nelp"
    using assms by (intro lfind_from_first) auto
  with None assms show ?thesis by (auto simp: lsearch_def lfind_def)
next
  case (Some i)
  then show ?thesis by (auto simp: lsearch_def lfind_def)
qed

theorem lsearch_lfind_witness:
  "\<exists>i base' n. lsearch 7 [4, 9, 0] 2 nat_cmp = Some (i, base', n) \<and> lfind 7 base' n nat_cmp = Some i \<and>
    length base' = 3 \<and> take 2 base' = [4, 9 :: nat]"
  using lsearch_lfind [of 2 "[4, 9, 0]" nat_cmp 7] by (force simp: nat_cmp_def)

end
