(* ===== verification/Search_Table.thy ===== *)
theory Search_Table
  imports Sort_Search
begin

unbundle bit_operations_syntax

text \<open>
  The dictionaries of \<^verbatim>\<open>src/library/search\<close>: the binary trees of \<^verbatim>\<open>tsearch\<close>, \<^verbatim>\<open>tfind\<close>,
  \<^verbatim>\<open>tdelete\<close>, \<^verbatim>\<open>twalk\<close> and \<^verbatim>\<open>tdestroy\<close>, and the hash tables of \<^verbatim>\<open>hcreate_r\<close>,
  \<^verbatim>\<open>hsearch_r\<close> and \<^verbatim>\<open>hdestroy_r\<close> with the hash function \<^verbatim>\<open>hash4\<close>.

  A \<^verbatim>\<open>node_t\<close> is a value that carries its address, since no two links of a tree share a node; a
  bucket is the list of its \<^verbatim>\<open>internal_entry\<close> elements. What \<^verbatim>\<open>malloc()\<close> returns is an argument.
  The locale \<open>first_wins\<close> is what both promise a client: an entry that is there is never replaced.
\<close>

section \<open>Binary trees\<close>

datatype 'k node = Null | Node nat "'k node" 'k "'k node"

datatype VISIT = preorder | postorder | endorder | leaf

fun llink :: "'k node \<Rightarrow> 'k node" where
  "llink (Node a l k r) = l"
| "llink Null = Null"

text \<open>\<^verbatim>\<open>tfind\<close>: the root variable is \<open>None\<close> when \<^verbatim>\<open>vrootp\<close> is \<^verbatim>\<open>NULL\<close>.\<close>

fun tfind_loop :: "('k \<Rightarrow> int) \<Rightarrow> 'k node \<Rightarrow> nat option" where
  "tfind_loop c Null = None"
| "tfind_loop c (Node a l k r) =
     (if c k = 0 then Some a else if c k < 0 then tfind_loop c l else tfind_loop c r)"

definition tfind :: "'k \<Rightarrow> 'k node option \<Rightarrow> 'k cmp \<Rightarrow> nat option" where
  "tfind vkey vrootp compar = (case vrootp of None \<Rightarrow> None | Some root \<Rightarrow> tfind_loop (compar vkey) root)"

text \<open>\<^verbatim>\<open>tsearch\<close>: \<open>q\<close> is what \<^verbatim>\<open>malloc()\<close> returns for the new node.\<close>

fun tsearch_loop :: "nat option \<Rightarrow> 'k \<Rightarrow> ('k \<Rightarrow> int) \<Rightarrow> 'k node \<Rightarrow> nat option \<times> 'k node" where
  "tsearch_loop q vkey c Null =
     (case q of None \<Rightarrow> (None, Null) | Some a \<Rightarrow> (Some a, Node a Null vkey Null))"
| "tsearch_loop q vkey c (Node a l k r) =
     (if c k = 0 then (Some a, Node a l k r)
      else if c k < 0 then (case tsearch_loop q vkey c l of (res, l') \<Rightarrow> (res, Node a l' k r))
      else (case tsearch_loop q vkey c r of (res, r') \<Rightarrow> (res, Node a l k r')))"

definition tsearch :: "'k \<Rightarrow> 'k node option \<Rightarrow> 'k cmp \<Rightarrow> nat option \<Rightarrow> nat option \<times> 'k node option" where
  "tsearch vkey vrootp compar q =
     (case vrootp of None \<Rightarrow> (None, None)
      | Some root \<Rightarrow> map_prod id Some (tsearch_loop q vkey (compar vkey) root))"

text \<open>
  \<^verbatim>\<open>tdelete\<close>. Step D3 goes down the left links of \<open>r\<close>, which has one, and takes the last node \<open>q\<close>
  out of the tree; the node and the tree without it are the result.
\<close>

fun unlink_leftmost :: "'k node \<Rightarrow> (nat \<times> 'k) \<times> 'k node" where
  "unlink_leftmost (Node a (Node b Null k r') k' r) = ((b, k), Node a r' k' r)"
| "unlink_leftmost (Node a l k r) = (case unlink_leftmost l of (q, l') \<Rightarrow> (q, Node a l' k r))"
| "unlink_leftmost Null = undefined"

text \<open>Steps D1 to D4: the tree that takes the place of the node with links \<open>q\<close> and \<open>r\<close>.\<close>

definition tdelete_node :: "'k node \<Rightarrow> 'k node \<Rightarrow> 'k node" where
  "tdelete_node q r =
     (if q = Null then r
      else case r of Null \<Rightarrow> q
      | Node a l k r' \<Rightarrow>
          (if l = Null then Node a q k r'
           else case unlink_leftmost r of ((b, k'), r'') \<Rightarrow> Node b q k' r''))"

text \<open>The result, the new tree and the node that was freed.\<close>

fun tdelete_loop :: "('k \<Rightarrow> int) \<Rightarrow> nat \<Rightarrow> 'k node \<Rightarrow> nat option \<times> 'k node \<times> nat option" where
  "tdelete_loop c p Null = (None, Null, None)"
| "tdelete_loop c p (Node a l k r) =
     (if c k = 0 then (Some p, tdelete_node l r, Some a)
      else if c k < 0 then (case tdelete_loop c a l of (res, l', f) \<Rightarrow> (res, Node a l' k r, f))
      else (case tdelete_loop c a r of (res, r', f) \<Rightarrow> (res, Node a l k r', f)))"

definition tdelete :: "'k \<Rightarrow> 'k node option \<Rightarrow> 'k cmp \<Rightarrow> nat option \<times> 'k node option \<times> nat option" where
  "tdelete vkey vrootp compar =
     (case vrootp of None \<Rightarrow> (None, None, None)
      | Some Null \<Rightarrow> (None, Some Null, None)
      | Some (Node p l k r) \<Rightarrow>
          (case tdelete_loop (compar vkey) p (Node p l k r) of (res, root, f) \<Rightarrow> (res, Some root, f)))"

text \<open>\<^verbatim>\<open>twalk\<close>: the calls of the action, in their order.\<close>

fun trecurse :: "'k node \<Rightarrow> nat \<Rightarrow> (nat \<times> VISIT \<times> nat) list" where
  "trecurse Null level = []"
| "trecurse (Node a l k r) level =
     (if l = Null \<and> r = Null then [(a, leaf, level)]
      else (a, preorder, level) # (if l \<noteq> Null then trecurse l (level + 1) else []) @
           (a, postorder, level) # (if r \<noteq> Null then trecurse r (level + 1) else []) @
           [(a, endorder, level)])"

text \<open>\<open>action\<close> is false for an action that is \<^verbatim>\<open>NULL\<close>.\<close>

definition twalk :: "'k node \<Rightarrow> bool \<Rightarrow> (nat \<times> VISIT \<times> nat) list" where
  "twalk vroot action = (if vroot \<noteq> Null \<and> action then trecurse vroot 0 else [])"

text \<open>\<^verbatim>\<open>tdestroy\<close>: the calls of the client's \<^verbatim>\<open>freefct\<close> and of \<^verbatim>\<open>free()\<close>.\<close>

datatype 'k destroyed = Free_key 'k | Free_node nat

fun tdestroy_recurse :: "'k node \<Rightarrow> 'k destroyed list" where
  "tdestroy_recurse Null = []"
| "tdestroy_recurse (Node a l k r) =
     (if l \<noteq> Null then tdestroy_recurse l else []) @ (if r \<noteq> Null then tdestroy_recurse r else []) @
     [Free_key k, Free_node a]"

definition tdestroy :: "'k node \<Rightarrow> 'k destroyed list" where
  "tdestroy vrootp = (if vrootp \<noteq> Null then tdestroy_recurse vrootp else [])"

section \<open>Hash tables\<close>

text \<open>
  \<^verbatim>\<open>hash4\<close> is a Duff's device: the first round of the loop enters its body where the number of
  bytes left over by eights says. Reading past the key is \<open>None\<close>.
\<close>

fun HASH4 :: "nat \<Rightarrow> ulong \<times> byte list \<Rightarrow> (ulong \<times> byte list) option" where
  "HASH4 0 s = Some s"
| "HASH4 (Suc n) (h, key) =
     (case key of [] \<Rightarrow> None | c # key' \<Rightarrow> HASH4 n (push_bit 5 h + h + ucast c, key'))"

function hash4_loop :: "nat \<Rightarrow> ulong \<Rightarrow> ulong \<times> byte list \<Rightarrow> ulong option" where
  "hash4_loop entry loop s =
     (case HASH4 entry s of None \<Rightarrow> None
      | Some s' \<Rightarrow> if loop - 1 = 0 then Some (fst s') else hash4_loop 8 (loop - 1) s')"
  by pat_completeness auto
termination
proof (relation "measure (\<lambda>(entry, loop, s). unat (loop - 1))")
  fix entry :: nat and loop :: ulong and s s' :: "ulong \<times> byte list"
  assume "loop - 1 \<noteq> 0"
  from unat_pred_less [OF this] show "((8, loop - 1, s'), (entry, loop, s)) \<in> measure (\<lambda>(entry, loop, s). unat (loop - 1))"
    by simp
qed simp

declare hash4_loop.simps [simp del]

definition hash4 :: "byte list \<Rightarrow> ulong \<Rightarrow> ulong option" where
  "hash4 key len =
     (if len > 0
      then hash4_loop (if len AND 7 = 0 then 8 else unat (len AND 7)) (drop_bit 3 (len + 8 - 1)) (0, key)
      else Some 0)"

text \<open>An \<^verbatim>\<open>ENTRY\<close> with the address of the \<^verbatim>\<open>internal_entry\<close> it is in.\<close>

record 'd hentry =
  he_addr :: nat
  he_key :: "byte list"
  he_data :: 'd

record 'd hsearch_data =
  htable :: "'d hentry list list option"
  htablesize :: ulong

datatype ACTION = FIND | ENTER

abbreviation (input) MIN_BUCKETS :: ulong where "MIN_BUCKETS \<equiv> 16"
abbreviation (input) MAX_BUCKETS :: ulong where "MAX_BUCKETS \<equiv> 67108864"

function count_shifts :: "nat \<Rightarrow> ulong \<Rightarrow> nat" where
  "count_shifts p2 nel = (if nel \<noteq> 0 then count_shifts (p2 + 1) (drop_bit 1 nel) else p2)"
  by pat_completeness auto
termination
  by (relation "measure (\<lambda>(p2, nel). unat nel)") (auto dest: unat_drop_bit_1_less)

declare count_shifts.simps [simp del]

definition bucket_count :: "ulong \<Rightarrow> ulong" where
  "bucket_count nel0 =
     (let nel1 = (if nel0 < MIN_BUCKETS then MIN_BUCKETS else nel0);
          nel = (if nel1 > MAX_BUCKETS then MAX_BUCKETS else nel1)
      in if nel AND (nel - 1) \<noteq> 0 then push_bit (count_shifts 0 nel) 1 else nel)"

text \<open>
  \<^verbatim>\<open>hcreate_r\<close>: the result, \<^verbatim>\<open>errno\<close> when it is set, and the table; \<open>m\<close> says whether
  \<^verbatim>\<open>malloc()\<close> has the memory.
\<close>

definition hcreate_r :: "ulong \<Rightarrow> 'd hsearch_data \<Rightarrow> bool \<Rightarrow> int \<times> int option \<times> 'd hsearch_data" where
  "hcreate_r nel0 ht m =
     (if htable ht \<noteq> None then (0, Some EINVAL, ht)
      else
        let ht1 = ht\<lparr>htablesize := bucket_count nel0\<rparr> in
        if \<not> m then (0, Some ENOMEM, ht1)
        else (1, None, ht1\<lparr>htable := Some (replicate (unat (htablesize ht1)) [])\<rparr>))"

fun bucket_find :: "byte list \<Rightarrow> 'd hentry list \<Rightarrow> 'd hentry option" where
  "bucket_find key [] = None"
| "bucket_find key (ie # head) = (if he_key ie = key then Some ie else bucket_find key head)"

text \<open>
  \<^verbatim>\<open>hsearch_r\<close>: the result, the entry that \<^verbatim>\<open>*retval\<close> points to, and the table. A table that
  was not created is \<open>None\<close>; so is an index outside it.
\<close>

definition hsearch_r ::
  "byte list \<times> 'd \<Rightarrow> ACTION \<Rightarrow> 'd hsearch_data \<Rightarrow> nat option \<Rightarrow> (int \<times> 'd hentry option \<times> 'd hsearch_data) option" where
  "hsearch_r item action ht m =
     (case (htable ht, hash4 (fst item) (of_nat (length (fst item)))) of
        (Some buckets, Some hashval) \<Rightarrow>
          (let i = unat (hashval AND (htablesize ht - 1)) in
           if i \<ge> length buckets then None
           else case bucket_find (fst item) (buckets ! i) of
             Some ie \<Rightarrow> Some (1, Some ie, ht)
           | None \<Rightarrow>
               (if action = FIND then Some (0, None, ht)
                else case m of None \<Rightarrow> Some (0, None, ht)
                | Some a \<Rightarrow>
                    (let ie = \<lparr>he_addr = a, he_key = fst item, he_data = snd item\<rparr>
                     in Some (1, Some ie, ht\<lparr>htable := Some (buckets[i := ie # buckets ! i])\<rparr>))))
      | _ \<Rightarrow> None)"

text \<open>\<^verbatim>\<open>hdestroy_r\<close>: the entries it frees, in their order, and the table.\<close>

definition hdestroy_r :: "'d hsearch_data \<Rightarrow> nat list \<times> 'd hsearch_data" where
  "hdestroy_r ht =
     (case htable ht of None \<Rightarrow> ([], ht)
      | Some buckets \<Rightarrow>
          (concat (map (map he_addr) (take (unat (htablesize ht)) buckets)), ht\<lparr>htable := None\<rparr>))"

text \<open>The variants on the table of the library, which is the state they are given.\<close>

definition hcreate :: "ulong \<Rightarrow> 'd hsearch_data \<Rightarrow> bool \<Rightarrow> int \<times> int option \<times> 'd hsearch_data" where
  "hcreate nel htab m = hcreate_r nel htab m"

definition hsearch ::
  "byte list \<times> 'd \<Rightarrow> ACTION \<Rightarrow> 'd hsearch_data \<Rightarrow> nat option \<Rightarrow> ('d hentry option \<times> 'd hsearch_data) option" where
  "hsearch item action htab m = map_option snd (hsearch_r item action htab m)"

definition hdestroy :: "'d hsearch_data \<Rightarrow> nat list \<times> 'd hsearch_data" where
  "hdestroy htab = hdestroy_r htab"

section \<open>Trees in order\<close>

text \<open>The nodes of a tree in symmetric order, with their keys.\<close>

fun nodes :: "'k node \<Rightarrow> (nat \<times> 'k) list" where
  "nodes Null = []"
| "nodes (Node a l k r) = nodes l @ (a, k) # nodes r"

definition ordered :: "'k cmp \<Rightarrow> 'k node \<Rightarrow> bool" where
  "ordered cmp t \<longleftrightarrow> sorted_wrt (\<lambda>x y. cmp (snd x) (snd y) < 0) (nodes t)"

text \<open>The comparisons with one key lead to it: they fall, and at most one of them is zero.\<close>

definition guided :: "('k \<Rightarrow> int) \<Rightarrow> (nat \<times> 'k) list \<Rightarrow> bool" where
  "guided c xs \<longleftrightarrow> sorted_wrt (\<lambda>x y. sgn (c (snd y)) \<le> sgn (c (snd x)) \<and> (c (snd x) \<noteq> 0 \<or> c (snd y) \<noteq> 0)) xs"

lemma guided_append:
  "guided c (xs @ ys) \<longleftrightarrow> guided c xs \<and> guided c ys \<and>
     (\<forall>x\<in>set xs. \<forall>y\<in>set ys. sgn (c (snd y)) \<le> sgn (c (snd x)) \<and> (c (snd x) \<noteq> 0 \<or> c (snd y) \<noteq> 0))"
  by (auto simp: guided_def sorted_wrt_append)

lemma guided_node:
  "guided c (nodes (Node a l k r)) \<longleftrightarrow> guided c (nodes l) \<and> guided c (nodes r) \<and>
     (\<forall>x\<in>set (nodes l). sgn (c k) \<le> sgn (c (snd x)) \<and> (c (snd x) \<noteq> 0 \<or> c k \<noteq> 0)) \<and>
     (\<forall>y\<in>set (nodes r). sgn (c (snd y)) \<le> sgn (c k) \<and> (c k \<noteq> 0 \<or> c (snd y) \<noteq> 0)) \<and>
     (\<forall>x\<in>set (nodes l). \<forall>y\<in>set (nodes r). sgn (c (snd y)) \<le> sgn (c (snd x)) \<and> (c (snd x) \<noteq> 0 \<or> c (snd y) \<noteq> 0))"
  by (auto simp: guided_append) (auto simp: guided_def)

lemma guided_left: "guided c (nodes (Node a l k r)) \<Longrightarrow> c k \<ge> 0 \<Longrightarrow> x \<in> set (nodes l) \<Longrightarrow> c (snd x) > 0"
  unfolding guided_node by (fastforce simp: sgn_if split: if_splits)

lemma guided_right: "guided c (nodes (Node a l k r)) \<Longrightarrow> c k \<le> 0 \<Longrightarrow> x \<in> set (nodes r) \<Longrightarrow> c (snd x) < 0"
  unfolding guided_node by (fastforce simp: sgn_if split: if_splits)

lemma guided_sub: "guided c (nodes (Node a l k r)) \<Longrightarrow> guided c (nodes l) \<and> guided c (nodes r)"
  unfolding guided_node by simp

lemma find_append:
  "List.find P (xs @ ys) = (case List.find P xs of None \<Rightarrow> List.find P ys | Some x \<Rightarrow> Some x)"
  by (induction xs) auto

lemma find_none: "(\<And>x. x \<in> set xs \<Longrightarrow> \<not> P x) \<Longrightarrow> List.find P xs = None"
  by (simp add: find_None_iff)

lemma find_node:
  assumes "guided c (nodes (Node a l k r))"
  shows "List.find (\<lambda>x. c (snd x) = 0) (nodes (Node a l k r)) =
    (if c k = 0 then Some (a, k) else if c k < 0 then List.find (\<lambda>x. c (snd x) = 0) (nodes l)
     else List.find (\<lambda>x. c (snd x) = 0) (nodes r))"
proof -
  have l: "List.find (\<lambda>x. c (snd x) = 0) (nodes l) = None" if "c k \<ge> 0"
    using guided_left [OF assms that] by (intro find_none) force
  have r: "List.find (\<lambda>x. c (snd x) = 0) (nodes r) = None" if "c k \<le> 0"
    using guided_right [OF assms that] by (intro find_none) force
  show ?thesis using l r by (auto simp: find_append split: option.splits)
qed

lemma tfind_loop_find:
  "guided c (nodes t) \<Longrightarrow> tfind_loop c t = map_option fst (List.find (\<lambda>x. c (snd x) = 0) (nodes t))"
proof (induction t)
  case (Node a l k r)
  note sub = guided_sub [OF Node.prems]
  show ?case using Node.IH sub unfolding find_node [OF Node.prems] by simp
qed simp

lemma filter_node:
  assumes "guided c (nodes (Node a l k r))"
  shows "c k < 0 \<Longrightarrow> filter (\<lambda>x. c (snd x) > 0) (nodes (Node a l k r)) = filter (\<lambda>x. c (snd x) > 0) (nodes l)"
    and "c k < 0 \<Longrightarrow> filter (\<lambda>x. c (snd x) < 0) (nodes (Node a l k r)) = filter (\<lambda>x. c (snd x) < 0) (nodes l) @ (a, k) # nodes r"
    and "c k > 0 \<Longrightarrow> filter (\<lambda>x. c (snd x) > 0) (nodes (Node a l k r)) = nodes l @ (a, k) # filter (\<lambda>x. c (snd x) > 0) (nodes r)"
    and "c k > 0 \<Longrightarrow> filter (\<lambda>x. c (snd x) < 0) (nodes (Node a l k r)) = filter (\<lambda>x. c (snd x) < 0) (nodes r)"
  using guided_left [OF assms] guided_right [OF assms]
  by (force simp: filter_empty_conv filter_id_conv)+

lemma tsearch_loop_nodes:
  "guided c (nodes t) \<Longrightarrow> tsearch_loop q vkey c t = (res, t') \<Longrightarrow>
    (case List.find (\<lambda>x. c (snd x) = 0) (nodes t) of
       Some x \<Rightarrow> res = Some (fst x) \<and> t' = t
     | None \<Rightarrow> res = q \<and> (case q of None \<Rightarrow> t' = t
         | Some a \<Rightarrow> nodes t' = filter (\<lambda>x. c (snd x) > 0) (nodes t) @ (a, vkey) # filter (\<lambda>x. c (snd x) < 0) (nodes t)))"
proof (induction t arbitrary: res t')
  case Null
  then show ?case by (auto split: option.splits)
next
  case (Node a l k r)
  note g = Node.prems(1)
  consider "c k = 0" | "c k < 0" | "c k > 0" by linarith
  then show ?case
  proof cases
    case 1
    with Node.prems(2) show ?thesis unfolding find_node [OF g] by auto
  next
    case 2
    with Node.prems(2) obtain l' where l': "tsearch_loop q vkey c l = (res, l')" "t' = Node a l' k r"
      by (auto split: prod.splits)
    show ?thesis using Node.IH(1) [OF _ l'(1)] guided_sub [OF g] 2 l'(2)
      unfolding find_node [OF g] filter_node(1,2) [OF g 2] by (auto split: option.splits)
  next
    case 3
    with Node.prems(2) obtain r' where r': "tsearch_loop q vkey c r = (res, r')" "t' = Node a l k r'"
      by (auto split: prod.splits)
    show ?thesis using Node.IH(2) [OF _ r'(1)] guided_sub [OF g] 3 r'(2)
      unfolding find_node [OF g] filter_node(3,4) [OF g 3] by (auto split: option.splits)
  qed
qed

lemma guided_unique:
  "guided c xs \<Longrightarrow> x \<in> set xs \<Longrightarrow> y \<in> set xs \<Longrightarrow> c (snd x) = 0 \<Longrightarrow> c (snd y) = 0 \<Longrightarrow> x = y"
  by (induction xs) (auto simp: guided_def)

lemma tfind_loop_iff:
  assumes "guided c (nodes t)"
  shows "tfind_loop c t = Some a \<longleftrightarrow> (\<exists>k. (a, k) \<in> set (nodes t) \<and> c k = 0)"
proof (cases "List.find (\<lambda>x. c (snd x) = 0) (nodes t)")
  case None
  with tfind_loop_find [OF assms] show ?thesis by (auto simp: find_None_iff)
next
  case (Some x)
  then have x: "x \<in> set (nodes t)" "c (snd x) = 0" by (auto simp: find_Some_iff in_set_conv_nth)
  have eq: "tfind_loop c t = Some (fst x)" using tfind_loop_find [OF assms] Some by simp
  have "fst x = a" if "(a, k) \<in> set (nodes t)" "c k = 0" for k
    using guided_unique [OF assms x(1) that(1)] x(2) that(2) by simp
  then show ?thesis unfolding eq using x by (cases x) auto
qed

lemma tfind_loop_None:
  "guided c (nodes t) \<Longrightarrow> tfind_loop c t = None \<longleftrightarrow> (\<forall>x \<in> set (nodes t). c (snd x) \<noteq> 0)"
  by (auto simp: tfind_loop_find find_None_iff)

lemma unlink_leftmost_nodes:
  "llink t \<noteq> Null \<Longrightarrow> unlink_leftmost t = (m, t') \<Longrightarrow> nodes t = m # nodes t'"
  by (induction t arbitrary: m t' rule: unlink_leftmost.induct) (auto split: prod.splits)

lemma tdelete_node_nodes: "nodes (tdelete_node q r) = nodes q @ nodes r"
proof (cases "q \<noteq> Null \<and> llink r \<noteq> Null")
  case True
  then obtain a l k r' where r: "r = Node a l k r'" "l \<noteq> Null" by (cases r) auto
  obtain m t where u: "unlink_leftmost r = (m, t)" by (rule prod.exhaust)
  from unlink_leftmost_nodes [OF _ u] True have "nodes r = m # nodes t" by simp
  with True r u show ?thesis by (auto simp: tdelete_node_def split: prod.splits)
qed (auto simp: tdelete_node_def split: node.splits)

lemma tdelete_loop_nodes:
  "guided c (nodes t) \<Longrightarrow> tdelete_loop c p t = (res, t', f) \<Longrightarrow>
    nodes t' = filter (\<lambda>x. c (snd x) \<noteq> 0) (nodes t) \<and> f = tfind_loop c t"
proof (induction t arbitrary: p res t' f)
  case (Node a l k r)
  note g = Node.prems(1)
  have keep: "filter (\<lambda>x. c (snd x) \<noteq> 0) (nodes l) = nodes l" if "c k \<ge> 0"
    using guided_left [OF g that] by (force simp: filter_id_conv)
  have keep': "filter (\<lambda>x. c (snd x) \<noteq> 0) (nodes r) = nodes r" if "c k \<le> 0"
    using guided_right [OF g that] by (force simp: filter_id_conv)
  consider "c k = 0" | "c k < 0" | "c k > 0" by linarith
  then show ?case
  proof cases
    case 1
    with Node.prems(2) keep keep' show ?thesis by (auto simp: tdelete_node_nodes)
  next
    case 2
    with Node.prems(2) obtain l' where l': "tdelete_loop c a l = (res, l', f)" "t' = Node a l' k r"
      by (auto split: prod.splits)
    with Node.IH(1) [OF _ l'(1)] guided_sub [OF g] 2 keep' show ?thesis by simp
  next
    case 3
    with Node.prems(2) obtain r' where r': "tdelete_loop c a r = (res, r', f)" "t' = Node a l k r'"
      by (auto split: prod.splits)
    with Node.IH(2) [OF _ r'(1)] guided_sub [OF g] 3 keep show ?thesis by simp
  qed
qed simp

lemma tdelete_loop_missing: "tdelete_loop c p t = (res, t', None) \<Longrightarrow> res = None \<and> t' = t"
  by (induction t arbitrary: p res t') (auto split: if_splits prod.splits)

lemma tdelete_loop_parent:
  "tdelete_loop c p t = (res, t', Some d) \<Longrightarrow> \<exists>b. res = Some b \<and> (b = p \<or> b \<in> fst ` set (nodes t'))"
proof (induction t arbitrary: p res t')
  case (Node a l k r)
  show ?case
  proof (cases "c k = 0")
    case True
    with Node.prems show ?thesis by auto
  next
    case False
    show ?thesis
    proof (cases "c k < 0")
      case True
      with False Node.prems obtain l' where l': "tdelete_loop c a l = (res, l', Some d)" "t' = Node a l' k r"
        by (auto split: prod.splits)
      from Node.IH(1) [OF l'(1)] l'(2) show ?thesis by force
    next
      case right: False
      with False Node.prems obtain r' where r': "tdelete_loop c a r = (res, r', Some d)" "t' = Node a l k r'"
        by (auto split: prod.splits)
      from Node.IH(2) [OF r'(1)] r'(2) show ?thesis by force
    qed
  qed
qed simp

lemma ordered_guided:
  assumes "key_order cmp" "ordered cmp t" shows "guided (cmp x) (nodes t)"
proof -
  have step: "sgn (cmp x k') \<le> sgn (cmp x k) \<and> (cmp x k \<noteq> 0 \<or> cmp x k' \<noteq> 0)" if "cmp k k' < 0" for k k'
    using key_order_le_less [OF assms(1) _ that, of x] by (cases "cmp x k \<le> 0") (auto simp: sgn_if)
  show ?thesis unfolding guided_def
    by (rule sorted_wrt_mono_rel [OF _ assms(2) [unfolded ordered_def]]) (rule step)
qed

lemma tsearch_loop_cases:
  assumes "guided (cmp k) (nodes t)" and "tsearch_loop q k (cmp k) t = (res, t')"
  obtains (found) a where "tfind_loop (cmp k) t = Some a" "res = Some a" "t' = t"
  | (no_memory) "tfind_loop (cmp k) t = None" "q = None" "res = None" "t' = t"
  | (new) a where "tfind_loop (cmp k) t = None" "q = Some a" "res = Some a"
      "nodes t' = filter (\<lambda>x. cmp k (snd x) > 0) (nodes t) @ (a, k) # filter (\<lambda>x. cmp k (snd x) < 0) (nodes t)"
proof (cases "List.find (\<lambda>x. cmp k (snd x) = 0) (nodes t)")
  case None
  with tsearch_loop_nodes [OF assms] tfind_loop_find [OF assms(1)] no_memory new show ?thesis
    by (cases q) auto
next
  case (Some x)
  with tsearch_loop_nodes [OF assms] tfind_loop_find [OF assms(1)] found show ?thesis by auto
qed

lemma ordered_insert:
  assumes "key_order cmp" "ordered cmp t"
    and "nodes t' = filter (\<lambda>x. cmp k (snd x) > 0) (nodes t) @ (a, k) # filter (\<lambda>x. cmp k (snd x) < 0) (nodes t)"
  shows "ordered cmp t'"
proof -
  have less: "cmp (snd x) k < 0" if "cmp k (snd x) > 0" for x :: "nat \<times> 'a"
    using key_order_flip [OF assms(1), of "snd x" k] that by simp
  have "cmp (snd x) (snd y) < 0" if "cmp k (snd x) > 0" "cmp k (snd y) < 0" for x y :: "nat \<times> 'a"
    using key_order_le_less [OF assms(1) _ that(2), of "snd x"] less [OF that(1)] by simp
  with less assms(2) show ?thesis
    unfolding ordered_def assms(3) by (simp add: sorted_wrt_append sorted_wrt_filter)
qed

lemma set_insert_nodes:
  assumes "tfind_loop c t = None" "guided c (nodes t)"
    and "nodes t' = filter (\<lambda>x. c (snd x) > 0) (nodes t) @ (a, k) # filter (\<lambda>x. c (snd x) < 0) (nodes t)"
  shows "set (nodes t') = insert (a, k) (set (nodes t))"
proof -
  have "c (snd x) > 0 \<or> c (snd x) < 0" if "x \<in> set (nodes t)" for x
    using tfind_loop_None [OF assms(2)] assms(1) that by force
  then show ?thesis unfolding assms(3) by auto
qed

text \<open>
  C19: \<^verbatim>\<open>tsearch()\<close> keeps the order of the tree, for every comparison function that is an order.
  It returns the node that \<^verbatim>\<open>tfind()\<close> finds and leaves the tree alone; when there is none, it
  adds the node of \<^verbatim>\<open>malloc()\<close> with the key and returns it, or returns \<^verbatim>\<open>NULL\<close> without memory.
\<close>

theorem tsearch_tree:
  assumes o: "key_order compar" "ordered compar root" and s: "tsearch vkey (Some root) compar q = (res, root')"
  shows "\<exists>t. root' = Some t \<and> ordered compar t \<and>
    (case tfind vkey (Some root) compar of
       Some a \<Rightarrow> res = Some a \<and> t = root
     | None \<Rightarrow> res = q \<and> (case q of None \<Rightarrow> t = root | Some a \<Rightarrow> set (nodes t) = insert (a, vkey) (set (nodes root))))"
proof -
  note g = ordered_guided [OF o, of vkey]
  obtain t where t: "tsearch_loop q vkey (compar vkey) root = (res, t)" "root' = Some t"
    using s by (cases "tsearch_loop q vkey (compar vkey) root") (auto simp: tsearch_def)
  from g t(1) show ?thesis
  proof (cases rule: tsearch_loop_cases)
    case (new a)
    from ordered_insert [OF o new(4)] set_insert_nodes [OF new(1) g new(4)] new t(2) show ?thesis
      by (simp add: tfind_def)
  qed (use t(2) o(2) in \<open>simp_all add: tfind_def\<close>)
qed

theorem tsearch_tree_witness:
  "\<exists>t. snd (tsearch 5 (Some (Node 10 Null 3 Null)) nat_cmp (Some 11)) = Some t \<and> ordered nat_cmp t \<and>
    set (nodes t) = {(11, 5), (10, 3 :: nat)}"
proof -
  have "key_order nat_cmp" by (auto simp: key_order_def nat_cmp_def)
  moreover have "ordered nat_cmp (Node 10 Null 3 Null)" by (simp add: ordered_def)
  moreover have "tsearch 5 (Some (Node 10 Null 3 Null)) nat_cmp (Some 11) =
      (Some 11, Some (Node 10 Null 3 (Node 11 Null 5 Null)))" by code_simp
  moreover have "tfind 5 (Some (Node 10 Null 3 Null)) nat_cmp = None" by code_simp
  ultimately show ?thesis using tsearch_tree [of nat_cmp "Node 10 Null 3 Null" 5 "Some 11"] by auto
qed

text \<open>
  C20: \<^verbatim>\<open>tdelete()\<close> keeps the order of the tree and removes exactly the node of the key, the one
  that \<^verbatim>\<open>tfind()\<close> finds, which it frees; the other nodes stay in their order. It returns
  \<^verbatim>\<open>NULL\<close> and changes nothing when there is no such node. Otherwise it returns the root or a
  node that is left in the tree.
\<close>

theorem tdelete_tree:
  assumes o: "key_order compar" "ordered compar root" and d: "tdelete vkey (Some root) compar = (res, root', freed)"
  shows "\<exists>t. root' = Some t \<and> ordered compar t \<and> freed = tfind vkey (Some root) compar \<and>
    nodes t = filter (\<lambda>x. compar vkey (snd x) \<noteq> 0) (nodes root) \<and>
    (case freed of None \<Rightarrow> res = None \<and> t = root
     | Some _ \<Rightarrow> \<exists>a l k r b. root = Node a l k r \<and> res = Some b \<and> (b = a \<or> b \<in> fst ` set (nodes t)))"
proof (cases root)
  case Null
  with d show ?thesis by (auto simp: tdelete_def ordered_def tfind_def)
next
  case (Node a l k r)
  obtain t where t: "tdelete_loop (compar vkey) a root = (res, t, freed)" "root' = Some t"
    using d Node by (cases "tdelete_loop (compar vkey) a root") (auto simp: tdelete_def)
  note n = tdelete_loop_nodes [OF ordered_guided [OF o, of vkey] t(1)]
  have "ordered compar t" using o(2) n by (simp add: ordered_def sorted_wrt_filter)
  moreover have "case freed of None \<Rightarrow> res = None \<and> t = root
     | Some _ \<Rightarrow> \<exists>a l k r b. root = Node a l k r \<and> res = Some b \<and> (b = a \<or> b \<in> fst ` set (nodes t))"
  proof (cases freed)
    case None
    with tdelete_loop_missing t(1) show ?thesis by fastforce
  next
    case (Some d)
    with tdelete_loop_parent [of "compar vkey" a root res t d] t(1) have "\<exists>b. res = Some b \<and> (b = a \<or> b \<in> fst ` set (nodes t))" by simp
    with Some Node show ?thesis by (simp only: option.case) blast
  qed
  ultimately show ?thesis using n t(2) by (intro exI [of _ t] conjI) (simp_all only: tfind_def option.case)
qed

theorem tdelete_tree_witness:
  "\<exists>t. snd (tdelete 5 (Some (Node 10 Null 3 (Node 11 Null 5 Null))) nat_cmp) = (Some t, Some 11) \<and>
    nodes t = [(10, 3 :: nat)] \<and> ordered nat_cmp t"
proof -
  have "key_order nat_cmp" by (auto simp: key_order_def nat_cmp_def)
  moreover have "ordered nat_cmp (Node 10 Null 3 (Node 11 Null 5 Null))" by (simp add: ordered_def nat_cmp_def)
  moreover have "tdelete 5 (Some (Node 10 Null 3 (Node 11 Null 5 Null))) nat_cmp =
      (Some 10, Some (Node 10 Null 3 Null), Some 11)" by code_simp
  ultimately show ?thesis
    using tdelete_tree [of nat_cmp "Node 10 Null 3 (Node 11 Null 5 Null)" 5 "Some 10" "Some (Node 10 Null 3 Null)" "Some 11"]
    by auto
qed

text \<open>
  C21: \<^verbatim>\<open>twalk()\<close> calls the action for a leaf once and for any other node three times; the calls
  with \<^verbatim>\<open>postorder\<close> and \<^verbatim>\<open>leaf\<close> visit the nodes of the tree in the order of their keys.
\<close>

theorem twalk_in_order:
  "map fst (filter (\<lambda>(a, v, level). v = postorder \<or> v = leaf) (twalk t True)) = map fst (nodes t)"
proof -
  have "map fst (filter (\<lambda>(a, v, level). v = postorder \<or> v = leaf) (trecurse t n)) = map fst (nodes t)" for n
    by (induction t arbitrary: n) auto
  then show ?thesis by (simp add: twalk_def)
qed

lemma tdestroy_frees_all: "mset (tdestroy t) = mset (map (Free_key \<circ> snd) (nodes t)) + mset (map (Free_node \<circ> fst) (nodes t))"
proof -
  have "mset (tdestroy_recurse t) = mset (map (Free_key \<circ> snd) (nodes t)) + mset (map (Free_node \<circ> fst) (nodes t))"
    by (induction t) auto
  then show ?thesis by (simp add: tdestroy_def)
qed

section \<open>The hash function\<close>

definition hash_byte :: "ulong \<Rightarrow> byte \<Rightarrow> ulong" where
  "hash_byte h c = 33 * h + ucast c"

lemma HASH4_foldl:
  "HASH4 n (h, key) = (if n \<le> length key then Some (foldl hash_byte h (take n key), drop n key) else None)"
proof (induction n arbitrary: h key)
  case (Suc n)
  have "push_bit 5 h + h + ucast c = hash_byte h c" for c
    by (simp add: hash_byte_def push_bit_eq_mult algebra_simps)
  with Suc show ?case by (cases key) auto
qed simp

lemma hash4_loop_foldl:
  "0 < loop \<Longrightarrow> n + 8 * (unat loop - 1) = length key \<Longrightarrow> hash4_loop n loop (h, key) = Some (foldl hash_byte h key)"
proof (induction "unat loop - 1" arbitrary: n loop h key)
  case 0
  then have "unat loop = 1" by (metis One_nat_def Suc_pred unat_gt_0 word_neq_0_conv)
  then have "loop = 1" by (simp add: word_unat_eq_iff)
  with 0 show ?case by (subst hash4_loop.simps) (simp add: HASH4_foldl)
next
  case (Suc k)
  then have ul: "unat (loop - 1) = Suc k" by (simp add: unat_minus_one)
  then have l1: "loop - 1 \<noteq> 0" by (metis nat.distinct(1) unat_0)
  have len: "8 + 8 * (unat (loop - 1) - 1) = length (drop n key)" using Suc.prems(2) Suc.hyps(2) ul by simp
  have "hash4_loop 8 (loop - 1) (foldl hash_byte h (take n key), drop n key) = Some (foldl hash_byte h key)"
  proof -
    have "0 < loop - 1" using l1 by (simp only: word_neq_0_conv)
    moreover have "foldl hash_byte h key = foldl hash_byte (foldl hash_byte h (take n key)) (drop n key)"
      by (metis append_take_drop_id foldl_append)
    ultimately show ?thesis using Suc.hyps(1) [of "loop - 1" 8, OF _ _ len] ul by simp
  qed
  with Suc.prems l1 show ?case by (subst hash4_loop.simps) (simp add: HASH4_foldl)
qed

lemma unat_and_7: "unat ((w :: ulong) AND 7) = unat w mod 8"
proof -
  have "(7 :: nat) = mask 3" by (simp add: mask_eq_exp_minus_1)
  then have "unat w AND 7 = take_bit 3 (unat w)" by (simp only: take_bit_eq_mask)
  then show ?thesis by (simp add: unsigned_and_eq take_bit_eq_mod)
qed

lemma eights: "0 < n \<Longrightarrow> (if n mod 8 = 0 then 8 else n mod 8) + 8 * ((n + 7) div 8 - 1) = (n :: nat)"
proof -
  assume n: "0 < n"
  define q r where "q = n div 8" and "r = n mod 8"
  then have nq: "n = 8 * q + r" and r: "r < 8" by simp_all
  have "(n + 7) div 8 = (if r = 0 then q else q + 1)" unfolding nq using r by (cases "r = 0") auto
  with n r show ?thesis unfolding r_def [symmetric] by (cases q) (auto simp: nq)
qed

lemma hash4_sum:
  assumes "length key < 2 ^ 32 - 7"
  shows "hash4 key (of_nat (length key)) = Some (foldl hash_byte 0 key)"
proof (cases "key = []")
  case True
  then show ?thesis by (simp add: hash4_def)
next
  case False
  let ?n = "length key" and ?len = "of_nat (length key) :: ulong"
  have ul: "unat ?len = ?n" using assms by (simp add: unat_of_nat take_bit_eq_mod)
  have u7: "unat (?len + 7) = ?n + 7"
    using assms by (subst unat_add_lem [THEN iffD1]) (simp_all add: ul)
  have loop: "unat (drop_bit 3 (?len + 7)) = (?n + 7) div 8"
    by (simp add: drop_bit_eq_div unat_div u7)
  have pos: "0 < ?len" using False ul by (metis length_0_conv unat_0 word_neq_0_conv)
  have "0 < (?n + 7) div 8" using False by (cases key) auto
  with loop have l0: "0 < drop_bit 3 (?len + 7)" by (metis less_irrefl unat_0 word_neq_0_conv)
  let ?e = "if ?len AND 7 = 0 then 8 else unat (?len AND 7)"
  have e: "?e = (if ?n mod 8 = 0 then 8 else ?n mod 8)"
    by (metis ul unat_and_7 unat_eq_zero)
  have "?e + 8 * (unat (drop_bit 3 (?len + 7)) - 1) = ?n"
    unfolding e loop using False by (intro eights) simp
  from hash4_loop_foldl [OF l0 this, of 0] show ?thesis
    by (simp only: hash4_def pos if_True add_diff_eq [symmetric]) simp
qed

text \<open>
  C22: For a key of fewer than \<open>2 ^ 32 - 7\<close> bytes \<^verbatim>\<open>hash4()\<close>, with its loop that is entered in
  the middle, reads exactly the bytes of the key and computes the plain sum
  \<open>h = 33 * h + c\<close> over them, modulo \<open>2 ^ 32\<close>.
\<close>

theorem hash4_foldl:
  assumes "length key < 2 ^ 32 - 7"
  shows "hash4 key (of_nat (length key)) = Some (foldl hash_byte 0 key)"
  using assms by (rule hash4_sum)

theorem hash4_foldl_witness: "hash4 [97, 98, 99] 3 = Some (foldl hash_byte 0 [97, 98, 99])"
  using hash4_foldl [of "[97, 98, 99]"] by simp

section \<open>Tables\<close>

lemma count_shifts_bounds:
  "nel \<noteq> 0 \<Longrightarrow> \<exists>k. count_shifts p nel = p + k + 1 \<and> 2 ^ k \<le> unat nel \<and> unat nel < 2 ^ (k + 1)"
proof (induction p nel rule: count_shifts.induct)
  case (1 p nel)
  have half: "unat (drop_bit 1 nel) = unat nel div 2" by (simp add: drop_bit_Suc unat_div)
  show ?case
  proof (cases "drop_bit 1 nel = 0")
    case True
    with half have "unat nel < 2" by (simp add: div_eq_0_iff)
    moreover have "0 < unat nel" using 1(2) by (simp add: unat_gt_0)
    ultimately have "unat nel = 1" by simp
    with 1(2) True show ?thesis
      by (intro exI [of _ 0]) (subst count_shifts.simps, simp, subst count_shifts.simps, simp)
  next
    case False
    from 1(1) [OF 1(2) False] obtain k where k: "count_shifts (p + 1) (drop_bit 1 nel) = p + 1 + k + 1"
      "2 ^ k \<le> unat nel div 2" "unat nel div 2 < 2 ^ (k + 1)" unfolding half by blast
    then have "2 ^ (k + 1) \<le> unat nel" "unat nel < 2 ^ (k + 2)" by (auto simp: less_eq_div_iff_mult_less_eq div_less_iff_less_mult)
    with k(1) 1(2) show ?thesis by (intro exI [of _ "k + 1"]) (subst count_shifts.simps, simp)
  qed
qed

lemma power_of_two: "0 < n \<Longrightarrow> n AND (n - 1) = 0 \<Longrightarrow> \<exists>p. n = 2 ^ p" for n :: nat
proof (induction n rule: less_induct)
  case (less n)
  note step = and_rec [of n "n - 1"]
  show ?case
  proof (cases "even n")
    case True
    then obtain m where m: "n = 2 * m" by blast
    with less.prems(1) have "(n - 1) div 2 = m - 1" "0 < m" by auto
    with step less.prems(2) m have "m AND (m - 1) = 0" by simp
    from less.IH [of m, OF _ _ this] m \<open>0 < m\<close> obtain p where "m = 2 ^ p" by auto
    with m have "n = 2 ^ (p + 1)" by simp
    then show ?thesis ..
  next
    case False
    then obtain m where m: "n = 2 * m + 1" by (blast elim: oddE)
    with step less.prems(2) have "m = 0" by simp
    with m have "n = 2 ^ 0" by simp
    then show ?thesis ..
  qed
qed

lemma and_pred_power: "(2 :: nat) ^ k AND (2 ^ k - 1) = 0"
proof -
  have "(2 :: nat) ^ k AND (2 ^ k - 1) = take_bit k (2 ^ k)"
    by (simp only: take_bit_eq_mask mask_eq_exp_minus_1)
  then show ?thesis by (simp add: take_bit_eq_mod)
qed

lemma unat_power_of_two: "p < 32 \<Longrightarrow> unat ((2 :: ulong) ^ p) = 2 ^ p"
proof -
  assume "p < 32"
  then have "(2 :: nat) ^ p < 2 ^ 32" by (rule power_strict_increasing) simp
  then have "unat (of_nat (2 ^ p) :: ulong) = 2 ^ p" by (simp only: unat_of_nat take_bit_eq_mod) simp
  then show ?thesis by simp
qed

text \<open>The number of buckets is the least power of two that is at least the clamped size.\<close>

lemma bucket_count_power:
  "\<exists>p. unat (bucket_count nel) = 2 ^ p \<and> 4 \<le> p \<and> p \<le> 26 \<and>
    min (max 16 (unat nel)) (2 ^ 26) \<le> 2 ^ p \<and> 2 ^ p < 2 * min (max 16 (unat nel)) (2 ^ 26)"
proof -
  define n1 where "n1 = (if nel < MIN_BUCKETS then MIN_BUCKETS else nel)"
  define n where "n = (if n1 > MAX_BUCKETS then MAX_BUCKETS else n1)"
  have bc: "bucket_count nel = (if n AND (n - 1) \<noteq> 0 then push_bit (count_shifts 0 n) 1 else n)"
    by (simp only: bucket_count_def Let_def n_def n1_def)
  have un: "unat n = min (max 16 (unat nel)) (2 ^ 26)"
    by (auto simp: n_def n1_def word_less_nat_alt)
  have lo: "2 ^ 4 \<le> unat n" and hi: "unat n \<le> 2 ^ 26" unfolding un by auto
  then have nz: "n \<noteq> 0" by auto
  show ?thesis
  proof (cases "n AND (n - 1) = 0")
    case True
    have "unat n AND (unat n - 1) = unat (n AND (n - 1))"
      using nz by (simp add: unsigned_and_eq unat_minus_one)
    with True power_of_two [of "unat n"] lo obtain p where p: "unat n = 2 ^ p" by auto
    from lo hi have "4 \<le> p" "p \<le> 26" unfolding p by (simp_all only: power_increasing_iff one_less_numeral_iff semiring_norm)
    moreover have "bucket_count nel = n" using True bc by simp
    ultimately show ?thesis using p un by (intro exI [of _ p]) auto
  next
    case False
    from count_shifts_bounds [OF nz, of 0] obtain k where k: "count_shifts 0 n = k + 1" "2 ^ k \<le> unat n" "unat n < 2 ^ (k + 1)" by auto
    have ne: "unat n \<noteq> 2 ^ k"
    proof
      assume "unat n = 2 ^ k"
      then have "unat (n AND (n - 1)) = 0" using nz by (simp add: unsigned_and_eq unat_minus_one and_pred_power [simplified])
      with False show False by (simp add: unat_eq_zero)
    qed
    have "k < 26"
    proof (rule ccontr)
      assume "\<not> k < 26"
      then have "(2 :: nat) ^ 26 \<le> 2 ^ k" by (intro power_increasing) auto
      with k(2) hi ne show False by linarith
    qed
    then have "unat (bucket_count nel) = 2 ^ (k + 1)" using bc False k(1) unat_power_of_two [of "k + 1"] by simp
    moreover have "2 ^ 4 < (2 :: nat) ^ (k + 1)" using lo k(3) by linarith
    then have "4 < k + 1" by (simp only: power_strict_increasing_iff one_less_numeral_iff semiring_norm)
    ultimately show ?thesis using k(2,3) ne un \<open>k < 26\<close> by (intro exI [of _ "k + 1"]) auto
  qed
qed

text \<open>The entry with a key anywhere in the table, which the bucket of the key must hold.\<close>

definition hmap :: "'d hsearch_data \<Rightarrow> byte list \<Rightarrow> 'd hentry option" where
  "hmap ht key = (case htable ht of None \<Rightarrow> None | Some bs \<Rightarrow> List.find (\<lambda>ie. he_key ie = key) (concat bs))"

definition bucket_index :: "'d hsearch_data \<Rightarrow> byte list \<Rightarrow> nat" where
  "bucket_index ht key = unat (foldl hash_byte 0 key AND (htablesize ht - 1))"

definition htab_ok :: "'d hsearch_data \<Rightarrow> bool" where
  "htab_ok ht \<longleftrightarrow> (\<exists>bs. htable ht = Some bs \<and> 0 < htablesize ht \<and> length bs = unat (htablesize ht) \<and>
     (\<forall>i<length bs. (\<forall>ie\<in>set (bs ! i). bucket_index ht (he_key ie) = i) \<and> distinct (map he_key (bs ! i))))"

abbreviation (input) short_key :: "byte list \<Rightarrow> bool" where
  "short_key key \<equiv> length key < 2 ^ 32 - 7"

lemma bucket_find_find: "bucket_find key b = List.find (\<lambda>ie. he_key ie = key) b"
  by (induction b) auto

lemma find_concat:
  "i < length bs \<Longrightarrow> (\<And>j x. j < length bs \<Longrightarrow> j \<noteq> i \<Longrightarrow> x \<in> set (bs ! j) \<Longrightarrow> \<not> P x) \<Longrightarrow>
    List.find P (concat bs) = List.find P (bs ! i)"
proof (induction bs arbitrary: i)
  case (Cons b bs)
  show ?case
  proof (cases i)
    case 0
    have "List.find P (concat bs) = None"
    proof (rule find_none)
      fix x assume "x \<in> set (concat bs)"
      then obtain c where "c \<in> set bs" "x \<in> set c" by auto
      then obtain j where "j < length bs" "x \<in> set (bs ! j)" by (metis in_set_conv_nth)
      then show "\<not> P x" using Cons.prems(2) [of "Suc j" x] 0 by simp
    qed
    with 0 show ?thesis by (simp add: find_append split: option.splits)
  next
    case (Suc k)
    have "List.find P b = None" using Cons.prems(2) [of 0] Suc by (intro find_none) simp
    moreover have "List.find P (concat bs) = List.find P (bs ! k)"
    proof (rule Cons.IH)
      show "k < length bs" using Cons.prems(1) Suc by simp
      show "\<not> P x" if "j < length bs" "j \<noteq> k" "x \<in> set (bs ! j)" for j x
        using Cons.prems(2) [of "Suc j" x] that Suc by simp
    qed
    ultimately show ?thesis using Suc by (simp add: find_append)
  qed
qed simp

lemma bucket_index_less: "0 < htablesize ht \<Longrightarrow> bucket_index ht key < unat (htablesize ht)"
proof -
  assume s: "0 < htablesize ht"
  have "unat (foldl hash_byte 0 key AND (htablesize ht - 1)) \<le> unat (htablesize ht - 1)"
    by (simp add: word_and_le1 flip: word_le_nat_alt)
  also have "\<dots> < unat (htablesize ht)" using s by (intro unat_pred_less) auto
  finally show ?thesis by (simp add: bucket_index_def)
qed

lemma hmap_bucket:
  assumes "htab_ok ht" "htable ht = Some bs"
  shows "hmap ht key = bucket_find key (bs ! bucket_index ht key)"
proof -
  have "he_key ie \<noteq> key" if "j < length bs" "j \<noteq> bucket_index ht key" "ie \<in> set (bs ! j)" for j ie
    using assms that by (auto simp: htab_ok_def)
  moreover have "bucket_index ht key < length bs" using assms bucket_index_less by (fastforce simp: htab_ok_def)
  ultimately show ?thesis using assms(2) by (simp add: hmap_def bucket_find_find find_concat)
qed

lemma bucket_find_None: "bucket_find key b = None \<Longrightarrow> key \<notin> he_key ` set b"
  by (induction b) (auto split: if_splits)

lemma hsearch_r_unfold:
  assumes "htab_ok ht" "htable ht = Some bs" "short_key key"
  shows "hsearch_r (key, d) action ht m =
    (case hmap ht key of
       Some ie \<Rightarrow> Some (1, Some ie, ht)
     | None \<Rightarrow> (if action = FIND then Some (0, None, ht)
         else case m of None \<Rightarrow> Some (0, None, ht)
         | Some a \<Rightarrow> (let ie = \<lparr>he_addr = a, he_key = key, he_data = d\<rparr>; i = bucket_index ht key
                     in Some (1, Some ie, ht\<lparr>htable := Some (bs[i := ie # bs ! i])\<rparr>))))"
proof -
  have "bucket_index ht key < length bs" using assms bucket_index_less by (fastforce simp: htab_ok_def)
  then show ?thesis using assms(2) hash4_sum [OF assms(3)] hmap_bucket [OF assms(1,2), of key]
    by (simp add: hsearch_r_def Let_def bucket_index_def split: option.splits)
qed

lemma bucket_index_update [simp]: "bucket_index (ht\<lparr>htable := x\<rparr>) = bucket_index ht"
  by (rule ext) (simp add: bucket_index_def)

lemma htab_ok_insert:
  assumes ok: "htab_ok ht" "htable ht = Some bs" and new: "hmap ht key = None"
    and ie: "he_key ie = key" and i: "i = bucket_index ht key"
    and ht': "ht' = ht\<lparr>htable := Some (bs[i := ie # bs ! i])\<rparr>"
  shows "htab_ok ht'" and "hmap ht' = (hmap ht)(key \<mapsto> ie)"
proof -
  let ?bs = "bs[i := ie # bs ! i]"
  have il: "i < length bs" using ok bucket_index_less i by (fastforce simp: htab_ok_def)
  have notin: "key \<notin> he_key ` set (bs ! i)" using new hmap_bucket [OF ok] i by (simp add: bucket_find_None)
  show ok': "htab_ok ht'" using ok notin ie i il
    by (auto simp: htab_ok_def ht') (auto simp: nth_list_update split: if_splits)
  have "hmap ht' k = ((hmap ht)(key \<mapsto> ie)) k" for k
    using hmap_bucket [OF ok' , of ?bs k] hmap_bucket [OF ok, of k] ie i il
    by (auto simp: nth_list_update ht')
  then show "hmap ht' = (hmap ht)(key \<mapsto> ie)" by blast
qed

lemma hcreate_r_ok:
  assumes "htable ht = None"
  shows "htab_ok (snd (snd (hcreate_r nel ht True)))" and "hmap (snd (snd (hcreate_r nel ht True))) = Map.empty"
proof -
  from bucket_count_power [of nel] obtain p where "unat (bucket_count nel) = 2 ^ p" by blast
  then have "0 < bucket_count nel" by (metis power_not_zero unat_0 word_neq_0_conv zero_neq_numeral)
  with assms show "htab_ok (snd (snd (hcreate_r nel ht True)))" by (simp add: hcreate_r_def Let_def htab_ok_def)
  show "hmap (snd (snd (hcreate_r nel ht True))) = Map.empty"
    using assms by (auto simp: hcreate_r_def Let_def hmap_def find_None_iff)
qed

text \<open>
  C23: \<^verbatim>\<open>hcreate_r()\<close> refuses a table that exists with \<^verbatim>\<open>EINVAL\<close>. Otherwise, when there is
  memory, it makes an empty table whose number of buckets is a power of two from 16 to \<open>2 ^ 26\<close>:
  the least that is not below the number asked for, unless that was larger than \<open>2 ^ 26\<close>.
\<close>

theorem hcreate_r_table:
  "case hcreate_r nel ht m of (res, err, ht') \<Rightarrow>
     if htable ht \<noteq> None then res = 0 \<and> err = Some EINVAL \<and> ht' = ht
     else if \<not> m then res = 0 \<and> err = Some ENOMEM \<and> htable ht' = None
     else res = 1 \<and> err = None \<and> htab_ok ht' \<and> hmap ht' = Map.empty \<and>
       (\<exists>p. unat (htablesize ht') = 2 ^ p \<and> 4 \<le> p \<and> p \<le> 26 \<and>
         min (max 16 (unat nel)) (2 ^ 26) \<le> 2 ^ p \<and> 2 ^ p < 2 * min (max 16 (unat nel)) (2 ^ 26))"
proof (cases "htable ht = None \<and> m")
  case True
  then have size: "htablesize (snd (snd (hcreate_r nel ht True))) = bucket_count nel" by (simp add: hcreate_r_def Let_def)
  have fst: "fst (hcreate_r nel ht True) = 1" "fst (snd (hcreate_r nel ht True)) = None"
    using True by (simp_all add: hcreate_r_def Let_def)
  from hcreate_r_ok [of ht nel] True bucket_count_power [of nel] show ?thesis
    by (simp add: case_prod_beta fst size)
next
  case False
  then show ?thesis by (auto simp: hcreate_r_def Let_def)
qed

text \<open>
  C24: \<^verbatim>\<open>hsearch_r()\<close> on a well-formed table keeps it well-formed and implements a finite map
  from keys to entries. A key that is there is found and nothing changes. A key that is not there
  is not found with \<^verbatim>\<open>FIND\<close>, and with \<^verbatim>\<open>ENTER\<close> is added with its data, and no other key is
  affected, unless \<^verbatim>\<open>malloc()\<close> has no memory.
\<close>

theorem hsearch_r_map:
  assumes "htab_ok ht" and "length key < 2 ^ 32 - 7"
  shows "\<exists>res ent ht'. hsearch_r (key, d) action ht m = Some (res, ent, ht') \<and> htab_ok ht' \<and>
    (case hmap ht key of
       Some ie \<Rightarrow> res = 1 \<and> ent = Some ie \<and> ht' = ht
     | None \<Rightarrow>
         (case (action, m) of
            (ENTER, Some a) \<Rightarrow> res = 1 \<and> ent = Some \<lparr>he_addr = a, he_key = key, he_data = d\<rparr> \<and>
              hmap ht' = (hmap ht)(key \<mapsto> \<lparr>he_addr = a, he_key = key, he_data = d\<rparr>)
          | _ \<Rightarrow> res = 0 \<and> ent = None \<and> ht' = ht))"
proof -
  from assms(1) obtain bs where bs: "htable ht = Some bs" by (auto simp: htab_ok_def)
  note u = hsearch_r_unfold [OF assms(1) bs assms(2), of d action m]
  show ?thesis
  proof (cases "hmap ht key = None \<and> action = ENTER \<and> m \<noteq> None")
    case True
    then obtain a where a: "m = Some a" by blast
    let ?ie = "\<lparr>he_addr = a, he_key = key, he_data = d\<rparr>"
    note ins = htab_ok_insert [OF assms(1) bs _ _ refl refl, of key ?ie]
    from True a u ins show ?thesis by (simp add: Let_def)
  next
    case False
    with u assms(1) show ?thesis by (cases action; cases m) (auto split: option.splits)
  qed
qed

definition demo_table :: "nat hsearch_data" where
  "demo_table = snd (snd (hcreate_r 3 \<lparr>htable = None, htablesize = 0\<rparr> True))"

theorem hsearch_r_map_witness:
  "\<exists>res ent ht'. hsearch_r ([97, 98], 7) ENTER demo_table (Some 100) = Some (res, ent, ht') \<and> htab_ok ht' \<and>
    res = 1 \<and> hmap ht' = [[97, 98] \<mapsto> \<lparr>he_addr = 100, he_key = [97, 98], he_data = 7 :: nat\<rparr>]"
proof -
  have "htab_ok demo_table" and e: "hmap demo_table = Map.empty"
    unfolding demo_table_def by (rule hcreate_r_ok; simp)+
  from hsearch_r_map [OF this(1), of "[97, 98]" 7 ENTER "Some 100"] e show ?thesis by auto
qed

section \<open>What a client may rely on\<close>

text \<open>
  A dictionary in which the first entry of a key stays. \<open>same\<close> says when two keys are one key and
  \<open>valid\<close> which keys may be used.
\<close>

locale first_wins =
  fixes ok :: "'t \<Rightarrow> bool" and valid :: "'k \<Rightarrow> bool" and same :: "'k \<Rightarrow> 'k \<Rightarrow> bool"
    and look :: "'t \<Rightarrow> 'k \<Rightarrow> 'v option" and enter :: "'k \<Rightarrow> 'v \<Rightarrow> 't \<Rightarrow> 't"
  assumes ok_enter: "ok t \<Longrightarrow> valid k \<Longrightarrow> ok (enter k v t)"
    and look_same: "ok t \<Longrightarrow> same k k' \<Longrightarrow> look t k = look t k'"
    and look_enter: "ok t \<Longrightarrow> valid k \<Longrightarrow>
      look (enter k v t) k' = (if same k' k \<and> look t k = None then Some v else look t k')"
begin

lemma ok_enter_all: "ok t \<Longrightarrow> list_all (\<lambda>(k, v). valid k) kvs \<Longrightarrow> ok (fold (\<lambda>(k, v). enter k v) kvs t)"
  by (induction kvs arbitrary: t) (auto intro: ok_enter)

lemma look_enter_all:
  "ok t \<Longrightarrow> list_all (\<lambda>(k, v). valid k) kvs \<Longrightarrow>
    look (fold (\<lambda>(k, v). enter k v) kvs t) k =
      (case look t k of Some v \<Rightarrow> Some v | None \<Rightarrow> map_option snd (List.find (\<lambda>kv. same k (fst kv)) kvs))"
proof (induction kvs arbitrary: t)
  case Nil
  then show ?case by (simp split: option.splits)
next
  case (Cons kv kvs)
  obtain k1 v1 where kv: "kv = (k1, v1)" by force
  with Cons.prems have "valid k1" and rest: "list_all (\<lambda>(k, v). valid k) kvs" by auto
  note ih = Cons.IH [OF ok_enter [OF Cons.prems(1) this(1)] rest, of v1]
  show ?case using ih look_enter [OF Cons.prems(1) \<open>valid k1\<close>, of v1 k] look_same [OF Cons.prems(1), of k k1] kv
    by (auto split: option.splits)
qed

end

definition tree_enter :: "'k cmp \<Rightarrow> 'k \<Rightarrow> nat \<Rightarrow> 'k node \<Rightarrow> 'k node" where
  "tree_enter cmp k a t = (case tsearch k (Some t) cmp (Some a) of (_, t') \<Rightarrow> the t')"

lemma tree_enter_cases:
  assumes o: "key_order cmp" "ordered cmp t"
  shows "ordered cmp (tree_enter cmp k a t)"
    and "set (nodes (tree_enter cmp k a t)) =
      (if tfind k (Some t) cmp = None then insert (a, k) (set (nodes t)) else set (nodes t))"
proof -
  note g = ordered_guided [OF o, of k]
  obtain res t' where s: "tsearch_loop (Some a) k (cmp k) t = (res, t')" by force
  then have e: "tree_enter cmp k a t = t'" by (simp add: tree_enter_def tsearch_def)
  from g s have "ordered cmp t' \<and>
      set (nodes t') = (if tfind_loop (cmp k) t = None then insert (a, k) (set (nodes t)) else set (nodes t))"
  proof (cases rule: tsearch_loop_cases)
    case (new b)
    with ordered_insert [OF o new(4)] set_insert_nodes [OF new(1) g new(4)] show ?thesis by simp
  qed (use o in simp_all)
  then show "ordered cmp (tree_enter cmp k a t)"
    and "set (nodes (tree_enter cmp k a t)) =
      (if tfind k (Some t) cmp = None then insert (a, k) (set (nodes t)) else set (nodes t))"
    unfolding e tfind_def option.case by blast+
qed

lemma tfind_iff:
  "key_order cmp \<Longrightarrow> ordered cmp t \<Longrightarrow> tfind k (Some t) cmp = Some a \<longleftrightarrow> (\<exists>x. (a, x) \<in> set (nodes t) \<and> cmp k x = 0)"
  by (simp add: tfind_def tfind_loop_iff ordered_guided)

lemma option_eqI: "(\<And>a. x = Some a \<longleftrightarrow> y = Some a) \<Longrightarrow> x = y"
  by (cases x; cases y) auto

lemma tfind_same:
  assumes "key_order cmp" "ordered cmp t" "cmp k k' = 0" shows "tfind k (Some t) cmp = tfind k' (Some t) cmp"
  by (rule option_eqI) (simp add: tfind_iff assms(1,2) key_order_same [OF assms(1,3)])

lemma tfind_tree_enter:
  assumes o: "key_order cmp" "ordered cmp t"
  shows "tfind k' (Some (tree_enter cmp k a t)) cmp =
    (if cmp k' k = 0 \<and> tfind k (Some t) cmp = None then Some a else tfind k' (Some t) cmp)"
proof (cases "cmp k' k = 0 \<and> tfind k (Some t) cmp = None")
  case True
  then have "(a, k) \<in> set (nodes (tree_enter cmp k a t))" by (simp add: tree_enter_cases [OF o])
  with True have "tfind k' (Some (tree_enter cmp k a t)) cmp = Some a"
    unfolding tfind_iff [OF o(1) tree_enter_cases(1) [OF o]] by blast
  with True show ?thesis by simp
next
  case False
  then have "(b, x) \<in> set (nodes (tree_enter cmp k a t)) \<and> cmp k' x = 0 \<longleftrightarrow> (b, x) \<in> set (nodes t) \<and> cmp k' x = 0" for b x
    unfolding tree_enter_cases(2) [OF o] by (auto split: if_splits)
  then have "tfind k' (Some (tree_enter cmp k a t)) cmp = tfind k' (Some t) cmp"
    by (intro option_eqI) (simp only: tfind_iff [OF o(1) tree_enter_cases(1) [OF o]] tfind_iff [OF o])
  then show ?thesis unfolding if_not_P [OF False] .
qed

interpretation tree: first_wins "\<lambda>t. key_order cmp \<and> ordered cmp t" "\<lambda>k. True" "\<lambda>k k'. cmp k k' = 0"
  "\<lambda>t k. tfind k (Some t) cmp" "tree_enter cmp" for cmp
  by unfold_locales (auto simp: tree_enter_cases tfind_tree_enter intro: tfind_same)

definition hash_enter :: "byte list \<Rightarrow> nat \<times> 'd \<Rightarrow> 'd hsearch_data \<Rightarrow> 'd hsearch_data" where
  "hash_enter key v ht = (case hsearch_r (key, snd v) ENTER ht (Some (fst v)) of Some (_, _, ht') \<Rightarrow> ht' | None \<Rightarrow> ht)"

definition hash_look :: "'d hsearch_data \<Rightarrow> byte list \<Rightarrow> (nat \<times> 'd) option" where
  "hash_look ht key = map_option (\<lambda>ie. (he_addr ie, he_data ie)) (hmap ht key)"

lemma hash_enter_map:
  assumes "htab_ok ht" "short_key key"
  shows "htab_ok (hash_enter key v ht)"
    and "hmap (hash_enter key v ht) =
      (if hmap ht key = None then (hmap ht)(key \<mapsto> \<lparr>he_addr = fst v, he_key = key, he_data = snd v\<rparr>) else hmap ht)"
proof -
  from assms(1) obtain bs where bs: "htable ht = Some bs" by (auto simp: htab_ok_def)
  note u = hsearch_r_unfold [OF assms(1) bs assms(2), of "snd v" ENTER "Some (fst v)"]
  note ins = htab_ok_insert [OF assms(1) bs _ _ refl refl, of key "\<lparr>he_addr = fst v, he_key = key, he_data = snd v\<rparr>"]
  show "htab_ok (hash_enter key v ht)"
    using u ins assms(1) by (auto simp: hash_enter_def Let_def split: option.splits)
  show "hmap (hash_enter key v ht) =
      (if hmap ht key = None then (hmap ht)(key \<mapsto> \<lparr>he_addr = fst v, he_key = key, he_data = snd v\<rparr>) else hmap ht)"
    using u ins by (auto simp: hash_enter_def Let_def split: option.splits)
qed

interpretation hash: first_wins htab_ok "\<lambda>key. length key < 2 ^ 32 - 7" "(=)" hash_look hash_enter
  by unfold_locales (auto simp: hash_enter_map hash_look_def)

lemma find_map_of: "map_option snd (List.find (\<lambda>kv. k = fst kv) ps) = map_of ps k"
  by (induction ps) auto

text \<open>A comparison of byte strings, as a client may pass it to \<^verbatim>\<open>tsearch()\<close>.\<close>

fun bytes_cmp :: "byte list cmp" where
  "bytes_cmp [] [] = 0"
| "bytes_cmp [] (y # ys) = - 1"
| "bytes_cmp (x # xs) [] = 1"
| "bytes_cmp (x # xs) (y # ys) = (if x = y then bytes_cmp xs ys else if x < y then - 1 else 1)"

lemma bytes_cmp_eq: "bytes_cmp xs ys = 0 \<longleftrightarrow> xs = ys"
  by (induction xs ys rule: bytes_cmp.induct) auto

lemma bytes_cmp_flip: "bytes_cmp xs ys = - bytes_cmp ys xs"
  by (induction xs ys rule: bytes_cmp.induct) auto

lemma bytes_cmp_trans: "bytes_cmp xs ys \<le> 0 \<Longrightarrow> bytes_cmp ys zs \<le> 0 \<Longrightarrow> bytes_cmp xs zs \<le> 0"
proof (induction xs zs arbitrary: ys rule: bytes_cmp.induct)
  case (4 x xs z zs)
  then show ?case by (cases ys) (auto split: if_splits)
next
  case (3 x xs)
  then show ?case by (cases ys) auto
qed auto

lemma bytes_cmp_order: "key_order bytes_cmp"
  unfolding key_order_def using bytes_cmp_flip bytes_cmp_trans by (metis sgn_minus)



end
