(* ===== verification/Wmem_List.thy ===== *)
theory Wmem_List
  imports Clib4_Prelude "HOL-Library.Monad_Syntax"
begin

text \<open>
  The doubly linked lists of \<^verbatim>\<open>src/library/wmem/wmem_list.c\<close> with the stacks and queues made of
  them (\<^verbatim>\<open>wmem_stack.c\<close>, \<^verbatim>\<open>wmem_stack.h\<close>, \<^verbatim>\<open>wmem_queue.h\<close>).

  The frames of a list are in a store from addresses to frames. \<^verbatim>\<open>wmem_free\<close> takes a frame out of
  it, and an access to an address that has no frame is \<open>None\<close>: a \<^verbatim>\<open>NULL\<close> pointer, a use after
  free and a failed assertion are all visible. So is a loop that does not end, on a list that is
  circular. The address that \<^verbatim>\<open>wmem_new\<close> returns for a new frame is an argument.

  The lemmas relate the store to the list of the data in it. The whole component refines the
  operations on such lists: a list made by any sequence of operations is well linked, no operation
  fails on it, and each does what its abstract counterpart does.
\<close>

section \<open>The operations\<close>

record 'd frame =
  fr_next :: "nat option"
  fr_prev :: "nat option"
  fr_data :: 'd

record 'd wmem_list =
  wl_count :: ulong
  wl_head :: "nat option"
  wl_tail :: "nat option"
  wl_frames :: "nat \<rightharpoonup> 'd frame"

definition set_next :: "nat \<Rightarrow> nat option \<Rightarrow> 'd wmem_list \<Rightarrow> 'd wmem_list option" where
  "set_next p v l = do { f \<leftarrow> wl_frames l p; Some (l\<lparr>wl_frames := (wl_frames l)(p \<mapsto> f\<lparr>fr_next := v\<rparr>)\<rparr>) }"

definition set_prev :: "nat \<Rightarrow> nat option \<Rightarrow> 'd wmem_list \<Rightarrow> 'd wmem_list option" where
  "set_prev p v l = do { f \<leftarrow> wl_frames l p; Some (l\<lparr>wl_frames := (wl_frames l)(p \<mapsto> f\<lparr>fr_prev := v\<rparr>)\<rparr>) }"

definition wmem_list_new :: "'d wmem_list" where
  "wmem_list_new = \<lparr>wl_count = 0, wl_head = None, wl_tail = None, wl_frames = Map.empty\<rparr>"

definition new_frame :: "nat \<Rightarrow> 'd frame \<Rightarrow> 'd wmem_list \<Rightarrow> 'd wmem_list" where
  "new_frame a f l = l\<lparr>wl_frames := (wl_frames l)(a \<mapsto> f)\<rparr>"

definition wmem_list_prepend :: "nat \<Rightarrow> 'd \<Rightarrow> 'd wmem_list \<Rightarrow> 'd wmem_list option" where
  "wmem_list_prepend a d l =
     (let l1 = new_frame a \<lparr>fr_next = wl_head l, fr_prev = None, fr_data = d\<rparr> l in
      do {
        l2 \<leftarrow> (case wl_head l1 of Some h \<Rightarrow> set_prev h (Some a) l1 | None \<Rightarrow> Some (l1\<lparr>wl_tail := Some a\<rparr>));
        Some (l2\<lparr>wl_head := Some a, wl_count := wl_count l2 + 1\<rparr>)
      })"

definition wmem_list_append :: "nat \<Rightarrow> 'd \<Rightarrow> 'd wmem_list \<Rightarrow> 'd wmem_list option" where
  "wmem_list_append a d l =
     (let l1 = new_frame a \<lparr>fr_next = None, fr_prev = wl_tail l, fr_data = d\<rparr> l in
      do {
        l2 \<leftarrow> (case wl_tail l1 of Some t \<Rightarrow> set_next t (Some a) l1 | None \<Rightarrow> Some (l1\<lparr>wl_head := Some a\<rparr>));
        Some (l2\<lparr>wl_tail := Some a, wl_count := wl_count l2 + 1\<rparr>)
      })"

definition wmem_list_remove_frame :: "nat \<Rightarrow> 'd wmem_list \<Rightarrow> 'd wmem_list option" where
  "wmem_list_remove_frame p l =
     do {
       f \<leftarrow> wl_frames l p;
       l1 \<leftarrow> (case fr_prev f of Some q \<Rightarrow> set_next q (fr_next f) l | None \<Rightarrow> Some (l\<lparr>wl_head := fr_next f\<rparr>));
       f1 \<leftarrow> wl_frames l1 p;
       l2 \<leftarrow> (case fr_next f1 of Some q \<Rightarrow> set_prev q (fr_prev f1) l1 | None \<Rightarrow> Some (l1\<lparr>wl_tail := fr_prev f1\<rparr>));
       Some (l2\<lparr>wl_count := wl_count l2 - 1, wl_frames := (wl_frames l2)(p := None)\<rparr>)
     }"

text \<open>The search loop: the first frame from \<open>p\<close> on whose data satisfies \<open>P\<close>.\<close>

partial_function (option) list_scan :: "('d \<Rightarrow> bool) \<Rightarrow> 'd wmem_list \<Rightarrow> nat option \<Rightarrow> nat option option" where
  "list_scan P l p =
     (case p of None \<Rightarrow> Some None
      | Some a \<Rightarrow> Option.bind (wl_frames l a) (\<lambda>f. if P (fr_data f) then Some (Some a) else list_scan P l (fr_next f)))"

definition wmem_list_find :: "'d \<Rightarrow> 'd wmem_list \<Rightarrow> nat option option" where
  "wmem_list_find d l = list_scan (\<lambda>x. x = d) l (wl_head l)"

definition wmem_list_find_custom :: "'e \<Rightarrow> ('d \<Rightarrow> 'e \<Rightarrow> int) \<Rightarrow> 'd wmem_list \<Rightarrow> nat option option" where
  "wmem_list_find_custom d compare_func l = list_scan (\<lambda>x. compare_func x d = 0) l (wl_head l)"

definition wmem_list_remove :: "'d \<Rightarrow> 'd wmem_list \<Rightarrow> 'd wmem_list option" where
  "wmem_list_remove d l =
     do {
       p \<leftarrow> list_scan (\<lambda>x. x = d) l (wl_head l);
       case p of None \<Rightarrow> Some l | Some a \<Rightarrow> wmem_list_remove_frame a l
     }"

text \<open>
  The loops of the sorted insertions, from the frame \<open>q\<close> and its successor \<open>p\<close> on: the first pair
  whose second frame is missing or has data for which \<open>c\<close> does not hold.
\<close>

partial_function (option) skip_forward ::
  "('d \<Rightarrow> bool) \<Rightarrow> 'd wmem_list \<Rightarrow> nat \<Rightarrow> nat option \<Rightarrow> (nat \<times> nat option) option" where
  "skip_forward c l q p =
     (case p of None \<Rightarrow> Some (q, None)
      | Some a \<Rightarrow> Option.bind (wl_frames l a) (\<lambda>f. if c (fr_data f) then skip_forward c l a (fr_next f) else Some (q, Some a)))"

partial_function (option) skip_back ::
  "('d \<Rightarrow> bool) \<Rightarrow> 'd wmem_list \<Rightarrow> nat \<Rightarrow> nat option \<Rightarrow> (nat \<times> nat option) option" where
  "skip_back c l q p =
     (case p of None \<Rightarrow> Some (q, None)
      | Some a \<Rightarrow> Option.bind (wl_frames l a) (\<lambda>f. if c (fr_data f) then skip_back c l a (fr_prev f) else Some (q, Some a)))"

text \<open>The new frame \<open>a\<close> between \<open>q\<close> and \<open>r\<close>, the last four assignments of the sorted insertions.\<close>

definition link_between :: "nat \<Rightarrow> nat \<Rightarrow> nat \<Rightarrow> 'd wmem_list \<Rightarrow> 'd wmem_list option" where
  "link_between a q r l =
     do { l1 \<leftarrow> set_prev a (Some q) l; l2 \<leftarrow> set_next a (Some r) l1; l3 \<leftarrow> set_next q (Some a) l2; set_prev r (Some a) l3 }"

definition wmem_list_insert_sorted :: "nat \<Rightarrow> 'd \<Rightarrow> 'd cmp \<Rightarrow> 'd wmem_list \<Rightarrow> 'd wmem_list option" where
  "wmem_list_insert_sorted a d func l0 =
     (let l1 = new_frame a \<lparr>fr_next = None, fr_prev = None, fr_data = d\<rparr> l0;
          l = l1\<lparr>wl_count := wl_count l1 + 1\<rparr>
      in case wl_head l of
        None \<Rightarrow> Some (l\<lparr>wl_head := Some a, wl_tail := Some a\<rparr>)
      | Some h \<Rightarrow>
          do {
            f \<leftarrow> wl_frames l h;
            if func (fr_data f) d \<ge> 0
            then do { l2 \<leftarrow> set_prev h (Some a) l; l3 \<leftarrow> set_next a (Some h) l2; Some (l3\<lparr>wl_head := Some a\<rparr>) }
            else do {
              (q, p) \<leftarrow> skip_forward (\<lambda>x. func x d \<le> 0) l h (fr_next f);
              case p of
                None \<Rightarrow> do { l2 \<leftarrow> set_next q (Some a) l; l3 \<leftarrow> set_prev a (Some q) l2; Some (l3\<lparr>wl_tail := Some a\<rparr>) }
              | Some r \<Rightarrow> link_between a q r l
            }
          })"

definition wmem_list_append_sorted :: "nat \<Rightarrow> 'd \<Rightarrow> 'd cmp \<Rightarrow> 'd wmem_list \<Rightarrow> 'd wmem_list option" where
  "wmem_list_append_sorted a d func l0 =
     (let l1 = new_frame a \<lparr>fr_next = None, fr_prev = None, fr_data = d\<rparr> l0;
          l = l1\<lparr>wl_count := wl_count l1 + 1\<rparr>
      in case wl_head l of
        None \<Rightarrow> Some (l\<lparr>wl_head := Some a, wl_tail := Some a\<rparr>)
      | Some h \<Rightarrow>
          do {
            t \<leftarrow> wl_tail l;
            f \<leftarrow> wl_frames l t;
            if func (fr_data f) d \<le> 0
            then do { l2 \<leftarrow> set_next t (Some a) l; l3 \<leftarrow> set_prev a (Some t) l2; Some (l3\<lparr>wl_tail := Some a\<rparr>) }
            else do {
              (r, p) \<leftarrow> skip_back (\<lambda>x. func x d \<ge> 0) l t (fr_prev f);
              case p of
                None \<Rightarrow> do { l2 \<leftarrow> set_prev r (Some a) l; l3 \<leftarrow> set_next a (Some r) l2; Some (l3\<lparr>wl_head := Some a\<rparr>) }
              | Some q \<Rightarrow> link_between a q r l
            }
          })"

text \<open>The data that \<^verbatim>\<open>wmem_list_foreach\<close> passes to its function, and the frames that destroying frees.\<close>

partial_function (option) wmem_list_foreach :: "'d wmem_list \<Rightarrow> nat option \<Rightarrow> 'd list option" where
  "wmem_list_foreach l p =
     (case p of None \<Rightarrow> Some []
      | Some a \<Rightarrow> Option.bind (wl_frames l a) (\<lambda>f. Option.bind (wmem_list_foreach l (fr_next f)) (\<lambda>ds. Some (fr_data f # ds))))"

partial_function (option) destroy_frames :: "nat option \<Rightarrow> 'd wmem_list \<Rightarrow> 'd wmem_list option" where
  "destroy_frames p l =
     (case p of None \<Rightarrow> Some l
      | Some a \<Rightarrow> Option.bind (wl_frames l a) (\<lambda>f. destroy_frames (fr_next f) (l\<lparr>wl_frames := (wl_frames l)(a := None)\<rparr>)))"

definition wmem_destroy_list :: "'d wmem_list \<Rightarrow> 'd wmem_list option" where
  "wmem_destroy_list l = destroy_frames (wl_head l) l"

definition wmem_stack_peek :: "'d wmem_list \<Rightarrow> 'd option" where
  "wmem_stack_peek l = do { a \<leftarrow> wl_head l; f \<leftarrow> wl_frames l a; Some (fr_data f) }"

definition wmem_stack_pop :: "'d wmem_list \<Rightarrow> ('d \<times> 'd wmem_list) option" where
  "wmem_stack_pop l = do { d \<leftarrow> wmem_stack_peek l; l' \<leftarrow> wmem_list_remove d l; Some (d, l') }"

abbreviation wmem_stack_push :: "nat \<Rightarrow> 'd \<Rightarrow> 'd wmem_list \<Rightarrow> 'd wmem_list option" where
  "wmem_stack_push \<equiv> wmem_list_prepend"

abbreviation wmem_queue_push :: "nat \<Rightarrow> 'd \<Rightarrow> 'd wmem_list \<Rightarrow> 'd wmem_list option" where
  "wmem_queue_push \<equiv> wmem_list_append"

abbreviation wmem_queue_pop :: "'d wmem_list \<Rightarrow> ('d \<times> 'd wmem_list) option" where
  "wmem_queue_pop \<equiv> wmem_stack_pop"

section \<open>Well-linked lists\<close>

text \<open>
  A list is described by the addresses of its frames with their data. \<open>links h pv xs nx\<close>: the
  frames of \<open>xs\<close> are linked in their order, between the frames \<open>pv\<close> and \<open>nx\<close>.
\<close>

definition first :: "(nat \<times> 'd) list \<Rightarrow> nat option \<Rightarrow> nat option" where
  "first xs nx = (case xs of [] \<Rightarrow> nx | x # _ \<Rightarrow> Some (fst x))"

definition final :: "nat option \<Rightarrow> (nat \<times> 'd) list \<Rightarrow> nat option" where
  "final pv xs = (if xs = [] then pv else Some (fst (last xs)))"

fun links :: "(nat \<rightharpoonup> 'd frame) \<Rightarrow> nat option \<Rightarrow> (nat \<times> 'd) list \<Rightarrow> nat option \<Rightarrow> bool" where
  "links h pv [] nx \<longleftrightarrow> True"
| "links h pv ((a, d) # xs) nx \<longleftrightarrow>
     h a = Some \<lparr>fr_next = first xs nx, fr_prev = pv, fr_data = d\<rparr> \<and> links h (Some a) xs nx"

definition wl_ok :: "'d wmem_list \<Rightarrow> (nat \<times> 'd) list \<Rightarrow> bool" where
  "wl_ok l xs \<longleftrightarrow> distinct (map fst xs) \<and> links (wl_frames l) None xs None \<and> dom (wl_frames l) = fst ` set xs \<and>
     wl_head l = first xs None \<and> wl_tail l = final None xs \<and> wl_count l = of_nat (length xs)"

lemma first_simps [simp]: "first [] nx = nx" "first (x # xs) nx = Some (fst x)"
  "first (xs @ ys) nx = first xs (first ys nx)"
  by (simp_all add: first_def split: list.splits)

lemma final_simps [simp]: "final pv [] = pv" "final pv (x # xs) = final (Some (fst x)) xs"
  "final pv (xs @ ys) = final (final pv xs) ys"
  by (simp_all add: final_def)

lemma links_append: "links h pv (xs @ ys) nx \<longleftrightarrow> links h pv xs (first ys nx) \<and> links h (final pv xs) ys nx"
  by (induction h pv xs nx rule: links.induct) auto

lemma final_in: "xs \<noteq> [] \<Longrightarrow> \<exists>x. final pv xs = Some x \<and> x \<in> fst ` set xs"
  by (simp add: final_def)

text \<open>
  The heap \<open>h'\<close> differs from \<open>h\<close> on \<open>xs\<close> in the pointer out of its last frame, or into its first.
\<close>

lemma links_new_next:
  "links h pv xs nx \<Longrightarrow> distinct (map fst xs) \<Longrightarrow>
    (\<And>x. x \<in> fst ` set xs \<Longrightarrow>
      h' x = map_option (\<lambda>f. f\<lparr>fr_next := if final None xs = Some x then nx' else fr_next f\<rparr>) (h x)) \<Longrightarrow>
    links h' pv xs nx'"
proof (induction h pv xs nx rule: links.induct)
  case (2 h pv a d xs nx)
  have a: "h' a = Some \<lparr>fr_next = first xs nx', fr_prev = pv, fr_data = d\<rparr>"
  proof (cases xs)
    case Nil
    with 2 show ?thesis by auto
  next
    case (Cons y ys)
    then obtain x where "final (Some a) xs = Some x" "x \<in> fst ` set xs" using final_in [of xs "Some a"] by blast
    moreover have "a \<notin> fst ` set xs" using 2(3) by simp
    ultimately have "final (Some a) xs \<noteq> Some a" by (metis option.inject)
    with 2(2) 2(4) [of a] Cons show ?thesis by auto
  qed
  have "links h' (Some a) xs nx'"
  proof (rule 2(1))
    fix x assume x: "x \<in> fst ` set xs"
    then have "xs \<noteq> []" by auto
    then have "final (Some a) xs = final None xs" by (simp add: final_def)
    with 2(4) [of x] x show "h' x = map_option (\<lambda>f. f\<lparr>fr_next := if final None xs = Some x then nx' else fr_next f\<rparr>) (h x)"
      by simp
  qed (use 2(2,3) in auto)
  with a show ?case by simp
qed simp

lemma links_cong: "links h pv xs nx \<Longrightarrow> (\<And>x. x \<in> fst ` set xs \<Longrightarrow> h' x = h x) \<Longrightarrow> links h' pv xs nx"
  by (induction h pv xs nx rule: links.induct) auto

lemma links_new_prev:
  assumes l: "links h pv xs nx" "distinct (map fst xs)"
    and h': "\<And>x. x \<in> fst ` set xs \<Longrightarrow>
      h' x = map_option (\<lambda>f. f\<lparr>fr_prev := if first xs None = Some x then pv' else fr_prev f\<rparr>) (h x)"
  shows "links h' pv' xs nx"
proof (cases xs)
  case (Cons y ys)
  obtain a d where y: "y = (a, d)" by force
  have "h' x = h x" if "x \<in> fst ` set ys" for x
  proof -
    have "x \<noteq> a" using that l(2) Cons y by auto
    with h' [of x] that Cons y show ?thesis by (cases "h x") auto
  qed
  then have "links h' (Some a) ys nx" using l(1) Cons y links_cong [of h "Some a" ys nx h'] by simp
  with l(1) h' [of a] Cons y show ?thesis by simp
qed simp

text \<open>A new frame between \<open>xs\<close> and \<open>ys\<close>, or no frame between them any more.\<close>

definition relinked :: "(nat \<rightharpoonup> 'd frame) \<Rightarrow> (nat \<rightharpoonup> 'd frame) \<Rightarrow> (nat \<times> 'd) list \<Rightarrow> (nat \<times> 'd) list \<Rightarrow>
    nat option \<Rightarrow> nat option \<Rightarrow> bool" where
  "relinked h h' xs ys nx pv \<longleftrightarrow>
     (\<forall>x\<in>fst ` set (xs @ ys). h' x = map_option (\<lambda>f. f
        \<lparr>fr_next := if final None xs = Some x then nx else fr_next f,
         fr_prev := if first ys None = Some x then pv else fr_prev f\<rparr>) (h x))"

lemma frame_next_id: "f\<lparr>fr_next := fr_next f, fr_prev := p\<rparr> = f\<lparr>fr_prev := p\<rparr>" for f :: "'d frame"
  by (cases f) simp

lemma frame_prev_id: "f\<lparr>fr_next := p, fr_prev := fr_prev f\<rparr> = f\<lparr>fr_next := p\<rparr>" for f :: "'d frame"
  by (cases f) simp

lemma links_relinked:
  assumes "links h None xs nx" "links h pv ys None" "distinct (map fst (xs @ ys))" "relinked h h' xs ys nx' pv'"
  shows "links h' None xs nx'" and "links h' pv' ys None"
proof -
  have first: "first ys None \<noteq> Some x" if "x \<in> fst ` set xs" for x
  proof (cases ys)
    case (Cons y zs)
    moreover have "fst ` set xs \<inter> fst ` set ys = {}" using assms(3) by simp
    ultimately show ?thesis using that by (metis disjoint_iff first_simps(2) image_eqI list.set_intros(1) option.inject)
  qed simp
  have final: "final None xs \<noteq> Some x" if "x \<in> fst ` set ys" for x
  proof (cases "xs = []")
    case False
    then obtain y where "final None xs = Some y" "y \<in> fst ` set xs" using final_in [of xs None] by blast
    moreover have "fst ` set xs \<inter> fst ` set ys = {}" using assms(3) by simp
    ultimately show ?thesis using that by (metis disjoint_iff option.inject)
  qed simp
  have h': "h' x = map_option (\<lambda>f. f
        \<lparr>fr_next := if final None xs = Some x then nx' else fr_next f,
         fr_prev := if first ys None = Some x then pv' else fr_prev f\<rparr>) (h x)" if "x \<in> fst ` set (xs @ ys)" for x
    using assms(4) that unfolding relinked_def by blast
  show "links h' None xs nx'"
  proof (rule links_new_next [OF assms(1)])
    fix x assume x: "x \<in> fst ` set xs"
    then have "x \<in> fst ` set (xs @ ys)" by auto
    from h' [OF this] show "h' x = map_option (\<lambda>f. f\<lparr>fr_next := if final None xs = Some x then nx' else fr_next f\<rparr>) (h x)"
      unfolding if_not_P [OF first [OF x]] frame_prev_id .
  qed (use assms(3) in simp)
  show "links h' pv' ys None"
  proof (rule links_new_prev [OF assms(2)])
    fix x assume x: "x \<in> fst ` set ys"
    then have "x \<in> fst ` set (xs @ ys)" by auto
    from h' [OF this] show "h' x = map_option (\<lambda>f. f\<lparr>fr_prev := if first ys None = Some x then pv' else fr_prev f\<rparr>) (h x)"
      unfolding if_not_P [OF final [OF x]] frame_next_id .
  qed (use assms(3) in simp)
qed

lemma wl_ok_frame: "wl_ok l xs \<Longrightarrow> x \<in> fst ` set xs \<Longrightarrow> \<exists>f. wl_frames l x = Some f"
  by (auto simp: wl_ok_def dom_def)

lemma wl_ok_insert:
  assumes ok: "wl_ok l (xs @ ys)" and new: "a \<notin> fst ` set (xs @ ys)"
    and a: "wl_frames l' a = Some \<lparr>fr_next = first ys None, fr_prev = final None xs, fr_data = d\<rparr>"
    and h: "relinked (wl_frames l) (wl_frames l') xs ys (Some a) (Some a)"
    and dom: "dom (wl_frames l') = insert a (dom (wl_frames l))"
    and ends: "wl_head l' = first xs (Some a)" "wl_tail l' = final (Some a) ys" "wl_count l' = wl_count l + 1"
  shows "wl_ok l' (xs @ (a, d) # ys)"
proof -
  have links: "links (wl_frames l) None xs (first ys None)" "links (wl_frames l) (final None xs) ys None"
    and dist: "distinct (map fst (xs @ ys))" using ok by (simp_all add: wl_ok_def links_append)
  have "links (wl_frames l') None xs (Some a)" "links (wl_frames l') (Some a) ys None"
    using links_relinked [OF links dist h] by auto
  with a have "links (wl_frames l') None (xs @ (a, d) # ys) None" by (simp add: links_append)
  with ok new dom ends show ?thesis by (auto simp: wl_ok_def)
qed

lemma wl_ok_delete:
  assumes ok: "wl_ok l (xs @ (a, d) # ys)"
    and h: "relinked (wl_frames l) (wl_frames l') xs ys (first ys None) (final None xs)"
    and dom: "dom (wl_frames l') = dom (wl_frames l) - {a}"
    and ends: "wl_head l' = first (xs @ ys) None" "wl_tail l' = final None (xs @ ys)" "wl_count l' = wl_count l - 1"
  shows "wl_ok l' (xs @ ys)"
proof -
  have links: "links (wl_frames l) None xs (Some a)" "links (wl_frames l) (Some a) ys None"
    and dist: "distinct (map fst (xs @ ys))" and new: "a \<notin> fst ` set (xs @ ys)"
    using ok by (auto simp: wl_ok_def links_append)
  have "links (wl_frames l') None (xs @ ys) None"
    using links_relinked [OF links dist h] by (simp add: links_append)
  moreover have "dom (wl_frames l') = fst ` set (xs @ ys)" using ok new dom by (auto simp: wl_ok_def)
  ultimately show ?thesis using ok ends dist by (simp add: wl_ok_def)
qed

lemma set_next_eq: "wl_frames l p = Some f \<Longrightarrow>
    set_next p v l = Some (l\<lparr>wl_frames := (wl_frames l)(p \<mapsto> f\<lparr>fr_next := v\<rparr>)\<rparr>)"
  by (simp add: set_next_def)

lemma set_prev_eq: "wl_frames l p = Some f \<Longrightarrow>
    set_prev p v l = Some (l\<lparr>wl_frames := (wl_frames l)(p \<mapsto> f\<lparr>fr_prev := v\<rparr>)\<rparr>)"
  by (simp add: set_prev_def)

text \<open>The frame at a place of a well-linked list.\<close>

lemma wl_ok_at:
  "wl_ok l (xs @ (a, d) # ys) \<Longrightarrow>
    wl_frames l a = Some \<lparr>fr_next = first ys None, fr_prev = final None xs, fr_data = d\<rparr>"
  by (simp add: wl_ok_def links_append)

lemma wl_ok_new_address: "wl_ok l xs \<Longrightarrow> wl_frames l a = None \<Longrightarrow> a \<notin> fst ` set xs"
  unfolding wl_ok_def by (metis domIff)

text \<open>The list with a new frame between \<open>xs\<close> and \<open>ys\<close>, which every insertion makes.\<close>

definition spliced :: "'d wmem_list \<Rightarrow> (nat \<times> 'd) list \<Rightarrow> nat \<Rightarrow> 'd \<Rightarrow> (nat \<times> 'd) list \<Rightarrow> 'd wmem_list" where
  "spliced l xs a d ys =
     \<lparr>wl_count = wl_count l + 1, wl_head = first xs (Some a), wl_tail = final (Some a) ys,
      wl_frames = (\<lambda>x. if x = a then Some \<lparr>fr_next = first ys None, fr_prev = final None xs, fr_data = d\<rparr>
        else map_option (\<lambda>f. f
          \<lparr>fr_next := if final None xs = Some x then Some a else fr_next f,
           fr_prev := if first ys None = Some x then Some a else fr_prev f\<rparr>) (wl_frames l x))\<rparr>"

lemma wl_ok_spliced:
  assumes "wl_ok l (xs @ ys)" "wl_frames l a = None"
  shows "wl_ok (spliced l xs a d ys) (xs @ (a, d) # ys)"
proof (rule wl_ok_insert [OF assms(1) wl_ok_new_address [OF assms]])
  show "relinked (wl_frames l) (wl_frames (spliced l xs a d ys)) xs ys (Some a) (Some a)"
    using wl_ok_new_address [OF assms] unfolding relinked_def spliced_def by auto
qed (auto simp: spliced_def)

lemma spliced_eqI:
  assumes "wl_count l' = wl_count l + 1" "wl_head l' = first xs (Some a)" "wl_tail l' = final (Some a) ys"
    "\<And>x. wl_frames l' x = (if x = a then Some \<lparr>fr_next = first ys None, fr_prev = final None xs, fr_data = d\<rparr>
        else map_option (\<lambda>f. f
          \<lparr>fr_next := if final None xs = Some x then Some a else fr_next f,
           fr_prev := if first ys None = Some x then Some a else fr_prev f\<rparr>) (wl_frames l x))"
  shows "l' = spliced l xs a d ys"
  using assms by (intro wmem_list.equality) (auto simp: spliced_def)

lemma prepend_spliced:
  assumes ok: "wl_ok l xs" and a: "wl_frames l a = None"
  shows "wmem_list_prepend a d l = Some (spliced l [] a d xs)"
proof (cases xs)
  case Nil
  with ok show ?thesis
    by (auto simp: wmem_list_prepend_def new_frame_def wl_ok_def option.map_ident intro!: spliced_eqI)
next
  case (Cons y ys)
  obtain h dh where y: "y = (h, dh)" by force
  have f: "wl_frames l h = Some \<lparr>fr_next = first ys None, fr_prev = None, fr_data = dh\<rparr>"
    using wl_ok_at [of l "[]" h dh ys] ok Cons y by simp
  then have ah: "h \<noteq> a" using a by auto
  have "final None xs = final (Some a) xs" using Cons by (simp add: final_def)
  with ok f Cons y ah show ?thesis
    by (auto simp: wmem_list_prepend_def new_frame_def set_prev_def wl_ok_def option.map_ident intro!: spliced_eqI)
qed

lemma append_spliced:
  assumes ok: "wl_ok l xs" and a: "wl_frames l a = None"
  shows "wmem_list_append a d l = Some (spliced l xs a d [])"
proof (cases xs rule: rev_cases)
  case Nil
  with ok show ?thesis
    by (auto simp: wmem_list_append_def new_frame_def wl_ok_def option.map_ident intro!: spliced_eqI)
next
  case (snoc ys y)
  obtain t dt where y: "y = (t, dt)" by force
  have f: "wl_frames l t = Some \<lparr>fr_next = None, fr_prev = final None ys, fr_data = dt\<rparr>"
    using wl_ok_at [of l ys t dt "[]"] ok snoc y by simp
  then have ah: "t \<noteq> a" using a by auto
  have "first xs None = first xs (Some a)" using snoc by (cases xs) simp_all
  with ok f snoc y ah show ?thesis
    by (auto simp: wmem_list_append_def new_frame_def set_next_def wl_ok_def option.map_ident intro!: spliced_eqI)
qed

lemma list_scan_find:
  "links (wl_frames l) pv xs None \<Longrightarrow> list_scan P l (first xs None) = Some (map_option fst (List.find (\<lambda>x. P (snd x)) xs))"
proof (induction "wl_frames l" pv xs "None :: nat option" rule: links.induct)
  case (1 pv)
  then show ?case by (simp add: list_scan.simps)
next
  case (2 pv a d xs)
  then show ?case by (subst list_scan.simps) auto
qed

lemma skip_forward_result:
  "links (wl_frames l) pv ((q, dq) # xs) None \<Longrightarrow>
    skip_forward c l q (first xs None) =
      Some (last (q # map fst (takeWhile (\<lambda>x. c (snd x)) xs)), first (dropWhile (\<lambda>x. c (snd x)) xs) None)"
proof (induction xs arbitrary: pv q dq)
  case Nil
  then show ?case by (simp add: skip_forward.simps)
next
  case (Cons x xs)
  obtain b d where x: "x = (b, d)" by force
  have "links (wl_frames l) (Some q) ((b, d) # xs) None" using Cons.prems x by simp
  from Cons.IH [OF this] this show ?case by (subst skip_forward.simps) (auto simp: x)
qed

lemma skip_back_result:
  "links (wl_frames l) None (rev xs @ [(q, dq)]) nx \<Longrightarrow>
    skip_back c l q (final None (rev xs)) =
      Some (last (q # map fst (takeWhile (\<lambda>x. c (snd x)) xs)), first (dropWhile (\<lambda>x. c (snd x)) xs) None)"
proof (induction xs arbitrary: nx q dq)
  case Nil
  then show ?case by (simp add: skip_back.simps)
next
  case (Cons x xs)
  obtain b d where x: "x = (b, d)" by force
  have "links (wl_frames l) None (rev xs @ [(b, d)]) (Some q)" using Cons.prems x by (simp add: links_append)
  from Cons.IH [OF this] this show ?case by (subst skip_back.simps) (auto simp: x links_append)
qed

text \<open>The list after the first assignments of the sorted insertions.\<close>

definition unlinked :: "nat \<Rightarrow> 'd \<Rightarrow> 'd wmem_list \<Rightarrow> 'd wmem_list" where
  "unlinked a d l = l\<lparr>wl_frames := (wl_frames l)(a \<mapsto> \<lparr>fr_next = None, fr_prev = None, fr_data = d\<rparr>),
      wl_count := wl_count l + 1\<rparr>"

lemma unlinked_eq:
  "(new_frame a \<lparr>fr_next = None, fr_prev = None, fr_data = d\<rparr> l)
     \<lparr>wl_count := wl_count (new_frame a \<lparr>fr_next = None, fr_prev = None, fr_data = d\<rparr> l) + 1\<rparr> = unlinked a d l"
  by (simp add: unlinked_def new_frame_def)

lemma unlinked_ends: "wl_head (unlinked a d l) = wl_head l" "wl_tail (unlinked a d l) = wl_tail l"
  by (simp_all add: unlinked_def)

lemma unlinked_links:
  assumes "wl_ok l xs" "wl_frames l a = None"
  shows "links (wl_frames (unlinked a d l)) None xs None"
proof (rule links_cong)
  show "links (wl_frames l) None xs None" using assms(1) by (simp add: wl_ok_def)
  show "wl_frames (unlinked a d l) x = wl_frames l x" if "x \<in> fst ` set xs" for x
    using that wl_ok_new_address [OF assms] by (auto simp: unlinked_def)
qed

lemma unlinked_between:
  assumes ok: "wl_ok l (xs @ (q, dq) # (r, dr) # ys)" and a: "wl_frames l a = None"
  shows "link_between a q r (unlinked a d l) = Some (spliced l (xs @ [(q, dq)]) a d ((r, dr) # ys))"
proof -
  have q: "wl_frames l q = Some \<lparr>fr_next = Some r, fr_prev = final None xs, fr_data = dq\<rparr>"
    using wl_ok_at [OF ok] by simp
  have r: "wl_frames l r = Some \<lparr>fr_next = first ys None, fr_prev = Some q, fr_data = dr\<rparr>"
    using wl_ok_at [of l "xs @ [(q, dq)]" r dr ys] ok by simp
  have ne: "q \<noteq> a" "r \<noteq> a" "q \<noteq> r" using q r a ok by (auto simp: wl_ok_def)
  then show ?thesis using q r ok
    by (auto simp: link_between_def unlinked_def set_next_def set_prev_def wl_ok_def option.map_ident
        split: if_splits intro!: spliced_eqI)
qed

lemma unlinked_tail:
  assumes ok: "wl_ok l (xs @ [(q, dq)])" and a: "wl_frames l a = None"
  shows "do { l2 \<leftarrow> set_next q (Some a) (unlinked a d l); l3 \<leftarrow> set_prev a (Some q) l2; Some (l3\<lparr>wl_tail := Some a\<rparr>) } =
    Some (spliced l (xs @ [(q, dq)]) a d [])"
proof -
  have q: "wl_frames l q = Some \<lparr>fr_next = None, fr_prev = final None xs, fr_data = dq\<rparr>"
    using wl_ok_at [OF ok] by simp
  then have ne: "q \<noteq> a" using a by auto
  have "first (xs @ [(q, dq)]) None = first (xs @ [(q, dq)]) (Some a)" by (cases xs) simp_all
  then show ?thesis using q ok ne
    by (auto simp: unlinked_def set_next_def set_prev_def wl_ok_def option.map_ident intro!: spliced_eqI)
qed

lemma unlinked_head:
  assumes ok: "wl_ok l ((r, dr) # ys)" and a: "wl_frames l a = None"
  shows "do { l2 \<leftarrow> set_prev r (Some a) (unlinked a d l); l3 \<leftarrow> set_next a (Some r) l2; Some (l3\<lparr>wl_head := Some a\<rparr>) } =
    Some (spliced l [] a d ((r, dr) # ys))"
proof -
  have r: "wl_frames l r = Some \<lparr>fr_next = first ys None, fr_prev = None, fr_data = dr\<rparr>"
    using wl_ok_at [of l "[]" r dr ys] ok by simp
  then have ne: "r \<noteq> a" using a by auto
  show ?thesis using r ok ne
    by (auto simp: unlinked_def set_next_def set_prev_def wl_ok_def option.map_ident intro!: spliced_eqI)
qed

text \<open>Where the sorted insertions put the new frame.\<close>

definition insert_split :: "'d \<Rightarrow> 'd cmp \<Rightarrow> (nat \<times> 'd) list \<Rightarrow> (nat \<times> 'd) list \<times> (nat \<times> 'd) list" where
  "insert_split d func xs = (case xs of [] \<Rightarrow> ([], []) | x # zs \<Rightarrow>
     if func (snd x) d \<ge> 0 then ([], xs)
     else (x # takeWhile (\<lambda>y. func (snd y) d \<le> 0) zs, dropWhile (\<lambda>y. func (snd y) d \<le> 0) zs))"

lemma insert_sorted_spliced:
  assumes ok: "wl_ok l xs" and a: "wl_frames l a = None" and sp: "insert_split d func xs = (us, vs)"
  shows "wmem_list_insert_sorted a d func l = Some (spliced l us a d vs)" and "xs = us @ vs"
proof -
  note u = wmem_list_insert_sorted_def [of a d func l, unfolded Let_def unlinked_eq]
  show xs: "xs = us @ vs" using sp by (auto simp: insert_split_def split: list.splits if_splits)
  show "wmem_list_insert_sorted a d func l = Some (spliced l us a d vs)"
  proof (cases xs)
    case Nil
    with ok sp u show ?thesis
      by (auto simp: insert_split_def unlinked_def wl_ok_def option.map_ident intro!: spliced_eqI)
  next
    case (Cons x zs)
    obtain h dh where x: "x = (h, dh)" by force
    have links: "links (wl_frames (unlinked a d l)) None ((h, dh) # zs) None"
      using unlinked_links [OF ok a] Cons x by simp
    have head: "wl_head (unlinked a d l) = Some h" using ok Cons x by (simp add: wl_ok_def unlinked_ends)
    show ?thesis
    proof (cases "func dh d \<ge> 0")
      case True
      with u head links sp Cons x unlinked_head [of l h dh zs a d] ok a show ?thesis by (simp add: insert_split_def)
    next
      case False
      let ?c = "\<lambda>y. func (snd y) d \<le> 0"
      have us: "us = (h, dh) # takeWhile ?c zs" "vs = dropWhile ?c zs" using sp Cons x False by (simp_all add: insert_split_def)
      obtain ws q dq where ws: "us = ws @ [(q, dq)]" using us(1) by (metis list.distinct(1) prod.exhaust rev_exhaust)
      have last: "last (h # map fst (takeWhile ?c zs)) = q"
        using arg_cong [OF us(1), of "\<lambda>us. last (map fst us)"] ws by simp
      have skip: "skip_forward (\<lambda>x. func x d \<le> 0) (unlinked a d l) h (first zs None) = Some (q, first vs None)"
        using skip_forward_result [OF links, of "\<lambda>x. func x d \<le> 0"] last us(2) by simp
      have "wmem_list_insert_sorted a d func l =
        (case first vs None of
           None \<Rightarrow> do { l2 \<leftarrow> set_next q (Some a) (unlinked a d l); l3 \<leftarrow> set_prev a (Some q) l2; Some (l3\<lparr>wl_tail := Some a\<rparr>) }
         | Some r \<Rightarrow> link_between a q r (unlinked a d l))"
        using u head links False skip by simp
      then show ?thesis using unlinked_tail [of l ws q dq a d] unlinked_between [of l ws q dq _ _ _ a d] ok a xs ws
        by (cases vs) auto
    qed
  qed
qed

definition append_split :: "'d \<Rightarrow> 'd cmp \<Rightarrow> (nat \<times> 'd) list \<Rightarrow> (nat \<times> 'd) list \<times> (nat \<times> 'd) list" where
  "append_split d func xs = (case rev xs of [] \<Rightarrow> ([], []) | x # zs \<Rightarrow>
     if func (snd x) d \<le> 0 then (xs, [])
     else (rev (dropWhile (\<lambda>y. func (snd y) d \<ge> 0) zs), rev (takeWhile (\<lambda>y. func (snd y) d \<ge> 0) zs) @ [x]))"

lemma append_sorted_spliced:
  assumes ok: "wl_ok l xs" and a: "wl_frames l a = None" and sp: "append_split d func xs = (us, vs)"
  shows "wmem_list_append_sorted a d func l = Some (spliced l us a d vs)" and "xs = us @ vs"
proof -
  note u = wmem_list_append_sorted_def [of a d func l, unfolded Let_def unlinked_eq]
  show xs: "xs = us @ vs"
  proof (cases "rev xs")
    case (Cons x zs)
    then have "xs = rev zs @ [x]" by (simp add: rev_swap)
    also have "rev zs = rev (dropWhile (\<lambda>y. func (snd y) d \<ge> 0) zs) @ rev (takeWhile (\<lambda>y. func (snd y) d \<ge> 0) zs)"
      by (simp flip: rev_append)
    finally show ?thesis using sp Cons by (auto simp: append_split_def split: if_splits)
  qed (use sp in \<open>simp add: append_split_def\<close>)
  show "wmem_list_append_sorted a d func l = Some (spliced l us a d vs)"
  proof (cases xs rule: rev_cases)
    case Nil
    with ok sp u show ?thesis
      by (auto simp: append_split_def unlinked_def wl_ok_def option.map_ident intro!: spliced_eqI)
  next
    case (snoc zs x)
    obtain t dt where x: "x = (t, dt)" by force
    have links: "links (wl_frames (unlinked a d l)) None (rev (rev zs) @ [(t, dt)]) None"
      using unlinked_links [OF ok a] snoc x by simp
    have tail: "wl_tail (unlinked a d l) = Some t" "wl_head (unlinked a d l) \<noteq> None"
      using ok snoc x by (cases zs; simp add: wl_ok_def unlinked_ends)+
    then obtain h where h: "wl_head (unlinked a d l) = Some h" by blast
    have ft: "wl_frames (unlinked a d l) t = Some \<lparr>fr_next = None, fr_prev = final None zs, fr_data = dt\<rparr>"
      using links by (simp add: links_append)
    show ?thesis
    proof (cases "func dt d \<le> 0")
      case True
      with u h tail ft sp snoc x unlinked_tail [of l zs t dt a d] ok a show ?thesis by (simp add: append_split_def)
    next
      case False
      let ?c = "\<lambda>y. func (snd y) d \<ge> 0"
      have us: "us = rev (dropWhile ?c (rev zs))" "vs = rev (takeWhile ?c (rev zs)) @ [(t, dt)]"
        using sp snoc x False by (simp_all add: append_split_def)
      have "vs \<noteq> []" using us(2) by simp
      then obtain ws r dr where ws: "vs = (r, dr) # ws" by (metis neq_Nil_conv prod.exhaust)
      have last: "last (t # map fst (takeWhile ?c (rev zs))) = r"
        using arg_cong [OF us(2), of "\<lambda>us. last (map fst (rev us))"] ws by simp
      have fin: "first (rev us) None = final None us" by (cases us rule: rev_cases) simp_all
      have skip: "skip_back (\<lambda>x. func x d \<ge> 0) (unlinked a d l) t (final None zs) = Some (r, final None us)"
        using skip_back_result [OF links, of "\<lambda>x. func x d \<ge> 0"] last us(1) fin by simp
      have "wmem_list_append_sorted a d func l =
        (case final None us of
           None \<Rightarrow> do { l2 \<leftarrow> set_prev r (Some a) (unlinked a d l); l3 \<leftarrow> set_next a (Some r) l2; Some (l3\<lparr>wl_head := Some a\<rparr>) }
         | Some q \<Rightarrow> link_between a q r (unlinked a d l))"
        using u h tail ft False skip by simp
      then show ?thesis using unlinked_head [of l r dr ws a d] unlinked_between [of l _ _ _ r dr ws a d] ok a xs ws
        by (cases us rule: rev_cases) auto
    qed
  qed
qed

lemma remove_frame_eq:
  assumes ok: "wl_ok l (xs @ (a, d) # ys)"
  shows "wmem_list_remove_frame a l =
    Some \<lparr>wl_count = wl_count l - 1, wl_head = first (xs @ ys) None, wl_tail = final None (xs @ ys),
      wl_frames = (\<lambda>x. if x = a then None else map_option (\<lambda>f. f
        \<lparr>fr_next := if final None xs = Some x then first ys None else fr_next f,
         fr_prev := if first ys None = Some x then final None xs else fr_prev f\<rparr>) (wl_frames l x))\<rparr>"
proof -
  have fa: "wl_frames l a = Some \<lparr>fr_next = first ys None, fr_prev = final None xs, fr_data = d\<rparr>"
    by (rule wl_ok_at [OF ok])
  have ends: "wl_head l = first xs (Some a)" "wl_tail l = final (Some a) ys" using ok by (simp_all add: wl_ok_def)
  have new: "a \<notin> fst ` set (xs @ ys)" "fst ` set xs \<inter> fst ` set ys = {}" using ok by (auto simp: wl_ok_def)
  have x: "xs = [] \<or> (\<exists>us q dq. xs = us @ [(q, dq)])" by (cases xs rule: rev_cases) auto
  have y: "ys = [] \<or> (\<exists>r dr vs. ys = (r, dr) # vs)" by (cases ys) auto
  from x y consider "xs = []" "ys = []" | r dr vs where "xs = []" "ys = (r, dr) # vs"
    | us q dq where "xs = us @ [(q, dq)]" "ys = []" | us q dq r dr vs where "xs = us @ [(q, dq)]" "ys = (r, dr) # vs"
    by blast
  then show ?thesis
  proof cases
    case 1
    with fa ends show ?thesis
      by (auto simp: wmem_list_remove_frame_def option.map_ident fun_eq_iff intro!: wmem_list.equality)
  next
    case 2
    then have "wl_frames l r = Some \<lparr>fr_next = first vs None, fr_prev = Some a, fr_data = dr\<rparr>" "r \<noteq> a"
      using wl_ok_at [of l "[(a, d)]" r dr vs] ok new by auto
    with fa ends 2 show ?thesis
      by (auto simp: wmem_list_remove_frame_def set_prev_def option.map_ident fun_eq_iff intro!: wmem_list.equality)
  next
    case 3
    then have "wl_frames l q = Some \<lparr>fr_next = Some a, fr_prev = final None us, fr_data = dq\<rparr>" "q \<noteq> a"
      using wl_ok_at [of l us q dq "[(a, d)]"] ok new by auto
    with fa ends 3 show ?thesis
      by (cases us) (auto simp: wmem_list_remove_frame_def set_next_def option.map_ident fun_eq_iff intro!: wmem_list.equality)
  next
    case 4
    then have "wl_frames l q = Some \<lparr>fr_next = Some a, fr_prev = final None us, fr_data = dq\<rparr>" "q \<noteq> a"
      "wl_frames l r = Some \<lparr>fr_next = first vs None, fr_prev = Some a, fr_data = dr\<rparr>" "r \<noteq> a" "q \<noteq> r"
      using wl_ok_at [of l us q dq "(a, d) # ys"] wl_ok_at [of l "us @ [(q, dq), (a, d)]" r dr vs] ok new by auto
    with fa ends 4 show ?thesis
      by (cases us) (auto simp: wmem_list_remove_frame_def set_next_def set_prev_def option.map_ident fun_eq_iff
          intro!: wmem_list.equality)
  qed
qed

lemma remove_frame_ok:
  assumes ok: "wl_ok l (xs @ (a, d) # ys)"
  shows "\<exists>l'. wmem_list_remove_frame a l = Some l' \<and> wl_ok l' (xs @ ys)"
proof -
  define H where "H = (\<lambda>x. if x = a then None else map_option (\<lambda>f. f
        \<lparr>fr_next := if final None xs = Some x then first ys None else fr_next f,
         fr_prev := if first ys None = Some x then final None xs else fr_prev f\<rparr>) (wl_frames l x))"
  let ?l = "\<lparr>wl_count = wl_count l - 1, wl_head = first (xs @ ys) None, wl_tail = final None (xs @ ys), wl_frames = H\<rparr>"
  have new: "a \<notin> fst ` set (xs @ ys)" using ok by (auto simp: wl_ok_def)
  have "wl_ok ?l (xs @ ys)"
  proof (rule wl_ok_delete [OF ok])
    show "relinked (wl_frames l) (wl_frames ?l) xs ys (first ys None) (final None xs)"
      using new unfolding relinked_def H_def by auto
    show "dom (wl_frames ?l) = dom (wl_frames l) - {a}" by (auto simp: H_def dom_def split: if_splits)
  qed simp_all
  moreover have "wmem_list_remove_frame a l = Some ?l"
    using remove_frame_eq [OF ok] unfolding H_def .
  ultimately show ?thesis by blast
qed

lemma foreach_data: "links (wl_frames l) pv xs None \<Longrightarrow> wmem_list_foreach l (first xs None) = Some (map snd xs)"
proof (induction "wl_frames l" pv xs "None :: nat option" rule: links.induct)
  case (1 pv)
  then show ?case by (simp add: wmem_list_foreach.simps)
next
  case (2 pv a d xs)
  then show ?case by (subst wmem_list_foreach.simps) auto
qed

lemma destroy_frames_result:
  "links (wl_frames l) pv xs None \<Longrightarrow> distinct (map fst xs) \<Longrightarrow>
    destroy_frames (first xs None) l = Some (l\<lparr>wl_frames := wl_frames l |` (- fst ` set xs)\<rparr>)"
proof (induction xs arbitrary: l pv)
  case Nil
  then show ?case by (simp add: destroy_frames.simps)
next
  case (Cons x xs)
  obtain a d where x: "x = (a, d)" by force
  let ?l = "l\<lparr>wl_frames := (wl_frames l)(a := None)\<rparr>"
  have "links (wl_frames ?l) (Some a) xs None"
    by (rule links_cong [of "wl_frames l"]) (use Cons.prems x in auto)
  from Cons.IH [OF this] Cons.prems x
  have "destroy_frames (first xs None) ?l = Some (l\<lparr>wl_frames := wl_frames l |` (- fst ` set (x # xs))\<rparr>)"
    by (auto simp: restrict_map_def fun_upd_def fun_eq_iff intro!: wmem_list.equality)
  with Cons.prems x show ?case by (subst destroy_frames.simps) simp
qed

section \<open>Refinement\<close>

text \<open>
  The calls a client can make, with the address of the new frame, and what they mean for the list
  of the data; \<open>None\<close> is the failed assertion of a pop from an empty list.
\<close>

datatype 'd list_call = Prepend nat 'd | Append nat 'd | Insert_Sorted nat 'd | Append_Sorted nat 'd | Remove 'd | Pop

fun call_list :: "'d cmp \<Rightarrow> 'd list_call \<Rightarrow> 'd wmem_list \<Rightarrow> 'd wmem_list option" where
  "call_list func (Prepend a d) l = wmem_list_prepend a d l"
| "call_list func (Append a d) l = wmem_list_append a d l"
| "call_list func (Insert_Sorted a d) l = wmem_list_insert_sorted a d func l"
| "call_list func (Append_Sorted a d) l = wmem_list_append_sorted a d func l"
| "call_list func (Remove d) l = wmem_list_remove d l"
| "call_list func Pop l = map_option snd (wmem_stack_pop l)"

fun new_address :: "'d list_call \<Rightarrow> nat option" where
  "new_address (Prepend a d) = Some a"
| "new_address (Append a d) = Some a"
| "new_address (Insert_Sorted a d) = Some a"
| "new_address (Append_Sorted a d) = Some a"
| "new_address _ = None"

definition fresh_call :: "'d list_call \<Rightarrow> 'd wmem_list \<Rightarrow> bool" where
  "fresh_call c l \<longleftrightarrow> (case new_address c of None \<Rightarrow> True | Some a \<Rightarrow> wl_frames l a = None)"

definition insert_up :: "'d cmp \<Rightarrow> 'd \<Rightarrow> 'd list \<Rightarrow> 'd list" where
  "insert_up func d ds = (case ds of [] \<Rightarrow> [d] | x # zs \<Rightarrow>
     if func x d \<ge> 0 then d # ds else x # takeWhile (\<lambda>y. func y d \<le> 0) zs @ d # dropWhile (\<lambda>y. func y d \<le> 0) zs)"

definition insert_back :: "'d cmp \<Rightarrow> 'd \<Rightarrow> 'd list \<Rightarrow> 'd list" where
  "insert_back func d ds = (case rev ds of [] \<Rightarrow> [d] | x # zs \<Rightarrow>
     if func x d \<le> 0 then ds @ [d]
     else rev (dropWhile (\<lambda>y. func y d \<ge> 0) zs) @ d # rev (takeWhile (\<lambda>y. func y d \<ge> 0) zs) @ [x])"

fun call_spec :: "'d cmp \<Rightarrow> 'd list_call \<Rightarrow> 'd list \<Rightarrow> 'd list option" where
  "call_spec func (Prepend a d) ds = Some (d # ds)"
| "call_spec func (Append a d) ds = Some (ds @ [d])"
| "call_spec func (Insert_Sorted a d) ds = Some (insert_up func d ds)"
| "call_spec func (Append_Sorted a d) ds = Some (insert_back func d ds)"
| "call_spec func (Remove d) ds = Some (remove1 d ds)"
| "call_spec func Pop ds = (case ds of [] \<Rightarrow> None | x # zs \<Rightarrow> Some zs)"

text \<open>The lists that a client can make with the calls in \<open>allowed\<close>.\<close>

inductive reachable :: "('d list_call \<Rightarrow> bool) \<Rightarrow> 'd cmp \<Rightarrow> 'd wmem_list \<Rightarrow> bool" for allowed func where
  reachable_new: "reachable allowed func wmem_list_new"
| reachable_call: "reachable allowed func l \<Longrightarrow> allowed c \<Longrightarrow> fresh_call c l \<Longrightarrow> call_list func c l = Some l' \<Longrightarrow>
    reachable allowed func l'"

lemma map_insert_split:
  "insert_split d func xs = (us, vs) \<Longrightarrow> map snd us @ d # map snd vs = insert_up func d (map snd xs)"
  by (auto simp: insert_split_def insert_up_def takeWhile_map dropWhile_map o_def split: list.splits if_splits)

lemma map_append_split:
  "append_split d func xs = (us, vs) \<Longrightarrow> map snd us @ d # map snd vs = insert_back func d (map snd xs)"
  by (auto simp: append_split_def insert_back_def takeWhile_map dropWhile_map o_def rev_map split: list.splits if_splits)

lemma find_split: "(\<And>y. y \<in> set us \<Longrightarrow> \<not> P y) \<Longrightarrow> P x \<Longrightarrow> List.find P (us @ x # vs) = Some x"
  by (induction us) auto

lemma remove_ok:
  assumes ok: "wl_ok l xs"
  shows "\<exists>l' xs'. wmem_list_remove d l = Some l' \<and> wl_ok l' xs' \<and> map snd xs' = remove1 d (map snd xs)"
proof -
  have scan: "list_scan (\<lambda>x. x = d) l (wl_head l) = Some (map_option fst (List.find (\<lambda>x. snd x = d) xs))"
    using list_scan_find [of l None xs "\<lambda>x. x = d"] ok by (simp add: wl_ok_def)
  show ?thesis
  proof (cases "d \<in> snd ` set xs")
    case False
    then have "List.find (\<lambda>x. snd x = d) xs = None" unfolding find_None_iff by (metis image_eqI)
    with scan have "wmem_list_remove d l = Some l" by (simp add: wmem_list_remove_def)
    moreover have "remove1 d (map snd xs) = map snd xs" using False by (intro remove1_idem) simp
    ultimately show ?thesis using ok by metis
  next
    case True
    then have "\<exists>x\<in>set xs. snd x = d" by (metis imageE)
    from split_list_first_prop [OF this] obtain us x vs where xs: "xs = us @ x # vs" "snd x = d" "\<forall>y\<in>set us. snd y \<noteq> d"
      by blast
    obtain a where x: "x = (a, d)" using xs(2) by (cases x) auto
    have "List.find (\<lambda>x. snd x = d) xs = Some x" unfolding xs(1) using xs(2,3) by (intro find_split) auto
    with scan x have "wmem_list_remove d l = wmem_list_remove_frame a l" by (simp add: wmem_list_remove_def)
    moreover have "d \<notin> set (map snd us)" using xs(3) by auto
    then have "remove1 d (map snd xs) = map snd (us @ vs)" unfolding xs(1) using xs(2) by (simp add: remove1_append)
    moreover obtain l' where "wmem_list_remove_frame a l = Some l'" "wl_ok l' (us @ vs)"
      using remove_frame_ok [of l us a d vs] ok xs(1) x by blast
    ultimately show ?thesis by (intro exI [of _ l'] exI [of _ "us @ vs"]) simp
  qed
qed

lemma pop_ok:
  assumes ok: "wl_ok l xs"
  shows "case map snd xs of [] \<Rightarrow> wmem_stack_pop l = None
    | d # ds \<Rightarrow> \<exists>l' xs'. wmem_stack_pop l = Some (d, l') \<and> wl_ok l' xs' \<and> map snd xs' = ds"
proof (cases xs)
  case Nil
  with ok show ?thesis by (simp add: wmem_stack_pop_def wmem_stack_peek_def wl_ok_def)
next
  case (Cons x zs)
  with ok have "wmem_stack_peek l = Some (snd x)"
    by (cases x) (simp add: wmem_stack_peek_def wl_ok_def)
  moreover from remove_ok [OF ok, of "snd x"] Cons obtain l' xs' where
    "wmem_list_remove (snd x) l = Some l'" "wl_ok l' xs'" "map snd xs' = map snd zs" by auto
  ultimately show ?thesis using Cons by (auto simp: wmem_stack_pop_def)
qed

lemma call_simulation:
  assumes ok: "wl_ok l xs" and fresh: "fresh_call c l"
  shows "case call_spec func c (map snd xs) of None \<Rightarrow> call_list func c l = None
    | Some ds \<Rightarrow> \<exists>l' xs'. call_list func c l = Some l' \<and> wl_ok l' xs' \<and> map snd xs' = ds"
proof (cases c)
  case (Prepend a d)
  with fresh have "wl_frames l a = None" by (simp add: fresh_call_def)
  with prepend_spliced [OF ok this, of d] wl_ok_spliced [of l "[]" xs a d] ok Prepend show ?thesis by auto
next
  case (Append a d)
  with fresh have "wl_frames l a = None" by (simp add: fresh_call_def)
  with append_spliced [OF ok this, of d] wl_ok_spliced [of l xs "[]" a d] ok Append show ?thesis by auto
next
  case (Insert_Sorted a d)
  obtain us vs where sp: "insert_split d func xs = (us, vs)" by force
  from Insert_Sorted fresh have a: "wl_frames l a = None" by (simp add: fresh_call_def)
  note i = insert_sorted_spliced [OF ok a sp]
  from wl_ok_spliced [of l us vs a d] ok a i map_insert_split [OF sp] Insert_Sorted show ?thesis by force
next
  case (Append_Sorted a d)
  obtain us vs where sp: "append_split d func xs = (us, vs)" by force
  from Append_Sorted fresh have a: "wl_frames l a = None" by (simp add: fresh_call_def)
  note i = append_sorted_spliced [OF ok a sp]
  from wl_ok_spliced [of l us vs a d] ok a i map_append_split [OF sp] Append_Sorted show ?thesis by force
next
  case (Remove d)
  with remove_ok [OF ok, of d] show ?thesis by simp
next
  case Pop
  with pop_ok [OF ok] show ?thesis by (auto split: list.splits)
qed

lemma reachable_ok: "reachable allowed func l \<Longrightarrow> \<exists>xs. wl_ok l xs"
proof (induction rule: reachable.induct)
  case reachable_new
  have "wl_ok wmem_list_new []" by (simp add: wmem_list_new_def wl_ok_def)
  then show ?case ..
next
  case (reachable_call l c l')
  then obtain xs where "wl_ok l xs" by blast
  from call_simulation [OF this reachable_call.hyps(3), of func] reachable_call.hyps(4) show ?case
    by (auto split: option.splits)
qed

lemma wl_ok_foreach: "wl_ok l xs \<Longrightarrow> wmem_list_foreach l (wl_head l) = Some (map snd xs)"
  using foreach_data [of l None xs] by (simp add: wl_ok_def)


definition int_cmp :: "int cmp" where "int_cmp x y = x - y"

lemma reachable_two:
  "reachable (\<lambda>_. True) int_cmp \<lparr>wl_count = 1, wl_head = Some 8, wl_tail = Some 8,
     wl_frames = [8 \<mapsto> \<lparr>fr_next = None, fr_prev = None, fr_data = 5\<rparr>]\<rparr>"
proof (rule reachable_call [OF reachable_new])
  show "call_list int_cmp (Prepend 8 5) wmem_list_new = Some \<lparr>wl_count = 1, wl_head = Some 8, wl_tail = Some 8,
     wl_frames = [8 \<mapsto> \<lparr>fr_next = None, fr_prev = None, fr_data = 5\<rparr>]\<rparr>"
    by (simp add: wmem_list_new_def wmem_list_prepend_def new_frame_def)
qed (simp_all add: fresh_call_def wmem_list_new_def)


section \<open>Sorted lists\<close>

abbreviation (input) in_order :: "'d cmp \<Rightarrow> 'd list \<Rightarrow> bool" where
  "in_order func \<equiv> sorted_wrt (\<lambda>x y. func x y \<le> 0)"

lemma key_order_trans: "key_order cmp \<Longrightarrow> cmp x y \<le> 0 \<Longrightarrow> cmp y z \<le> 0 \<Longrightarrow> cmp x z \<le> 0"
  unfolding key_order_def by blast

lemma key_order_le_iff: "key_order cmp \<Longrightarrow> cmp x y \<le> 0 \<longleftrightarrow> cmp y x \<ge> 0"
  using key_order_flip [of cmp x y] key_order_flip [of cmp y x] by linarith

text \<open>Joining two ordered lists around an element.\<close>

lemma in_order_join:
  assumes o: "key_order func" and "in_order func us" "in_order func vs"
    and le: "\<And>x. x \<in> set us \<Longrightarrow> func x d \<le> 0" and ge: "\<And>y. y \<in> set vs \<Longrightarrow> func d y \<le> 0"
  shows "in_order func (us @ d # vs)"
proof -
  have "func x y \<le> 0" if "x \<in> set us" "y \<in> set vs" for x y
    by (rule key_order_trans [OF o le [OF that(1)] ge [OF that(2)]])
  with assms(2,3) le ge show ?thesis by (simp add: sorted_wrt_append)
qed

lemma dropWhile_ordered:
  assumes "key_order func" "in_order func zs" "y \<in> set (dropWhile (\<lambda>y. func y d \<le> 0) zs)"
  shows "func d y \<le> 0"
  using assms(2,3)
proof (induction zs)
  case (Cons z zs)
  show ?case
  proof (cases "func z d \<le> 0")
    case False
    then have dz: "func d z \<le> 0" using key_order_le_iff [OF assms(1), of d z] by simp
    from False Cons.prems have "y = z \<or> y \<in> set zs" by auto
    then show ?thesis
    proof
      assume "y \<in> set zs"
      then have "func z y \<le> 0" using Cons.prems(1) by simp
      with dz show ?thesis by (rule key_order_trans [OF assms(1)])
    qed (use dz in simp)
  qed (use Cons in simp)
qed simp

lemma insert_up_ordered:
  assumes o: "key_order func" and s: "in_order func ds"
  shows "in_order func (insert_up func d ds)"
proof (cases ds)
  case (Cons x zs)
  show ?thesis
  proof (cases "func x d \<ge> 0")
    case True
    then have "func d x \<le> 0" using key_order_le_iff [OF o, of d x] by simp
    then have "func d y \<le> 0" if "y \<in> set ds" for y
      using that s Cons key_order_trans [OF o, of d x y] by auto
    with True s Cons in_order_join [OF o, of "[]" ds d] show ?thesis by (simp add: insert_up_def)
  next
    case False
    let ?c = "\<lambda>y. func y d \<le> 0"
    have zs: "in_order func zs" "\<And>y. y \<in> set zs \<Longrightarrow> func x y \<le> 0" using s Cons by auto
    have "in_order func (takeWhile ?c zs)" "in_order func (dropWhile ?c zs)"
      using zs(1) by (metis sorted_wrt_append takeWhile_dropWhile_id)+
    then have "in_order func ((x # takeWhile ?c zs) @ d # dropWhile ?c zs)"
    proof (intro in_order_join [OF o])
      show "func y d \<le> 0" if "y \<in> set (x # takeWhile ?c zs)" for y
        using that False by (auto dest: set_takeWhileD)
      show "func d y \<le> 0" if "y \<in> set (dropWhile ?c zs)" for y
        using that by (rule dropWhile_ordered [OF o zs(1)])
    qed (use zs(2) in \<open>auto dest: set_takeWhileD\<close>)
    with False Cons show ?thesis by (simp add: insert_up_def)
  qed
qed (simp add: insert_up_def)

text \<open>Searching from the end is searching the reversed list with the reversed comparison.\<close>

lemma insert_back_rev: "insert_back func d ds = rev (insert_up (\<lambda>x y. - func x y) d (rev ds))"
  by (auto simp: insert_back_def insert_up_def split: list.splits)

lemma key_order_neg: "key_order func \<Longrightarrow> key_order (\<lambda>x y. - func x y)"
proof -
  assume o: "key_order func"
  have "- func x z \<le> 0" if "- func x y \<le> 0" "- func y z \<le> 0" for x y z
  proof -
    have "func y x \<le> 0" "func z y \<le> 0" using that key_order_le_iff [OF o, of y x] key_order_le_iff [OF o, of z y] by simp_all
    then have "func z x \<le> 0" using key_order_trans [OF o, of z y x] by simp
    then show ?thesis using key_order_le_iff [OF o, of z x] by simp
  qed
  moreover have "sgn (func x y) = - sgn (func y x)" for x y using o unfolding key_order_def by (elim conjE allE)
  ultimately show ?thesis unfolding key_order_def sgn_minus by (metis (no_types, lifting))
qed

lemma in_order_rev:
  assumes o: "key_order func"
  shows "in_order (\<lambda>x y. - func x y) (rev ds) \<longleftrightarrow> in_order func ds"
proof -
  have "- func y x \<le> 0 \<longleftrightarrow> func x y \<le> 0" for x y using key_order_le_iff [OF o, of x y] by simp
  then show ?thesis by (simp add: sorted_wrt_rev)
qed

lemma insert_back_ordered:
  assumes o: "key_order func" and s: "in_order func ds"
  shows "in_order func (insert_back func d ds)"
proof -
  have "in_order (\<lambda>x y. - func x y) (insert_up (\<lambda>x y. - func x y) d (rev ds))"
    using insert_up_ordered [OF key_order_neg [OF o]] in_order_rev [OF o] s by blast
  then show ?thesis unfolding insert_back_rev by (simp flip: in_order_rev [OF o])
qed

definition sorted_call :: "'d list_call \<Rightarrow> bool" where
  "sorted_call c \<longleftrightarrow> (case c of Prepend _ _ \<Rightarrow> False | Append _ _ \<Rightarrow> False | _ \<Rightarrow> True)"

lemma sorted_wrt_remove1: "sorted_wrt P xs \<Longrightarrow> sorted_wrt P (remove1 x xs)"
proof (induction xs)
  case (Cons y ys)
  then show ?case using set_remove1_subset [of x ys] by auto
qed simp

lemma sorted_call_spec:
  assumes "key_order func" "sorted_call c" "in_order func ds" "call_spec func c ds = Some ds'"
  shows "in_order func ds'"
proof (cases c)
  case (Insert_Sorted a d)
  with assms insert_up_ordered show ?thesis by fastforce
next
  case (Append_Sorted a d)
  with assms insert_back_ordered show ?thesis by fastforce
next
  case (Remove d)
  with assms show ?thesis by (auto simp: sorted_wrt_remove1)
next
  case Pop
  with assms show ?thesis by (auto split: list.splits)
qed (use assms in \<open>auto simp: sorted_call_def\<close>)

text \<open>
  C27: A list that is only ever filled with \<^verbatim>\<open>wmem_list_insert_sorted()\<close> and
  \<^verbatim>\<open>wmem_list_append_sorted()\<close>, in any mixture and with any removals in between, is in order,
  for every comparison function that is an order.
\<close>

theorem wmem_list_stays_sorted:
  assumes "key_order func" and "reachable sorted_call func l"
  shows "\<exists>ds. wmem_list_foreach l (wl_head l) = Some ds \<and> in_order func ds"
proof -
  have "\<exists>xs. wl_ok l xs \<and> in_order func (map snd xs)"
    using assms(2)
  proof (induction rule: reachable.induct)
    case reachable_new
    have "wl_ok wmem_list_new []" by (simp add: wmem_list_new_def wl_ok_def)
    then show ?case by (intro exI [of _ "[]"]) simp
  next
    case (reachable_call l c l')
    then obtain xs where xs: "wl_ok l xs" "in_order func (map snd xs)" by blast
    from call_simulation [OF xs(1) reachable_call.hyps(3), of func] reachable_call.hyps(4)
    obtain ds xs' where "call_spec func c (map snd xs) = Some ds" "wl_ok l' xs'" "map snd xs' = ds"
      by (auto split: option.splits)
    with sorted_call_spec [OF assms(1) reachable_call.hyps(2) xs(2)] show ?case by blast
  qed
  then show ?thesis using wl_ok_foreach by blast
qed

theorem wmem_list_stays_sorted_witness:
  "\<exists>ds. wmem_list_foreach (the (wmem_list_insert_sorted 8 5 int_cmp wmem_list_new)) (Some 8) = Some ds \<and> in_order int_cmp ds"
proof -
  have o: "key_order int_cmp" by (auto simp: key_order_def int_cmp_def sgn_if)
  let ?l = "\<lparr>wl_count = 1, wl_head = Some 8, wl_tail = Some 8,
     wl_frames = [8 \<mapsto> \<lparr>fr_next = None, fr_prev = None, fr_data = 5\<rparr>]\<rparr> :: int wmem_list"
  have l: "wmem_list_insert_sorted 8 5 int_cmp wmem_list_new = Some ?l"
    by (simp add: wmem_list_new_def wmem_list_insert_sorted_def new_frame_def)
  have "reachable sorted_call int_cmp ?l"
    by (rule reachable_call [OF reachable_new, of _ "Insert_Sorted 8 5"])
      (simp_all add: fresh_call_def sorted_call_def l, simp add: wmem_list_new_def)
  from wmem_list_stays_sorted [OF o this] show ?thesis by (simp add: l)
qed

end
