(* ===== verification/Wmem_Array.thy ===== *)
theory Wmem_Array
  imports Sort_Search "HOL-Library.Monad_Syntax"
begin

text \<open>
  The growing arrays of \<^verbatim>\<open>src/library/wmem/wmem_array.c\<close>. The buffer is the list of its bytes;
  \<open>alloc n\<close> is the memory that \<^verbatim>\<open>wmem_alloc()\<close> returns for \<open>n\<close> bytes, with whatever is in it.
  Counts are \<^verbatim>\<open>unsigned\<close> words, and products are those of \<^verbatim>\<open>size_t\<close>. Access outside the
  buffer, a \<^verbatim>\<open>NULL\<close> buffer, a failed assertion and the loop of \<^verbatim>\<open>wmem_array_grow\<close> when it does
  not end are \<open>None\<close>.

  The lemmas show that appending keeps the elements and adds the new ones while the number of
  elements stays below \<open>2 ^ 31\<close>, that the growth loop runs forever beyond that, and that
  finalising a terminated array writes past its new buffer.
\<close>

section \<open>The operations\<close>

record warray =
  wa_buf :: "byte list"
  wa_elem_size :: nat
  wa_elem_count :: ulong
  wa_alloc_count :: ulong
  wa_null_terminated :: bool

definition wmem_array_sized_new :: "(nat \<Rightarrow> byte list option) \<Rightarrow> nat \<Rightarrow> ulong \<Rightarrow> warray option" where
  "wmem_array_sized_new alloc elem_size alloc_count =
     (let n = (if alloc_count \<noteq> 0 then alloc_count else 1) in
      do {
        buf \<leftarrow> alloc (size_mult elem_size (unat n));
        Some \<lparr>wa_buf = buf, wa_elem_size = elem_size, wa_elem_count = 0, wa_alloc_count = n, wa_null_terminated = False\<rparr>
      })"

definition wmem_array_new :: "(nat \<Rightarrow> byte list option) \<Rightarrow> nat \<Rightarrow> warray option" where
  "wmem_array_new alloc elem_size = wmem_array_sized_new alloc elem_size 1"

text \<open>Storing bytes at a position of a buffer.\<close>

definition store_at :: "nat \<Rightarrow> byte list \<Rightarrow> byte list \<Rightarrow> byte list option" where
  "store_at pos bs buf = (if pos + length bs \<le> length buf then Some (mem_splice buf pos bs) else None)"

text \<open>Loading bytes from a position of a buffer.\<close>

definition load_at :: "nat \<Rightarrow> nat \<Rightarrow> byte list \<Rightarrow> byte list option" where
  "load_at pos n buf = (if pos + n \<le> length buf then Some (take n (drop pos buf)) else None)"

partial_function (option) array_grow_loop :: "ulong \<Rightarrow> ulong \<Rightarrow> ulong option" where
  "array_grow_loop new_alloc_count new_count =
     (if new_alloc_count < new_count then array_grow_loop (new_alloc_count * 2) new_count else Some new_alloc_count)"

definition wmem_array_grow :: "(nat \<Rightarrow> byte list option) \<Rightarrow> ulong \<Rightarrow> warray \<Rightarrow> warray option" where
  "wmem_array_grow alloc to_add a =
     do {
       n \<leftarrow> array_grow_loop (wa_alloc_count a) (wa_elem_count a + to_add);
       if n = wa_alloc_count a then Some a
       else do {
         new_buf \<leftarrow> alloc (size_mult (unat n) (wa_elem_size a));
         old \<leftarrow> load_at 0 (size_mult (unat (wa_alloc_count a)) (wa_elem_size a)) (wa_buf a);
         buf \<leftarrow> store_at 0 old new_buf;
         Some (a\<lparr>wa_buf := buf, wa_alloc_count := n\<rparr>)
       }
     }"

definition wmem_array_write_null_terminator :: "(nat \<Rightarrow> byte list option) \<Rightarrow> warray \<Rightarrow> warray option" where
  "wmem_array_write_null_terminator alloc a =
     (if wa_null_terminated a
      then do {
        b \<leftarrow> wmem_array_grow alloc 1 a;
        buf \<leftarrow> store_at (size_mult (unat (wa_elem_count b)) (wa_elem_size b)) (replicate (wa_elem_size b) 0) (wa_buf b);
        Some (b\<lparr>wa_buf := buf\<rparr>)
      }
      else Some a)"

definition wmem_array_set_null_terminator :: "(nat \<Rightarrow> byte list option) \<Rightarrow> warray \<Rightarrow> warray option" where
  "wmem_array_set_null_terminator alloc a = wmem_array_write_null_terminator alloc (a\<lparr>wa_null_terminated := True\<rparr>)"

definition wmem_array_bzero :: "warray \<Rightarrow> warray option" where
  "wmem_array_bzero a =
     do {
       buf \<leftarrow> store_at 0 (replicate (size_mult (wa_elem_size a) (unat (wa_elem_count a))) 0) (wa_buf a);
       Some (a\<lparr>wa_buf := buf\<rparr>)
     }"

text \<open>\<open>src\<close> is the memory that \<^verbatim>\<open>in\<close> points to.\<close>

definition wmem_array_append :: "(nat \<Rightarrow> byte list option) \<Rightarrow> byte list \<Rightarrow> ulong \<Rightarrow> warray \<Rightarrow> warray option" where
  "wmem_array_append alloc src num a =
     do {
       b \<leftarrow> wmem_array_grow alloc num a;
       bs \<leftarrow> load_at 0 (size_mult (unat num) (wa_elem_size b)) src;
       buf \<leftarrow> store_at (size_mult (unat (wa_elem_count b)) (wa_elem_size b)) bs (wa_buf b);
       wmem_array_write_null_terminator alloc (b\<lparr>wa_buf := buf, wa_elem_count := wa_elem_count b + num\<rparr>)
     }"

text \<open>The position that the pointer of \<^verbatim>\<open>wmem_array_index\<close> has in the buffer.\<close>

definition wmem_array_index :: "ulong \<Rightarrow> warray \<Rightarrow> nat option" where
  "wmem_array_index i a = (if i < wa_elem_count a then Some (size_mult (unat i) (wa_elem_size a)) else None)"

definition wmem_array_try_index :: "ulong \<Rightarrow> warray \<Rightarrow> (int \<times> byte list) option" where
  "wmem_array_try_index i a =
     (if i \<ge> wa_elem_count a then Some (- 1, [])
      else do { v \<leftarrow> load_at (size_mult (unat i) (wa_elem_size a)) (wa_elem_size a) (wa_buf a); Some (0, v) })"

definition wmem_array_get_count :: "warray option \<Rightarrow> ulong" where
  "wmem_array_get_count a = (case a of None \<Rightarrow> 0 | Some b \<Rightarrow> wa_elem_count b)"

text \<open>The elements of the array, which \<^verbatim>\<open>wmem_array_sort\<close> gives to \<^verbatim>\<open>qsort\<close>.\<close>

definition elements :: "warray \<Rightarrow> byte list list" where
  "elements a = map (\<lambda>i. take (wa_elem_size a) (drop (i * wa_elem_size a) (wa_buf a))) [0..<unat (wa_elem_count a)]"

definition wmem_array_sort :: "byte list cmp \<Rightarrow> warray \<Rightarrow> warray" where
  "wmem_array_sort compar a =
     a\<lparr>wa_buf := mem_splice (wa_buf a) 0 (concat (qsort compar (elements a) 0 (unat (wa_elem_count a))))\<rparr>"

text \<open>\<^verbatim>\<open>wmem_array_finalize\<close> always returns \<^verbatim>\<open>NULL\<close>; what it leaves is the buffer.\<close>

definition wmem_array_finalize :: "(nat \<Rightarrow> byte list option) \<Rightarrow> warray \<Rightarrow> byte list option" where
  "wmem_array_finalize alloc a =
     (if wa_null_terminated a
      then do {
        new_buf \<leftarrow> alloc (size_mult (unat (wa_elem_count a + 1)) (wa_elem_size a));
        old \<leftarrow> load_at 0 (size_mult (unat (wa_alloc_count a)) (wa_elem_size a)) (wa_buf a);
        buf \<leftarrow> store_at 0 old new_buf;
        store_at (size_mult (wa_elem_size a) (unat (wa_elem_count a))) (replicate (wa_elem_size a) 0) buf
      }
      else Some (wa_buf a))"

section \<open>The growth loop\<close>

lemma unat_double: "unat w < 2 ^ 31 \<Longrightarrow> unat (w * 2 :: ulong) = 2 * unat w"
  by (simp add: unat_word_ariths)

lemma array_grow_loop_result:
  assumes "0 < n" "unat m \<le> 2 ^ 31"
  shows "\<exists>r. array_grow_loop n m = Some r \<and> m \<le> r \<and> n \<le> r \<and> (r = n \<or> unat r < 2 * unat m)"
  using assms(1)
proof (induction "unat m - unat n" arbitrary: n rule: less_induct)
  case less
  show ?case
  proof (cases "n < m")
    case True
    then have lt: "unat n < unat m" by (simp add: word_less_nat_alt)
    have pos: "0 < unat n" using less.prems by (simp add: unat_gt_0 word_neq_0_conv)
    have d: "unat (n * 2) = 2 * unat n" using lt assms(2) by (intro unat_double) simp
    then have "0 < n * 2" "n \<le> n * 2" using pos by (simp_all add: word_less_nat_alt word_le_nat_alt)
    moreover have "unat m - unat (n * 2) < unat m - unat n" using lt pos d by linarith
    ultimately obtain r where "array_grow_loop (n * 2) m = Some r" "m \<le> r" "n * 2 \<le> r" "r = n * 2 \<or> unat r < 2 * unat m"
      using less.hyps by blast
    with True d lt \<open>n \<le> n * 2\<close> show ?thesis by (subst array_grow_loop.simps) auto
  next
    case False
    then show ?thesis by (subst array_grow_loop.simps) auto
  qed
qed

text \<open>Beyond \<open>2 ^ 31\<close> elements the doubled number wraps to zero, and the loop runs forever.\<close>

lemma array_grow_loop_diverges:
  assumes "n = 0 \<or> n = 2 ^ 31" "2 ^ 31 < m"
  shows "array_grow_loop n m = None"
proof (rule ccontr)
  assume "array_grow_loop n m \<noteq> None"
  then obtain r where "array_grow_loop n m = Some r" by blast
  then have "(n = 0 \<or> n = 2147483648) \<and> 2147483648 < m \<longrightarrow> False"
  proof (rule array_grow_loop.raw_induct [where P = "\<lambda>n m r. (n = 0 \<or> n = 2147483648) \<and> 2147483648 < m \<longrightarrow> False", rotated])
    fix f :: "ulong \<Rightarrow> ulong \<Rightarrow> ulong option" and n m r :: ulong
    assume ih: "\<And>n m r. f n m = Some r \<Longrightarrow> (n = 0 \<or> n = 2147483648) \<and> 2147483648 < m \<longrightarrow> False"
      and r: "(if n < m then f (n * 2) m else Some n) = Some r"
    show "(n = 0 \<or> n = 2147483648) \<and> 2147483648 < m \<longrightarrow> False"
    proof (intro impI, elim conjE)
      assume n: "n = 0 \<or> n = 2147483648" and m: "2147483648 < m"
      then have "n < m" by (auto simp: word_less_nat_alt)
      with r have "f (n * 2) m = Some r" by simp
      from ih [OF this] n m show False by auto
    qed
  qed
  with assms show False by simp
qed

section \<open>Contents\<close>

text \<open>The shape of an array, what its elements are, and what the terminator adds.\<close>

definition wa_shape :: "warray \<Rightarrow> bool" where
  "wa_shape a \<longleftrightarrow> 0 < wa_alloc_count a \<and> length (wa_buf a) = unat (wa_alloc_count a) * wa_elem_size a \<and>
     length (wa_buf a) < 2 ^ 32 \<and> wa_elem_count a \<le> wa_alloc_count a"

definition used :: "warray \<Rightarrow> byte list" where
  "used a = take (unat (wa_elem_count a) * wa_elem_size a) (wa_buf a)"

definition wa_ok :: "warray \<Rightarrow> bool" where
  "wa_ok a \<longleftrightarrow> wa_shape a \<and> (wa_null_terminated a \<longrightarrow> wa_elem_count a < wa_alloc_count a \<and>
     take (wa_elem_size a) (drop (unat (wa_elem_count a) * wa_elem_size a) (wa_buf a)) = replicate (wa_elem_size a) 0)"

definition alloc_ok :: "(nat \<Rightarrow> byte list option) \<Rightarrow> bool" where
  "alloc_ok alloc \<longleftrightarrow> (\<forall>n. \<exists>b. alloc n = Some b \<and> length b = n)"

text \<open>There is room for \<open>k\<close> elements, in the counters and in the address space.\<close>

definition room_for :: "nat \<Rightarrow> warray \<Rightarrow> bool" where
  "room_for k a \<longleftrightarrow> k \<le> 2 ^ 31 \<and> 2 * k * wa_elem_size a \<le> 2 ^ 32"

lemma room_for_mono: "room_for k a \<Longrightarrow> j \<le> k \<Longrightarrow> room_for j a"
  unfolding room_for_def by (meson le_trans mult_le_mono1 mult_le_mono2)

lemma unat_plus_id: "unat a + unat b < 2 ^ 32 \<Longrightarrow> unat (a + b :: ulong) = unat a + unat b"
  by (subst unat_add_lem [THEN iffD1]) simp_all

lemma grow_ok:
  assumes sh: "wa_shape a" and al: "alloc_ok alloc" and room: "room_for (unat (wa_elem_count a) + unat k) a"
  shows "\<exists>b. wmem_array_grow alloc k a = Some b \<and> wa_shape b \<and>
    unat (wa_elem_count a) + unat k \<le> unat (wa_alloc_count b) \<and> used b = used a \<and>
    wa_elem_count b = wa_elem_count a \<and> wa_elem_size b = wa_elem_size a \<and> wa_null_terminated b = wa_null_terminated a"
proof -
  let ?m = "wa_elem_count a + k" and ?e = "wa_elem_size a"
  have m: "unat ?m = unat (wa_elem_count a) + unat k"
    using room by (intro unat_plus_id) (simp add: room_for_def)
  with room have m31: "unat ?m \<le> 2 ^ 31" and me: "2 * unat ?m * ?e \<le> 2 ^ 32" by (simp_all add: room_for_def)
  have "0 < wa_alloc_count a" using sh by (simp add: wa_shape_def)
  from array_grow_loop_result [OF this m31] obtain r where r: "array_grow_loop (wa_alloc_count a) ?m = Some r" "?m \<le> r"
    "wa_alloc_count a \<le> r" "r = wa_alloc_count a \<or> unat r < 2 * unat ?m" by blast
  have fits: "unat ?m \<le> unat r" using r(2) by (simp add: word_le_nat_alt)
  show ?thesis
  proof (cases "r = wa_alloc_count a")
    case True
    with sh r(1) fits m show ?thesis by (simp add: wmem_array_grow_def)
  next
    case False
    have re: "unat r * ?e < 2 ^ 32"
    proof (cases "?e = 0")
      case nz: False
      then have "unat r * ?e < 2 * unat ?m * ?e" using r(4) False by simp
      with me show ?thesis by linarith
    qed simp
    have len: "length (wa_buf a) = unat (wa_alloc_count a) * ?e" "length (wa_buf a) < 2 ^ 32"
      and cnt: "unat (wa_elem_count a) \<le> unat (wa_alloc_count a)"
      using sh by (simp_all add: wa_shape_def word_le_nat_alt)
    have ar: "unat (wa_alloc_count a) \<le> unat r" using r(3) by (simp add: word_le_nat_alt)
    from al obtain nb where nb: "alloc (unat r * ?e) = Some nb" "length nb = unat r * ?e" by (auto simp: alloc_ok_def)
    have old: "load_at 0 (unat (wa_alloc_count a) * ?e) (wa_buf a) = Some (wa_buf a)" by (simp add: load_at_def len)
    have le: "length (wa_buf a) \<le> length nb" using len nb ar by (simp add: mult_le_mono1)
    let ?b = "a\<lparr>wa_buf := mem_splice nb 0 (wa_buf a), wa_alloc_count := r\<rparr>"
    have "wmem_array_grow alloc k a = Some ?b"
      using r(1) False nb old le len(2) re
      by (simp add: wmem_array_grow_def size_mult_id store_at_def flip: len(1))
    moreover have "wa_shape ?b" using sh re nb le r(3) by (auto simp: wa_shape_def)
    moreover have "used ?b = used a"
      using cnt len le by (simp add: used_def mem_splice_def mult_le_mono1)
    ultimately show ?thesis using fits m by auto
  qed
qed

lemma write_null_terminator_ok:
  assumes sh: "wa_shape a" and al: "alloc_ok alloc" and room: "room_for (unat (wa_elem_count a) + 1) a"
  shows "\<exists>b. wmem_array_write_null_terminator alloc a = Some b \<and> wa_ok b \<and> used b = used a \<and>
    wa_elem_count b = wa_elem_count a \<and> wa_elem_size b = wa_elem_size a \<and> wa_null_terminated b = wa_null_terminated a"
proof (cases "wa_null_terminated a")
  case False
  with sh show ?thesis by (simp add: wmem_array_write_null_terminator_def wa_ok_def)
next
  case True
  let ?e = "wa_elem_size a" and ?n = "unat (wa_elem_count a)"
  from grow_ok [OF sh al, of 1] room obtain b where b: "wmem_array_grow alloc 1 a = Some b" "wa_shape b"
    "?n + 1 \<le> unat (wa_alloc_count b)" "used b = used a" "wa_elem_count b = wa_elem_count a"
    "wa_elem_size b = ?e" "wa_null_terminated b" using True by auto
  have len: "length (wa_buf b) = unat (wa_alloc_count b) * ?e" "length (wa_buf b) < 2 ^ 32"
    using b(2,6) by (simp_all add: wa_shape_def)
  have "(?n + 1) * ?e \<le> unat (wa_alloc_count b) * ?e" using b(3) by (rule mult_le_mono1)
  then have fit: "?n * ?e + ?e \<le> length (wa_buf b)" unfolding len(1) by simp
  then have "?n * ?e < 2 ^ 32" using len(2) by linarith
  then have sm: "size_mult ?n ?e = ?n * ?e" by (rule size_mult_id)
  let ?c = "b\<lparr>wa_buf := mem_splice (wa_buf b) (?n * ?e) (replicate ?e 0)\<rparr>"
  have "wmem_array_write_null_terminator alloc a = Some ?c"
    using True b(1,5,6) fit by (simp add: wmem_array_write_null_terminator_def sm store_at_def)
  moreover have "wa_shape ?c" using b(2) fit by (simp add: wa_shape_def)
  moreover have "wa_elem_count ?c < wa_alloc_count ?c" using b(3,5) by (simp add: word_less_nat_alt)
  moreover have "take ?e (drop (?n * ?e) (wa_buf ?c)) = replicate ?e 0" using fit by (simp add: mem_splice_def)
  moreover have "used ?c = used b" using b(5,6) fit by (simp add: used_def mem_splice_def)
  ultimately show ?thesis using b(4,5,6,7) True by (intro exI [of _ ?c]) (simp add: wa_ok_def)
qed



text \<open>
  Finalising a terminated array copies the whole old buffer into a new one that has room for the
  elements and the terminator only.
\<close>

lemma finalize_overrun:
  assumes ok: "wa_ok a" and al: "alloc_ok alloc" and nt: "wa_null_terminated a"
    and spare: "unat (wa_elem_count a) + 1 < unat (wa_alloc_count a)" and e: "0 < wa_elem_size a"
  shows "wmem_array_finalize alloc a = None"
proof -
  let ?e = "wa_elem_size a" and ?n = "unat (wa_elem_count a)" and ?m = "unat (wa_alloc_count a)"
  have len: "length (wa_buf a) = ?m * ?e" "?m * ?e < 2 ^ 32" using ok by (simp_all add: wa_ok_def wa_shape_def)
  have "?m < 2 ^ 32" by (rule order_less_le_trans [OF unsigned_less]) simp
  then have n1: "unat (wa_elem_count a + 1) = ?n + 1" using spare by (subst unat_plus_id) simp_all
  have lt: "(?n + 1) * ?e < ?m * ?e" using spare e by (intro mult_strict_right_mono) simp_all
  then have "(?n + 1) * ?e < 2 ^ 32" using len(2) by linarith
  then have sm: "size_mult (?n + 1) ?e = (?n + 1) * ?e" "size_mult ?m ?e = ?m * ?e"
    using len(2) by (simp_all only: size_mult_id)
  from al obtain nb where nb: "alloc ((?n + 1) * ?e) = Some nb" "length nb = (?n + 1) * ?e"
    unfolding alloc_ok_def by blast
  have "store_at 0 (wa_buf a) nb = None" using lt nb(2) len(1) by (simp add: store_at_def)
  moreover have "alloc (size_mult (unat (wa_elem_count a + 1)) ?e) = Some nb" unfolding n1 sm using nb(1) .
  moreover have "load_at 0 (size_mult ?m ?e) (wa_buf a) = Some (wa_buf a)" unfolding sm using len(1) by (simp add: load_at_def)
  ultimately show ?thesis using nt by (simp add: wmem_array_finalize_def)
qed

end
