(* ===== verification/Pthread_Sync.thy ===== *)
theory Pthread_Sync
  imports Clib4_Prelude
begin

text \<open>
  Synchronisation of threads in \<^verbatim>\<open>src/library/pthread\<close>: barriers, semaphores with their condition
  variables, and \<^verbatim>\<open>pthread_once\<close> with its spin lock, as step relations over any number of
  threads. A step is what a thread does between two points where another thread can run: a section
  of code under the mutex of the object, up to the wait on its condition variable or the release of
  the mutex, or one atomic memory operation. That such a section is not interrupted is what the
  mutex is for.

  A condition variable is the list of its waiting threads and the set of those that have a signal
  pending, as in \<^verbatim>\<open>_pthread_cond_timedwait\<close> and \<^verbatim>\<open>_pthread_cond_broadcast\<close>
  (\<^verbatim>\<open>pthread.c\<close>): a thread that was signalled stays in the list until it runs again. A thread can
  also be woken by a break signal; the parameter \<open>brk\<close> of the steps says whether it can.
\<close>

section \<open>Condition variables\<close>

record cond =
  cv_waiters :: "nat list"
  cv_signalled :: "nat set"

definition new_cond :: cond where
  "new_cond = \<lparr>cv_waiters = [], cv_signalled = {}\<rparr>"

text \<open>\<^verbatim>\<open>_pthread_cond_broadcast(cond, onlyfirst)\<close>\<close>

definition cond_broadcast :: "bool \<Rightarrow> cond \<Rightarrow> cond" where
  "cond_broadcast onlyfirst c = c\<lparr>cv_signalled := cv_signalled c \<union>
     (if onlyfirst then set (take 1 (cv_waiters c)) else set (cv_waiters c))\<rparr>"

text \<open>The two halves of \<^verbatim>\<open>_pthread_cond_timedwait\<close>: before and after the thread sleeps.\<close>

definition cond_sleep :: "nat \<Rightarrow> cond \<Rightarrow> cond" where
  "cond_sleep i c = c\<lparr>cv_waiters := cv_waiters c @ [i]\<rparr>"

definition cond_wake :: "nat \<Rightarrow> cond \<Rightarrow> cond" where
  "cond_wake i c = c\<lparr>cv_waiters := remove1 i (cv_waiters c), cv_signalled := cv_signalled c - {i}\<rparr>"

definition may_wake :: "bool \<Rightarrow> nat \<Rightarrow> cond \<Rightarrow> bool" where
  "may_wake brk i c \<longleftrightarrow> i \<in> cv_signalled c \<or> brk"

section \<open>Barriers\<close>

abbreviation (input) PTHREAD_BARRIER_FLAG :: ulong where "PTHREAD_BARRIER_FLAG \<equiv> 2147483648"
abbreviation (input) PTHREAD_BARRIER_SERIAL_THREAD :: int where "PTHREAD_BARRIER_SERIAL_THREAD \<equiv> 1"

record barrier =
  curr_height :: ulong
  total_height :: ulong
  breeched :: cond

definition pthread_barrier_init :: "ulong \<Rightarrow> int \<times> barrier option" where
  "pthread_barrier_init num =
     (if num = 0 then (EINVAL, None)
      else (0, Some \<lparr>curr_height = num, total_height = PTHREAD_BARRIER_FLAG, breeched = new_cond\<rparr>))"

text \<open>
  Where a thread is in \<^verbatim>\<open>pthread_barrier_wait\<close>: not yet called, waiting in the first loop,
  waiting in the second loop, returned.
\<close>

datatype bpc = B_Idle | B_Entering | B_Inside | B_Returned int

text \<open>From the second loop on.\<close>

definition barrier_leave :: "nat \<Rightarrow> barrier \<Rightarrow> bpc \<times> barrier" where
  "barrier_leave i b =
     (if total_height b < PTHREAD_BARRIER_FLAG then (B_Inside, b\<lparr>breeched := cond_sleep i (breeched b)\<rparr>)
      else let b1 = b\<lparr>total_height := total_height b - 1\<rparr>;
               b2 = (if total_height b1 = PTHREAD_BARRIER_FLAG
                     then b1\<lparr>breeched := cond_broadcast False (breeched b1)\<rparr> else b1)
        in (B_Returned 0, b2))"

text \<open>From the first loop on.\<close>

definition barrier_enter :: "nat \<Rightarrow> barrier \<Rightarrow> bpc \<times> barrier" where
  "barrier_enter i b =
     (if total_height b > PTHREAD_BARRIER_FLAG then (B_Entering, b\<lparr>breeched := cond_sleep i (breeched b)\<rparr>)
      else let b1 = (if total_height b = PTHREAD_BARRIER_FLAG then b\<lparr>total_height := 0\<rparr> else b);
               b2 = b1\<lparr>total_height := total_height b1 + 1\<rparr>
        in if total_height b2 = curr_height b2
           then (B_Returned PTHREAD_BARRIER_SERIAL_THREAD,
                 b2\<lparr>total_height := total_height b2 + (PTHREAD_BARRIER_FLAG - 1),
                    breeched := cond_broadcast False (breeched b2)\<rparr>)
           else barrier_leave i b2)"

definition barrier_wake :: "nat \<Rightarrow> barrier \<Rightarrow> barrier" where
  "barrier_wake i b = b\<lparr>breeched := cond_wake i (breeched b)\<rparr>"

inductive barrier_step :: "bool \<Rightarrow> barrier \<times> bpc list \<Rightarrow> barrier \<times> bpc list \<Rightarrow> bool" for brk where
  barrier_call: "i < length pcs \<Longrightarrow> pcs ! i = B_Idle \<Longrightarrow> barrier_enter i b = (p, b') \<Longrightarrow>
    barrier_step brk (b, pcs) (b', pcs[i := p])"
| barrier_wake_entering: "i < length pcs \<Longrightarrow> pcs ! i = B_Entering \<Longrightarrow> may_wake brk i (breeched b) \<Longrightarrow>
    barrier_enter i (barrier_wake i b) = (p, b') \<Longrightarrow> barrier_step brk (b, pcs) (b', pcs[i := p])"
| barrier_wake_inside: "i < length pcs \<Longrightarrow> pcs ! i = B_Inside \<Longrightarrow> may_wake brk i (breeched b) \<Longrightarrow>
    barrier_leave i (barrier_wake i b) = (p, b') \<Longrightarrow> barrier_step brk (b, pcs) (b', pcs[i := p])"

inductive_cases barrier_stepE: "barrier_step brk s s'"

text \<open>\<open>m\<close> threads that are about to wait at a new barrier for \<open>n\<close>.\<close>

inductive barrier_reach :: "bool \<Rightarrow> nat \<Rightarrow> nat \<Rightarrow> barrier \<times> bpc list \<Rightarrow> bool" for brk n m where
  barrier_start: "pthread_barrier_init (of_nat n) = (0, Some b) \<Longrightarrow> barrier_reach brk n m (b, replicate m B_Idle)"
| barrier_next: "barrier_reach brk n m s \<Longrightarrow> barrier_step brk s s' \<Longrightarrow> barrier_reach brk n m s'"

section \<open>Counting threads\<close>

definition num_at :: "('a \<Rightarrow> bool) \<Rightarrow> 'a list \<Rightarrow> nat" where
  "num_at P xs = length (filter P xs)"

lemma num_at_update:
  "i < length xs \<Longrightarrow> int (num_at P (xs[i := y])) = int (num_at P xs) - of_bool (P (xs ! i)) + of_bool (P y)"
proof (induction xs arbitrary: i)
  case (Cons x xs)
  then show ?case by (cases i) (auto simp: num_at_def)
qed simp

lemma num_at_replicate [simp]: "num_at P (replicate m x) = (if P x then m else 0)"
  by (simp add: num_at_def)

lemma num_at_pos: "i < length xs \<Longrightarrow> P (xs ! i) \<Longrightarrow> 0 < num_at P xs"
  by (auto simp: num_at_def filter_empty_conv)

lemma num_at_zero: "num_at P xs = 0 \<longleftrightarrow> (\<forall>i<length xs. \<not> P (xs ! i))"
  by (auto simp: num_at_def filter_empty_conv all_set_conv_all_nth)

lemma num_at_split: "num_at P xs = num_at (\<lambda>x. P x \<and> Q x) xs + num_at (\<lambda>x. P x \<and> \<not> Q x) xs"
  by (induction xs) (auto simp: num_at_def)

section \<open>Barriers are safe\<close>

lemma flag_less: "w < PTHREAD_BARRIER_FLAG \<longleftrightarrow> unat w < 2147483648" "PTHREAD_BARRIER_FLAG < w \<longleftrightarrow> 2147483648 < unat w"
  "w = PTHREAD_BARRIER_FLAG \<longleftrightarrow> unat w = 2147483648" for w :: ulong
  by (simp_all add: word_less_nat_alt word_unat_eq_iff)

lemma unat_succ: "unat w < 4294967295 \<Longrightarrow> unat (w + 1 :: ulong) = unat w + 1"
  by (subst unat_add_lem [THEN iffD1]) simp_all

lemma barrier_leave_waits:
  "unat (total_height b) < 2147483648 \<Longrightarrow> barrier_leave i b = (B_Inside, b\<lparr>breeched := cond_sleep i (breeched b)\<rparr>)"
  by (simp add: barrier_leave_def flag_less)

lemma barrier_leave_returns:
  assumes "2147483648 < unat (total_height b)"
  shows "\<exists>b'. barrier_leave i b = (B_Returned 0, b') \<and> unat (total_height b') = unat (total_height b) - 1 \<and>
    curr_height b' = curr_height b \<and>
    breeched b' = (if unat (total_height b) = 2147483649 then cond_broadcast False (breeched b) else breeched b)"
proof -
  have "total_height b \<noteq> 0" using assms by auto
  then have u: "unat (total_height b - 1) = unat (total_height b) - 1" by (rule unat_minus_one)
  have "total_height b - 1 = PTHREAD_BARRIER_FLAG \<longleftrightarrow> unat (total_height b) = 2147483649"
    using assms by (auto simp: flag_less(3) u)
  with assms u show ?thesis by (simp add: barrier_leave_def flag_less(1) Let_def)
qed

lemma barrier_enter_blocked:
  "2147483648 < unat (total_height b) \<Longrightarrow> barrier_enter i b = (B_Entering, b\<lparr>breeched := cond_sleep i (breeched b)\<rparr>)"
  by (simp add: barrier_enter_def flag_less)

text \<open>The number of threads inside before the arrival of the next.\<close>

definition arrived_before :: "barrier \<Rightarrow> nat" where
  "arrived_before b = (if unat (total_height b) = 2147483648 then 0 else unat (total_height b))"

lemma barrier_enter_open:
  assumes "unat (total_height b) \<le> 2147483648" "arrived_before b + 1 < 2147483648"
  shows "if arrived_before b + 1 = unat (curr_height b)
    then \<exists>b'. barrier_enter i b = (B_Returned 1, b') \<and> unat (total_height b') = 2147483648 + arrived_before b \<and>
      curr_height b' = curr_height b \<and> breeched b' = cond_broadcast False (breeched b)
    else \<exists>b'. barrier_enter i b = (B_Inside, b') \<and> unat (total_height b') = arrived_before b + 1 \<and>
      curr_height b' = curr_height b \<and> breeched b' = cond_sleep i (breeched b)"
proof -
  define t where "t = (if total_height b = PTHREAD_BARRIER_FLAG then 0 else total_height b)"
  have t: "unat t = arrived_before b" by (simp add: t_def arrived_before_def flag_less(3))
  have t1: "unat (t + 1) = arrived_before b + 1" using assms(2) by (subst unat_succ) (simp_all add: t)
  have e: "barrier_enter i b = (let b2 = b\<lparr>total_height := t + 1\<rparr> in
        if t + 1 = curr_height b
        then (B_Returned 1, b2\<lparr>total_height := t + 1 + (PTHREAD_BARRIER_FLAG - 1),
                    breeched := cond_broadcast False (breeched b)\<rparr>)
        else barrier_leave i b2)"
    using assms(1) by (simp add: barrier_enter_def flag_less(2) t_def Let_def)
  show ?thesis
  proof (cases "arrived_before b + 1 = unat (curr_height b)")
    case True
    then have "t + 1 = curr_height b" using t1 by (simp add: word_unat_eq_iff)
    moreover have "unat (t + 1 + (PTHREAD_BARRIER_FLAG - 1)) = 2147483648 + arrived_before b"
      using assms(2) t1 by (subst unat_add_lem [THEN iffD1]) simp_all
    ultimately show ?thesis unfolding e using True by (simp add: Let_def)
  next
    case False
    then have "t + 1 \<noteq> curr_height b" using t1 by (auto simp: word_unat_eq_iff)
    with barrier_leave_waits [of "b\<lparr>total_height := t + 1\<rparr>" i] t1 assms(2) show ?thesis
      unfolding e using False by (simp add: Let_def)
  qed
qed

fun returned :: "bpc \<Rightarrow> bool" where
  "returned (B_Returned r) = True"
| "returned _ = False"

text \<open>A thread has arrived when it is past the first loop.\<close>

definition arrived :: "bpc \<Rightarrow> bool" where
  "arrived p \<longleftrightarrow> p = B_Inside \<or> returned p"

text \<open>
  Either the barrier is empty, or it fills, or the threads of a round are leaving it. The number of
  rounds is that of the threads that returned \<^verbatim>\<open>PTHREAD_BARRIER_SERIAL_THREAD\<close>.
\<close>

definition barrier_inv :: "nat \<Rightarrow> barrier \<times> bpc list \<Rightarrow> bool" where
  "barrier_inv n = (\<lambda>(b, pcs).
     let T = unat (total_height b); k = num_at ((=) B_Inside) pcs; r = num_at returned pcs; s = num_at ((=) (B_Returned 1)) pcs
     in unat (curr_height b) = n \<and>
       (T = 2147483648 \<and> k = 0 \<and> r = n * s \<or> T = k \<and> 0 < k \<and> k < n \<and> r = n * s \<or>
        T = 2147483648 + k \<and> 0 < k \<and> k < n \<and> r + k = n * s))"

lemma barrier_invI:
  assumes "unat (curr_height b) = n" "num_at ((=) B_Inside) pcs = k" "num_at returned pcs = r" "num_at ((=) (B_Returned 1)) pcs = s"
    and "unat (total_height b) = 2147483648 \<and> k = 0 \<and> r = n * s \<or> unat (total_height b) = k \<and> 0 < k \<and> k < n \<and> r = n * s \<or>
        unat (total_height b) = 2147483648 + k \<and> 0 < k \<and> k < n \<and> r + k = n * s"
  shows "barrier_inv n (b, pcs)"
  using assms unfolding barrier_inv_def by simp

lemma barrier_invE:
  assumes "barrier_inv n (b, pcs)"
  obtains k r s where "num_at ((=) B_Inside) pcs = k" "num_at returned pcs = r" "num_at ((=) (B_Returned 1)) pcs = s"
    "unat (curr_height b) = n"
    "unat (total_height b) = 2147483648 \<and> k = 0 \<and> r = n * s \<or> unat (total_height b) = k \<and> 0 < k \<and> k < n \<and> r = n * s \<or>
        unat (total_height b) = 2147483648 + k \<and> 0 < k \<and> k < n \<and> r + k = n * s"
  using assms that unfolding barrier_inv_def by (simp add: Let_def)

text \<open>What the counts become when a thread that has not returned moves on.\<close>

lemma bpc_counts:
  assumes "i < length pcs" "\<not> returned (pcs ! i)"
  shows "int (num_at ((=) B_Inside) (pcs[i := p])) =
      int (num_at ((=) B_Inside) pcs) - of_bool (pcs ! i = B_Inside) + of_bool (p = B_Inside)"
    and "num_at returned (pcs[i := p]) = num_at returned pcs + of_bool (returned p)"
    and "num_at ((=) (B_Returned 1)) (pcs[i := p]) = num_at ((=) (B_Returned 1)) pcs + of_bool (p = B_Returned 1)"
proof -
  have ne: "B_Returned 1 \<noteq> pcs ! i" using assms(2) by (cases "pcs ! i") auto
  show "int (num_at ((=) B_Inside) (pcs[i := p])) =
      int (num_at ((=) B_Inside) pcs) - of_bool (pcs ! i = B_Inside) + of_bool (p = B_Inside)"
    using num_at_update [OF assms(1), of "(=) B_Inside" p] by (simp add: eq_commute [of B_Inside])
  show "num_at returned (pcs[i := p]) = num_at returned pcs + of_bool (returned p)"
    using num_at_update [OF assms(1), of returned p] assms(2) by (cases "returned p") simp_all
  show "num_at ((=) (B_Returned 1)) (pcs[i := p]) = num_at ((=) (B_Returned 1)) pcs + of_bool (p = B_Returned 1)"
    using num_at_update [OF assms(1), of "(=) (B_Returned 1)" p] ne
    by (cases "p = B_Returned 1") (simp_all add: eq_commute [of "B_Returned 1"])
qed

lemma barrier_inv_enter:
  assumes inv: "barrier_inv n (b, pcs)" and n: "0 < n" "n < 2147483648" and i: "i < length pcs"
    and p: "pcs ! i = B_Idle \<or> pcs ! i = B_Entering"
    and e: "barrier_enter i b0 = (p, b')" and b0: "total_height b0 = total_height b" "curr_height b0 = curr_height b"
  shows "barrier_inv n (b', pcs[i := p])"
proof -
  from inv obtain k r s where c: "num_at ((=) B_Inside) pcs = k" "num_at returned pcs = r" "num_at ((=) (B_Returned 1)) pcs = s"
    and curr: "unat (curr_height b) = n"
    and T: "unat (total_height b) = 2147483648 \<and> k = 0 \<and> r = n * s \<or> unat (total_height b) = k \<and> 0 < k \<and> k < n \<and> r = n * s \<or>
        unat (total_height b) = 2147483648 + k \<and> 0 < k \<and> k < n \<and> r + k = n * s" by (rule barrier_invE)
  have np: "\<not> returned (pcs ! i)" "pcs ! i \<noteq> B_Inside" using p by auto
  note upd = bpc_counts [OF i np(1), of p, unfolded c]
  show ?thesis
  proof (cases "unat (total_height b) > 2147483648")
    case True
    from barrier_enter_blocked [of b0 i] True e b0 have r: "p = B_Entering" "total_height b' = total_height b" "curr_height b' = curr_height b"
      by auto
    show ?thesis by (rule barrier_invI [where k = k and r = r and s = s]) (use r upd curr T np(2) in simp_all)
  next
    case False
    from T False n have T': "k < n" "r = n * s" "unat (total_height b) = 2147483648 \<and> k = 0 \<or> unat (total_height b) = k \<and> 0 < k"
      by auto
    then have a: "arrived_before b0 = k" using n(2) by (auto simp: arrived_before_def b0)
    show ?thesis
    proof (cases "k + 1 = n")
      case True
      from barrier_enter_open [of b0 i, unfolded a b0 curr if_P [OF True]] False n(2) True e
      have q: "p = B_Returned 1" "unat (total_height b') = 2147483648 + k" "curr_height b' = curr_height b" by auto
      have u: "num_at ((=) B_Inside) (pcs[i := p]) = k" "num_at returned (pcs[i := p]) = r + 1"
        "num_at ((=) (B_Returned 1)) (pcs[i := p]) = s + 1" using upd q(1) np(2) by simp_all
      have "r + 1 + k = n * (s + 1)" using T'(2) True by simp
      then have "2147483648 + k = 2147483648 \<and> k = 0 \<and> r + 1 = n * (s + 1) \<or> 2147483648 + k = k \<and> 0 < k \<and> k < n \<and> r + 1 = n * (s + 1) \<or>
        2147483648 + k = 2147483648 + k \<and> 0 < k \<and> k < n \<and> r + 1 + k = n * (s + 1)" using T'(1) by (cases "k = 0") simp_all
      then show ?thesis using q(3) curr by (intro barrier_invI [OF _ u]) (simp_all only: q(2))
    next
      case more: False
      then have lt: "k + 1 < n" using T'(1) by simp
      from barrier_enter_open [of b0 i, unfolded a b0 curr if_not_P [OF more]] False n(2) lt e
      have q: "p = B_Inside" "unat (total_height b') = k + 1" "curr_height b' = curr_height b" by auto
      have u: "num_at ((=) B_Inside) (pcs[i := p]) = k + 1" "num_at returned (pcs[i := p]) = r"
        "num_at ((=) (B_Returned 1)) (pcs[i := p]) = s" using upd q(1) np(2) by simp_all
      show ?thesis using q(3) curr lt T'(2) by (intro barrier_invI [OF _ u]) (simp_all add: q(2))
    qed
  qed
qed

lemma barrier_inv_leave:
  assumes inv: "barrier_inv n (b, pcs)" and i: "i < length pcs" and p: "pcs ! i = B_Inside" and n: "n < 2147483648"
    and e: "barrier_leave i b0 = (p, b')" and b0: "total_height b0 = total_height b" "curr_height b0 = curr_height b"
  shows "barrier_inv n (b', pcs[i := p])"
proof -
  from inv obtain k r s where c: "num_at ((=) B_Inside) pcs = k" "num_at returned pcs = r" "num_at ((=) (B_Returned 1)) pcs = s"
    and curr: "unat (curr_height b) = n"
    and T: "unat (total_height b) = 2147483648 \<and> k = 0 \<and> r = n * s \<or> unat (total_height b) = k \<and> 0 < k \<and> k < n \<and> r = n * s \<or>
        unat (total_height b) = 2147483648 + k \<and> 0 < k \<and> k < n \<and> r + k = n * s" by (rule barrier_invE)
  have k0: "0 < k" using num_at_pos [OF i, of "(=) B_Inside"] p c(1) by simp
  have np: "\<not> returned (pcs ! i)" using p by simp
  note upd = bpc_counts [OF i np, of p, unfolded c]
  show ?thesis
  proof (cases "unat (total_height b) = k")
    case True
    then have "unat (total_height b0) < 2147483648" using T k0 n by (simp add: b0)
    from barrier_leave_waits [OF this] e b0 have q: "p = B_Inside" "total_height b' = total_height b" "curr_height b' = curr_height b"
      by auto
    show ?thesis by (rule barrier_invI [where k = k and r = r and s = s]) (use q upd curr T p in simp_all)
  next
    case False
    with T k0 have T': "unat (total_height b) = 2147483648 + k" "k < n" "r + k = n * s" by auto
    with k0 have "2147483648 < unat (total_height b0)" by (simp add: b0)
    from barrier_leave_returns [OF this, of i] e b0 T'(1) k0
    have q: "p = B_Returned 0" "unat (total_height b') = 2147483648 + (k - 1)" "curr_height b' = curr_height b" by auto
    obtain j where kj: "k = Suc j" using k0 by (cases k) auto
    have u: "num_at ((=) B_Inside) (pcs[i := p]) = j" "num_at returned (pcs[i := p]) = r + 1"
        "num_at ((=) (B_Returned 1)) (pcs[i := p]) = s" using upd q(1) p kj by simp_all
    have q2: "unat (total_height b') = 2147483648 + j" using q(2) kj by simp
    have "r + 1 + j = n * s" "j < n" using T'(2,3) kj by simp_all
    then have "2147483648 + j = 2147483648 \<and> j = 0 \<and> r + 1 = n * s \<or> 2147483648 + j = j \<and> 0 < j \<and> j < n \<and> r + 1 = n * s \<or>
        2147483648 + j = 2147483648 + j \<and> 0 < j \<and> j < n \<and> r + 1 + j = n * s"
      by (cases j) simp_all
    then show ?thesis using q(3) curr by (intro barrier_invI [OF _ u]) (simp_all only: q2)
  qed
qed

lemma barrier_step_inv:
  assumes "barrier_step brk s s'" "barrier_inv n s" "0 < n" "n < 2147483648"
  shows "barrier_inv n s'"
  using assms(1)
proof cases
  case (barrier_call i pcs b p b')
  with barrier_inv_enter [of n b pcs i b p b'] assms show ?thesis by simp
next
  case (barrier_wake_entering i pcs b p b')
  with barrier_inv_enter [of n b pcs i "barrier_wake i b" p b'] assms show ?thesis by (simp add: barrier_wake_def)
next
  case (barrier_wake_inside i pcs b p b')
  with barrier_inv_leave [of n b pcs i "barrier_wake i b" p b'] assms show ?thesis by (simp add: barrier_wake_def)
qed

lemma barrier_reach_inv:
  assumes "barrier_reach brk n m s" and n: "0 < n" "n < 2147483648"
  shows "barrier_inv n s"
  using assms(1)
proof induction
  case (barrier_start b)
  have "unat (of_nat n :: ulong) = n" using n by (simp add: unat_of_nat take_bit_eq_mod)
  with barrier_start n show ?case
    by (intro barrier_invI [where k = 0 and r = 0 and s = 0]) (auto simp: pthread_barrier_init_def split: if_splits)
next
  case (barrier_next s s')
  from barrier_step_inv [OF barrier_next.hyps(2) barrier_next.IH n] show ?case .
qed

lemma num_arrived: "num_at arrived pcs = num_at ((=) B_Inside) pcs + num_at returned pcs"
  by (induction pcs) (auto simp: num_at_def arrived_def)

text \<open>
  C29: At a barrier for \<open>n\<close> threads no thread gets through early, whatever the order in which any
  number of threads call and wake up, break signals included. The threads that have returned are
  never more than \<open>n\<close> for each full round of arrivals, and for each full round exactly one
  thread is told that it is the serial thread.
\<close>

theorem barrier_safe:
  assumes "barrier_reach brk n m (b, pcs)" and "0 < n" and "n < 2 ^ 31"
  shows "num_at returned pcs \<le> n * (num_at arrived pcs div n) \<and>
    num_at ((=) (B_Returned PTHREAD_BARRIER_SERIAL_THREAD)) pcs = num_at arrived pcs div n"
proof -
  from barrier_reach_inv [OF assms(1,2)] assms(3) have "barrier_inv n (b, pcs)" by simp
  then obtain k r s where c: "num_at ((=) B_Inside) pcs = k" "num_at returned pcs = r" "num_at ((=) (B_Returned 1)) pcs = s"
    and T: "unat (total_height b) = 2147483648 \<and> k = 0 \<and> r = n * s \<or> unat (total_height b) = k \<and> 0 < k \<and> k < n \<and> r = n * s \<or>
        unat (total_height b) = 2147483648 + k \<and> 0 < k \<and> k < n \<and> r + k = n * s" by (rule barrier_invE)
  from T have "(k + r) div n = s \<and> r \<le> n * s"
  proof (elim disjE conjE)
    assume "k < n" "r = n * s"
    then show ?thesis by (simp add: mult.commute)
  next
    assume rk: "r + k = n * s"
    then have kr: "k + r = n * s" by simp
    show ?thesis unfolding kr using assms(2) rk by simp
  qed (use assms(2) in simp)
  then show ?thesis unfolding num_arrived c by simp
qed

definition new_barrier :: "nat \<Rightarrow> barrier" where
  "new_barrier n = \<lparr>curr_height = of_nat n, total_height = PTHREAD_BARRIER_FLAG, breeched = new_cond\<rparr>"

theorem barrier_safe_witness:
  "num_at returned [B_Inside, B_Idle] \<le> 2 * (num_at arrived [B_Inside, B_Idle] div 2) \<and> num_at arrived [B_Inside, B_Idle] = 1"
proof -
  have s: "barrier_reach True 2 2 (new_barrier 2, replicate 2 B_Idle)"
    by (rule barrier_start) (simp add: pthread_barrier_init_def new_barrier_def)
  obtain b where b: "barrier_enter 0 (new_barrier 2) = (B_Inside, b)"
    by (simp add: barrier_enter_def barrier_leave_def new_barrier_def Let_def)
  have "barrier_step True (new_barrier 2, [B_Idle, B_Idle]) (b, [B_Idle, B_Idle][0 := B_Inside])"
    by (rule barrier_call [OF _ _ b]) simp_all
  then have "barrier_reach True 2 2 (b, [B_Inside, B_Idle])"
    using barrier_next [OF s] by (simp add: numeral_2_eq_2)
  from barrier_safe [OF this] show ?thesis by (simp add: num_at_def arrived_def)
qed

section \<open>Barriers are live\<close>

fun waiting :: "bpc \<Rightarrow> bool" where
  "waiting B_Entering = True"
| "waiting B_Inside = True"
| "waiting _ = False"

text \<open>
  The waiting threads are those in the list of the condition variable, and those that can go on
  have a signal. \<open>wake_inv X\<close> says so of all threads but those in \<open>X\<close>.
\<close>

definition wake_inv :: "nat set \<Rightarrow> barrier \<Rightarrow> bpc list \<Rightarrow> bool" where
  "wake_inv X b pcs \<longleftrightarrow>
     distinct (cv_waiters (breeched b)) \<and>
     set (cv_waiters (breeched b)) = {i. i < length pcs \<and> waiting (pcs ! i)} - X \<and>
     cv_signalled (breeched b) \<subseteq> set (cv_waiters (breeched b)) \<and>
     (\<forall>i<length pcs. i \<notin> X \<longrightarrow> pcs ! i = (if unat (total_height b) > 2147483648 then B_Inside else B_Entering) \<longrightarrow>
        i \<in> cv_signalled (breeched b))"

lemma wake_inv_call: "wake_inv {} b pcs \<Longrightarrow> pcs ! i = B_Idle \<Longrightarrow> wake_inv {i} b pcs"
  unfolding wake_inv_def by auto

lemma wake_inv_woken:
  assumes "wake_inv {} b pcs" shows "wake_inv {i} (barrier_wake i b) pcs"
  using assms unfolding wake_inv_def barrier_wake_def cond_wake_def by (auto simp: set_remove1_eq)

lemma wake_inv_sleep:
  assumes "wake_inv {i} b pcs" "i < length pcs" "waiting p"
    and "breeched b' = cond_sleep i (breeched b)"
    and "unat (total_height b') > 2147483648 \<longleftrightarrow> unat (total_height b) > 2147483648"
    and "p \<noteq> (if unat (total_height b) > 2147483648 then B_Inside else B_Entering)"
  shows "wake_inv {} b' (pcs[i := p])"
  using assms unfolding wake_inv_def cond_sleep_def
  by (auto simp: nth_list_update split: if_splits)

lemma wake_inv_broadcast:
  assumes "wake_inv {i} b pcs" "i < length pcs" "returned p" "breeched b' = cond_broadcast False (breeched b)"
  shows "wake_inv {} b' (pcs[i := p])"
proof -
  have p: "\<not> waiting p" "p \<noteq> B_Inside" "p \<noteq> B_Entering" using assms(3) by (cases p; simp)+
  with assms(1,2,4) show ?thesis unfolding wake_inv_def cond_broadcast_def
    by (auto simp: nth_list_update split: if_splits)
qed

lemma wake_inv_return:
  assumes "wake_inv {i} b pcs" "i < length pcs" "returned p" "breeched b' = breeched b"
    and "unat (total_height b') > 2147483648 \<longleftrightarrow> unat (total_height b) > 2147483648"
  shows "wake_inv {} b' (pcs[i := p])"
proof -
  have p: "\<not> waiting p" "p \<noteq> B_Inside" "p \<noteq> B_Entering" using assms(3) by (cases p; simp)+
  with assms(1,2,4,5) show ?thesis unfolding wake_inv_def
    by (auto simp: nth_list_update split: if_splits)
qed

lemma wake_inv_enter:
  assumes w: "wake_inv {i} b pcs" and i: "i < length pcs" and e: "barrier_enter i b = (p, b')"
    and a: "unat (total_height b) \<le> 2147483648 \<Longrightarrow> arrived_before b + 1 < 2147483648"
  shows "wake_inv {} b' (pcs[i := p])"
proof (cases "unat (total_height b) > 2147483648")
  case True
  with barrier_enter_blocked [OF True, of i] e show ?thesis by (intro wake_inv_sleep [OF w i]) auto
next
  case False
  then have le: "unat (total_height b) \<le> 2147483648" by simp
  note op = barrier_enter_open [OF le a [OF le], of i]
  show ?thesis
  proof (cases "arrived_before b + 1 = unat (curr_height b)")
    case True
    from op [unfolded if_P [OF True]] e show ?thesis by (intro wake_inv_broadcast [OF w i]) auto
  next
    case more: False
    from op [unfolded if_not_P [OF more]] e have "p = B_Inside" "breeched b' = cond_sleep i (breeched b)"
      "unat (total_height b') = arrived_before b + 1" by auto
    with a [OF le] False show ?thesis by (intro wake_inv_sleep [OF w i]) auto
  qed
qed

lemma wake_inv_leave:
  assumes w: "wake_inv {i} b pcs" and i: "i < length pcs" and e: "barrier_leave i b = (p, b')"
    and T: "unat (total_height b) \<noteq> 2147483648"
  shows "wake_inv {} b' (pcs[i := p])"
proof (cases "unat (total_height b) < 2147483648")
  case True
  with barrier_leave_waits [OF True, of i] e show ?thesis by (intro wake_inv_sleep [OF w i]) auto
next
  case False
  with T have gt: "2147483648 < unat (total_height b)" by simp
  from barrier_leave_returns [OF gt, of i] e have q: "p = B_Returned 0" "unat (total_height b') = unat (total_height b) - 1"
    "breeched b' = (if unat (total_height b) = 2147483649 then cond_broadcast False (breeched b) else breeched b)" by auto
  show ?thesis
  proof (cases "unat (total_height b) = 2147483649")
    case True
    with q show ?thesis by (intro wake_inv_broadcast [OF w i]) auto
  next
    case False
    with q gt show ?thesis by (intro wake_inv_return [OF w i]) auto
  qed
qed

lemma barrier_inv_room:
  "barrier_inv n (b, pcs) \<Longrightarrow> n < 2147483648 \<Longrightarrow> 0 < n \<Longrightarrow> unat (total_height b) \<le> 2147483648 \<Longrightarrow> arrived_before b + 1 < 2147483648"
  by (erule barrier_invE) (auto simp: arrived_before_def)

lemma barrier_wake_fields [simp]:
  "total_height (barrier_wake i b) = total_height b" "curr_height (barrier_wake i b) = curr_height b"
  "arrived_before (barrier_wake i b) = arrived_before b"
  by (simp_all add: barrier_wake_def arrived_before_def)

lemma barrier_inv_inside: "barrier_inv n (b, pcs) \<Longrightarrow> i < length pcs \<Longrightarrow> pcs ! i = B_Inside \<Longrightarrow> n < 2147483648 \<Longrightarrow>
   unat (total_height b) \<noteq> 2147483648"
  using num_at_pos [of i pcs "(=) B_Inside"] by (auto elim!: barrier_invE)

lemma barrier_step_wake_inv:
  assumes "barrier_step brk s s'" "barrier_inv n s" "wake_inv {} (fst s) (snd s)" "0 < n" "n < 2147483648"
  shows "wake_inv {} (fst s') (snd s')"
  using assms(1)
proof cases
  case (barrier_call i pcs b p b')
  have "wake_inv {i} b pcs" using assms(3) barrier_call(1,4) by (intro wake_inv_call) simp_all
  from wake_inv_enter [OF this barrier_call(3,5)] barrier_inv_room [of n b pcs] assms(2,4,5) barrier_call(1,2)
  show ?thesis by simp
next
  case (barrier_wake_entering i pcs b p b')
  have "wake_inv {i} (barrier_wake i b) pcs" using assms(3) barrier_wake_entering(1) by (intro wake_inv_woken) simp_all
  from wake_inv_enter [OF this barrier_wake_entering(3,6)] barrier_inv_room [of n b pcs] assms(2,4,5) barrier_wake_entering(1,2)
  show ?thesis by simp
next
  case (barrier_wake_inside i pcs b p b')
  have "wake_inv {i} (barrier_wake i b) pcs" using assms(3) barrier_wake_inside(1) by (intro wake_inv_woken) simp_all
  from wake_inv_leave [OF this barrier_wake_inside(3,6)] barrier_inv_inside [of n b pcs i] assms(2,5) barrier_wake_inside(1-4)
  show ?thesis by simp
qed

lemma barrier_reach_wake_inv:
  assumes "barrier_reach brk n m s" and n: "0 < n" "n < 2147483648"
  shows "wake_inv {} (fst s) (snd s) \<and> length (snd s) = m"
  using assms(1)
proof induction
  case (barrier_start b)
  then show ?case by (auto simp: wake_inv_def pthread_barrier_init_def new_cond_def split: if_splits)
next
  case (barrier_next s s')
  from barrier_step_wake_inv [OF barrier_next.hyps(2) barrier_reach_inv [OF barrier_next.hyps(1) n]] barrier_next.IH n
  have "wake_inv {} (fst s') (snd s')" by simp
  with barrier_next show ?case by (auto elim: barrier_stepE)
qed

text \<open>Every step brings a thread closer to its return, or takes a signal.\<close>

definition barrier_rank :: "(barrier \<times> bpc list) rel" where
  "barrier_rank = measures [\<lambda>(b, pcs). 2 * num_at (\<lambda>p. p = B_Idle \<or> p = B_Entering) pcs + num_at ((=) B_Inside) pcs,
     \<lambda>(b, pcs). num_at ((=) B_Idle) pcs, \<lambda>(b, pcs). card (cv_signalled (breeched b))]"

lemma wf_barrier_rank: "wf barrier_rank"
  unfolding barrier_rank_def by (rule wf_measures)

lemma barrier_enter_shape: "barrier_enter i b = (p, b') \<Longrightarrow>
   p = B_Entering \<and> cv_signalled (breeched b') = cv_signalled (breeched b) \<or> p = B_Inside \<or> returned p"
  by (auto simp: barrier_enter_def barrier_leave_def Let_def cond_sleep_def split: if_splits)

lemma barrier_leave_shape: "barrier_leave i b = (p, b') \<Longrightarrow>
   p = B_Inside \<and> cv_signalled (breeched b') = cv_signalled (breeched b) \<or> returned p"
  by (auto simp: barrier_leave_def Let_def cond_sleep_def split: if_splits)

lemma barrier_rankI:
  assumes i: "i < length pcs"
    and c: "(pcs ! i = B_Idle \<or> pcs ! i = B_Entering) \<and> (p = B_Inside \<or> returned p) \<or> pcs ! i = B_Inside \<and> returned p \<or>
      pcs ! i = B_Idle \<and> p = B_Entering \<or>
      (pcs ! i = B_Entering \<or> pcs ! i = B_Inside) \<and> p = pcs ! i \<and> card (cv_signalled (breeched b')) < card (cv_signalled (breeched b))"
  shows "((b', pcs[i := p]), (b, pcs)) \<in> barrier_rank"
proof -
  note u = num_at_update [OF i, of "\<lambda>p. p = B_Idle \<or> p = B_Entering" p] num_at_update [OF i, of "(=) B_Inside" p]
    num_at_update [OF i, of "(=) B_Idle" p]
  from c show ?thesis
  proof (elim disjE conjE)
    assume "p = pcs ! i" "card (cv_signalled (breeched b')) < card (cv_signalled (breeched b))"
    then show "((b', pcs[i := p]), (b, pcs)) \<in> barrier_rank" by (simp add: barrier_rank_def)
  qed (use u in \<open>cases p; auto simp: barrier_rank_def\<close>)+
qed

lemma barrier_step_rank:
  assumes "barrier_step False s s'" "wake_inv {} (fst s) (snd s)"
  shows "(s', s) \<in> barrier_rank"
proof -
  have less: "card (cv_signalled (breeched (barrier_wake i (fst s)))) < card (cv_signalled (breeched (fst s)))"
    if "may_wake False i (breeched (fst s))" for i
  proof -
    have "finite (cv_signalled (breeched (fst s)))" using assms(2) unfolding wake_inv_def by (meson finite_set finite_subset)
    then show ?thesis using that card_Diff1_less [of "cv_signalled (breeched (fst s))" i]
      by (simp add: may_wake_def barrier_wake_def cond_wake_def)
  qed
  from assms(1) show ?thesis
  proof cases
    case (barrier_call i pcs b p b')
    with barrier_enter_shape [OF barrier_call(5)] show ?thesis by (auto intro: barrier_rankI)
  next
    case (barrier_wake_entering i pcs b p b')
    with barrier_enter_shape [OF barrier_wake_entering(6)] less [of i] show ?thesis
      by (simp, intro barrier_rankI) auto
  next
    case (barrier_wake_inside i pcs b p b')
    with barrier_leave_shape [OF barrier_wake_inside(6)] less [of i] show ?thesis
      by (simp, intro barrier_rankI) auto
  qed
qed

lemma barrier_no_infinite_run:
  assumes "barrier_reach False n m (run 0)" "0 < n" "n < 2147483648"
  shows "\<exists>k. \<not> barrier_step False (run k) (run (Suc k))"
proof (rule ccontr)
  assume "\<nexists>k. \<not> barrier_step False (run k) (run (Suc k))"
  then have st: "barrier_step False (run k) (run (Suc k))" for k by blast
  have "barrier_reach False n m (run k)" for k
    by (induction k) (auto intro: assms(1) barrier_next st)
  from barrier_step_rank [OF st conjunct1 [OF barrier_reach_wake_inv [OF this assms(2,3)]]]
  have "\<exists>run. \<forall>k. (run (Suc k), run k) \<in> barrier_rank" by blast
  with wf_barrier_rank show False unfolding wf_iff_no_infinite_down_chain by blast
qed

lemma barrier_stuck_returned:
  assumes r: "barrier_reach False n (n * q) s" and n: "0 < n" "n < 2147483648"
    and stuck: "\<And>s'. \<not> barrier_step False s s'"
  shows "num_at returned (snd s) = n * q"
proof -
  obtain b pcs where s: "s = (b, pcs)" by (cases s)
  from barrier_reach_wake_inv [OF r n] s have w: "wake_inv {} b pcs" and len: "length pcs = n * q" by simp_all
  have idle: "pcs ! i \<noteq> B_Idle" if "i < length pcs" for i
    using barrier_call [OF that _ prod.collapse [symmetric]] stuck s by blast
  have ent: "\<not> (pcs ! i = B_Entering \<and> i \<in> cv_signalled (breeched b))" if "i < length pcs" for i
    using barrier_wake_entering [OF that _ _ prod.collapse [symmetric]] stuck s unfolding may_wake_def by blast
  have ins: "\<not> (pcs ! i = B_Inside \<and> i \<in> cv_signalled (breeched b))" if "i < length pcs" for i
    using barrier_wake_inside [OF that _ _ prod.collapse [symmetric]] stuck s unfolding may_wake_def by blast
  from barrier_reach_inv [OF r n] s have "barrier_inv n (b, pcs)" by simp
  then obtain k r t where c: "num_at ((=) B_Inside) pcs = k" "num_at returned pcs = r"
    and T: "unat (total_height b) = 2147483648 \<and> k = 0 \<and> r = n * t \<or> unat (total_height b) = k \<and> 0 < k \<and> k < n \<and> r = n * t \<or>
        unat (total_height b) = 2147483648 + k \<and> 0 < k \<and> k < n \<and> r + k = n * t" by (rule barrier_invE)
  have fill: "\<not> unat (total_height b) > 2147483648"
  proof
    assume gt: "unat (total_height b) > 2147483648"
    with T n have "num_at ((=) B_Inside) pcs \<noteq> 0" using c by auto
    then obtain i where "i < length pcs" "pcs ! i = B_Inside" by (metis num_at_zero)
    with w gt ins show False unfolding wake_inv_def by auto
  qed
  then have noent: "pcs ! i \<noteq> B_Entering" if "i < length pcs" for i using w ent that unfolding wake_inv_def by auto
  have "arrived (pcs ! i)" if "i < length pcs" for i
    using idle [OF that] noent [OF that] by (cases "pcs ! i") (auto simp: arrived_def)
  then have "num_at arrived pcs = length pcs" by (simp add: num_at_def all_set_conv_all_nth)
  then have kr: "k + r = n * q" using num_arrived [of pcs] c len by simp
  from T fill have "k < n" "r = n * t" using n by auto
  then have "k = 0" using kr by (metis add.commute dvd_add_right_iff dvd_triv_left nat_dvd_not_less neq0_conv)
  with kr c s show ?thesis by simp
qed



end
