(* ===== verification/Pthread_Sem.thy ===== *)
theory Pthread_Sem
  imports Pthread_Sync
begin

text \<open>
  Counting semaphores (\<^verbatim>\<open>src/library/pthread/semaphore.c\<close>) and one-time initialisation with its spin
  lock (\<^verbatim>\<open>pthread_once.c\<close>, \<^verbatim>\<open>pthread_spin_lock.c\<close>, \<^verbatim>\<open>pthread_spin_unlock.c\<close>), as step
  relations over any number of threads, in the manner of \<^verbatim>\<open>Pthread_Sync\<close>. The states also count the
  successful posts and waits and the calls of the initialisation routine, for the invariants.
\<close>

section \<open>Semaphores\<close>

abbreviation (input) SEM_VALUE_MAX :: int where "SEM_VALUE_MAX \<equiv> 2147483647"

record sema =
  sem_value :: int
  waiters_count :: int
  count_nonzero :: cond

definition sem_init :: "ulong \<Rightarrow> int + sema" where
  "sem_init v =
     (if uint v > SEM_VALUE_MAX then Inl EINVAL
      else Inr \<lparr>sem_value = uint v, waiters_count = 0, count_nonzero = new_cond\<rparr>)"

text \<open>An operation succeeds, fails with an \<^verbatim>\<open>errno\<close>, or goes to sleep.\<close>

datatype sem_result = S_Ok | S_Error int | S_Sleeps

definition sem_trywait :: "sema \<Rightarrow> sem_result \<times> sema" where
  "sem_trywait s =
     (if sem_value s > 0 then (S_Ok, s\<lparr>sem_value := sem_value s - 1\<rparr>) else (S_Error EAGAIN, s))"

text \<open>
  \<^verbatim>\<open>sem_timedwait\<close> from its loop on. \<open>imm\<close> is the error of a \<^verbatim>\<open>pthread_cond_timedwait\<close> that returns
  without sleeping (no timer, or the time has passed), 0 when it sleeps.
\<close>

definition sem_wait_exit :: "int \<Rightarrow> sema \<Rightarrow> sem_result \<times> sema" where
  "sem_wait_exit result s =
     (let s1 = s\<lparr>waiters_count := waiters_count s - 1\<rparr>
      in if result \<noteq> 0 then (S_Error result, s1) else (S_Ok, s1\<lparr>sem_value := sem_value s1 - 1\<rparr>))"

definition sem_wait_loop :: "nat \<Rightarrow> int \<Rightarrow> int \<Rightarrow> sema \<Rightarrow> sem_result \<times> sema" where
  "sem_wait_loop i imm result s =
     (if sem_value s = 0 \<and> result = 0
      then if imm = 0 then (S_Sleeps, s\<lparr>count_nonzero := cond_sleep i (count_nonzero s)\<rparr>)
           else sem_wait_exit imm s
      else sem_wait_exit result s)"

definition sem_timedwait :: "nat \<Rightarrow> int \<Rightarrow> sema \<Rightarrow> sem_result \<times> sema" where
  "sem_timedwait i imm s = sem_wait_loop i imm 0 (s\<lparr>waiters_count := waiters_count s + 1\<rparr>)"

text \<open>The thread wakes up in \<^verbatim>\<open>pthread_cond_timedwait\<close>, which returns \<open>result\<close>.\<close>

definition sem_resume :: "nat \<Rightarrow> int \<Rightarrow> int \<Rightarrow> sema \<Rightarrow> sem_result \<times> sema" where
  "sem_resume i imm result s = sem_wait_loop i imm result (s\<lparr>count_nonzero := cond_wake i (count_nonzero s)\<rparr>)"

definition sem_post :: "sema \<Rightarrow> sem_result \<times> sema" where
  "sem_post s =
     (if sem_value s \<ge> SEM_VALUE_MAX then (S_Error EOVERFLOW, s)
      else let s1 = s\<lparr>sem_value := sem_value s + 1\<rparr>
        in (S_Ok, if waiters_count s1 > 0 then s1\<lparr>count_nonzero := cond_broadcast True (count_nonzero s1)\<rparr> else s1))"

text \<open>\<open>held\<close>: another thread holds the mutex. \<^verbatim>\<open>lock.incond\<close> is the number of sleeping threads.\<close>

definition sem_getvalue :: "bool \<Rightarrow> sema \<Rightarrow> int" where
  "sem_getvalue held s =
     (if \<not> held then if length (cv_waiters (count_nonzero s)) \<noteq> 0 then - waiters_count s else sem_value s
      else - waiters_count s)"

text \<open>A thread is outside the semaphore, or sleeps in it, with a timeout or without.\<close>

datatype spc = S_Out | S_Asleep bool

record sem_state =
  sem :: sema
  spcs :: "spc list"
  posted :: nat
  acquired :: nat

definition sem_done :: "nat \<Rightarrow> bool \<Rightarrow> sem_result \<times> sema \<Rightarrow> sem_state \<Rightarrow> sem_state" where
  "sem_done i timed rs st = st\<lparr>sem := snd rs, spcs := (spcs st)[i := if fst rs = S_Sleeps then S_Asleep timed else S_Out],
     acquired := acquired st + (if fst rs = S_Ok then 1 else 0)\<rparr>"

inductive sem_step :: "bool \<Rightarrow> sem_state \<Rightarrow> sem_state \<Rightarrow> bool" for brk where
  step_trywait: "i < length (spcs st) \<Longrightarrow> spcs st ! i = S_Out \<Longrightarrow>
    sem_step brk st (sem_done i False (sem_trywait (sem st)) st)"
| step_wait: "i < length (spcs st) \<Longrightarrow> spcs st ! i = S_Out \<Longrightarrow> timed \<or> imm = 0 \<Longrightarrow>
    sem_step brk st (sem_done i timed (sem_timedwait i imm (sem st)) st)"
| step_wake: "i < length (spcs st) \<Longrightarrow> spcs st ! i = S_Asleep timed \<Longrightarrow> timed \<or> imm = 0 \<Longrightarrow>
    may_wake brk i (count_nonzero (sem st)) \<and> result = 0 \<or> timed \<and> result = ETIMEDOUT \<Longrightarrow>
    sem_step brk st (sem_done i timed (sem_resume i imm result (sem st)) st)"
| step_post: "i < length (spcs st) \<Longrightarrow> spcs st ! i = S_Out \<Longrightarrow> sem_post (sem st) = (r, s') \<Longrightarrow>
    sem_step brk st (st\<lparr>sem := s', posted := posted st + (if r = S_Ok then 1 else 0)\<rparr>)"

inductive sem_reach :: "bool \<Rightarrow> ulong \<Rightarrow> nat \<Rightarrow> sem_state \<Rightarrow> bool" for brk v m where
  sem_start: "sem_init v = Inr s \<Longrightarrow> sem_reach brk v m \<lparr>sem = s, spcs = replicate m S_Out, posted = 0, acquired = 0\<rparr>"
| sem_next: "sem_reach brk v m st \<Longrightarrow> sem_step brk st st' \<Longrightarrow> sem_reach brk v m st'"

section \<open>The count of a semaphore\<close>

fun asleep :: "spc \<Rightarrow> bool" where
  "asleep (S_Asleep t) = True"
| "asleep S_Out = False"

definition sem_counts :: "int \<Rightarrow> sem_state \<Rightarrow> bool" where
  "sem_counts v st \<longleftrightarrow> 0 \<le> sem_value (sem st) \<and> sem_value (sem st) \<le> SEM_VALUE_MAX \<and>
     sem_value (sem st) + int (acquired st) = v + int (posted st)"

text \<open>The waiters are the sleeping threads; \<open>i\<close> may be in between.\<close>

definition sem_waits :: "nat set \<Rightarrow> sema \<Rightarrow> spc list \<Rightarrow> bool" where
  "sem_waits X s pcs \<longleftrightarrow> distinct (cv_waiters (count_nonzero s)) \<and>
     set (cv_waiters (count_nonzero s)) = {i. i < length pcs \<and> asleep (pcs ! i)} - X \<and>
     cv_signalled (count_nonzero s) \<subseteq> set (cv_waiters (count_nonzero s))"

definition sem_inv :: "int \<Rightarrow> sem_state \<Rightarrow> bool" where
  "sem_inv v st \<longleftrightarrow> sem_counts v st \<and> sem_waits {} (sem st) (spcs st) \<and>
     waiters_count (sem st) = int (num_at asleep (spcs st))"

lemma sem_loop_cases:
  obtains (sleeps) "sem_value s = 0" "result = 0" "imm = 0"
      "sem_wait_loop i imm result s = (S_Sleeps, s\<lparr>count_nonzero := cond_sleep i (count_nonzero s)\<rparr>)"
  | (fails) e where "e \<noteq> 0" "sem_wait_loop i imm result s = (S_Error e, s\<lparr>waiters_count := waiters_count s - 1\<rparr>)"
  | (takes) "sem_value s \<noteq> 0" "result = 0"
      "sem_wait_loop i imm result s = (S_Ok, s\<lparr>waiters_count := waiters_count s - 1, sem_value := sem_value s - 1\<rparr>)"
proof -
  note d = sem_wait_loop_def sem_wait_exit_def Let_def
  consider "sem_value s = 0" "result = 0" "imm = 0" | "sem_value s = 0" "result = 0" "imm \<noteq> 0"
    | "result \<noteq> 0" | "sem_value s \<noteq> 0" "result = 0" by blast
  then show thesis
  proof cases
    case 1
    with sleeps show ?thesis by (simp add: d)
  next
    case 2
    with fails [of imm] show ?thesis by (simp add: d)
  next
    case 3
    with fails [of result] show ?thesis by (simp add: d)
  next
    case 4
    with takes show ?thesis by (simp add: d)
  qed
qed

lemma sem_inv_loop:
  assumes i: "i < length (spcs st)" and c: "sem_counts v st" and s: "sem_value s = sem_value (sem st)"
    and w: "sem_waits {i} s (spcs st)"
    and n: "waiters_count s = int (num_at asleep (spcs st)) - of_bool (asleep (spcs st ! i)) + 1"
  shows "sem_inv v (sem_done i timed (sem_wait_loop i imm result s) st)"
proof -
  note u = num_at_update [OF i, of asleep]
  have out: "sem_waits {} s' ((spcs st)[i := S_Out])" if "count_nonzero s' = count_nonzero s" for s'
    using w i that unfolding sem_waits_def by (auto simp: nth_list_update split: if_splits)
  show ?thesis
  proof (cases rule: sem_loop_cases [of s result imm i])
    case sleeps
    have "sem_waits {} (s\<lparr>count_nonzero := cond_sleep i (count_nonzero s)\<rparr>) ((spcs st)[i := S_Asleep timed])"
      using w i unfolding sem_waits_def cond_sleep_def by (auto simp: nth_list_update split: if_splits)
    with sleeps c s n u [of "S_Asleep timed"] show ?thesis by (simp add: sem_inv_def sem_done_def sem_counts_def)
  next
    case (fails e)
    with c s n u [of S_Out] out show ?thesis by (simp add: sem_inv_def sem_done_def sem_counts_def)
  next
    case takes
    with c s n u [of S_Out] out show ?thesis by (simp add: sem_inv_def sem_done_def sem_counts_def)
  qed
qed

lemma sem_waits_post:
  assumes "sem_waits X s pcs" "sem_post s = (r, s')" shows "sem_waits X s' pcs"
proof -
  have "set (take 1 (cv_waiters (count_nonzero s))) \<subseteq> set (cv_waiters (count_nonzero s))" by (rule set_take_subset)
  with assms show ?thesis unfolding sem_waits_def sem_post_def cond_broadcast_def
    by (auto simp: Let_def simp del: One_nat_def split: if_splits)
qed

lemma sem_step_inv:
  assumes "sem_step brk st st'" "sem_inv v st"
  shows "sem_inv v st'"
  using assms
proof induction
  case (step_trywait i st)
  then have "(spcs st)[i := S_Out] = spcs st" by (metis list_update_id)
  with step_trywait show ?case
    by (auto simp: sem_inv_def sem_done_def sem_trywait_def sem_counts_def sem_waits_def)
next
  case (step_wait i st timed imm)
  have "sem_waits {i} (sem st) (spcs st)" using step_wait by (auto simp: sem_inv_def sem_waits_def)
  with step_wait show ?case unfolding sem_timedwait_def
    by (intro sem_inv_loop) (auto simp: sem_inv_def sem_waits_def)
next
  case (step_wake i st timed imm result)
  have "sem_waits {i} (sem st\<lparr>count_nonzero := cond_wake i (count_nonzero (sem st))\<rparr>) (spcs st)"
    using step_wake(5) by (auto simp: sem_inv_def sem_waits_def cond_wake_def set_remove1_eq)
  with step_wake show ?case unfolding sem_resume_def
    by (intro sem_inv_loop) (auto simp: sem_inv_def)
next
  case (step_post i st r s')
  from step_post sem_waits_post [OF _ step_post(3)] show ?case
    by (auto simp: sem_inv_def sem_post_def sem_counts_def Let_def split: if_splits)
qed

lemma sem_reach_inv:
  assumes "sem_reach brk v m st" shows "sem_inv (uint v) st"
  using assms
proof induction
  case (sem_start s)
  then show ?case by (auto simp: sem_init_def sem_inv_def sem_counts_def sem_waits_def new_cond_def split: if_splits)
next
  case (sem_next st st')
  then show ?case by (blast intro: sem_step_inv)
qed


definition sem_run0 :: sem_state where
  "sem_run0 = \<lparr>sem = \<lparr>sem_value = 0, waiters_count = 0, count_nonzero = new_cond\<rparr>, spcs = replicate 3 S_Out, posted = 0, acquired = 0\<rparr>"


text \<open>Two threads wait, a third posts twice, and then the first wakes up.\<close>

definition sem_run1 :: sem_state where
  "sem_run1 = sem_done 1 False (sem_timedwait 1 0 (sem (sem_done 0 False (sem_timedwait 0 0 (sem sem_run0)) sem_run0)))
     (sem_done 0 False (sem_timedwait 0 0 (sem sem_run0)) sem_run0)"

definition sem_run2 :: sem_state where
  "sem_run2 = sem_run1\<lparr>sem := snd (sem_post (snd (sem_post (sem sem_run1)))), posted := 2\<rparr>"

definition sem_run3 :: sem_state where
  "sem_run3 = sem_done 0 False (sem_resume 0 0 0 (sem sem_run2)) sem_run2"

lemmas sem_run_defs = sem_run0_def sem_run1_def sem_run2_def sem_run3_def sem_done_def sem_timedwait_def sem_wait_loop_def
  sem_wait_exit_def sem_resume_def sem_post_def cond_sleep_def cond_wake_def cond_broadcast_def new_cond_def Let_def may_wake_def

lemma sem_reach_run1: "sem_reach brk 0 3 sem_run1"
proof -
  have "sem_reach brk 0 3 sem_run0" unfolding sem_run0_def by (rule sem_start) (simp add: sem_init_def)
  from sem_next [OF sem_next [OF this step_wait [of 0 _ False 0]] step_wait [of 1 _ False 0]]
  show ?thesis unfolding sem_run1_def [symmetric] by (simp add: sem_run_defs numeral_3_eq_3)
qed

lemma sem_reach_run3: "sem_reach brk 0 3 sem_run3"
proof -
  have p: "sem_reach brk 0 3 (st\<lparr>sem := snd (sem_post (sem st)), posted := posted st + 1\<rparr>)"
    if "sem_reach brk 0 3 st" "length (spcs st) = 3" "spcs st ! 2 = S_Out" "sem_value (sem st) < SEM_VALUE_MAX" for st
  proof -
    have "sem_post (sem st) = (S_Ok, snd (sem_post (sem st)))" using that(4) by (simp add: sem_post_def Let_def)
    from step_post [OF _ _ this, of 2 brk] sem_next [OF that(1)] that(2,3) show ?thesis by auto
  qed
  have "sem_reach brk 0 3 sem_run2"
    using p [OF p [OF sem_reach_run1]] by (simp add: sem_run_defs numeral_3_eq_3 numeral_2_eq_2)
  from sem_next [OF this step_wake [of 0 _ False 0 brk 0]] show ?thesis unfolding sem_run3_def [symmetric]
    by (simp add: sem_run_defs numeral_3_eq_3)
qed

text \<open>
  C32: A semaphore can lose a wake-up. \<^verbatim>\<open>pthread_cond_signal\<close> signals the first thread in the list, and
  that thread stays in the list until it runs. So two posts can signal the same thread, and then the
  value is 1, a thread sleeps in \<^verbatim>\<open>sem_wait\<close>, no thread has a signal pending, and no sleeping thread can
  wake up.
\<close>

theorem sem_lost_wakeup:
  "\<exists>st. sem_reach False 0 3 st \<and> sem_value (sem st) = 1 \<and> spcs st = [S_Out, S_Asleep False, S_Out] \<and>
     posted st = 2 \<and> acquired st = 1 \<and> cv_signalled (count_nonzero (sem st)) = {} \<and>
     \<not> may_wake False 1 (count_nonzero (sem st))"
proof -
  have "sem_value (sem sem_run3) = 1 \<and> spcs sem_run3 = [S_Out, S_Asleep False, S_Out] \<and>
     posted sem_run3 = 2 \<and> acquired sem_run3 = 1 \<and> cv_signalled (count_nonzero (sem sem_run3)) = {} \<and>
     \<not> may_wake False 1 (count_nonzero (sem sem_run3))"
    by (simp add: sem_run_defs numeral_3_eq_3)
  with sem_reach_run3 show ?thesis by blast
qed

section \<open>One-time initialisation\<close>

text \<open>\<open>spin_try\<close> is one test-and-set of the spin lock: whether it was free, and the lock after.\<close>

definition spin_try :: "int \<Rightarrow> bool \<times> int" where
  "spin_try l = (l = 0, 1)"

definition pthread_spin_trylock :: "int \<Rightarrow> int \<times> int" where
  "pthread_spin_trylock l = (case spin_try l of (ok, l') \<Rightarrow> (if ok then 0 else EBUSY, l'))"

definition pthread_spin_unlock :: "int \<Rightarrow> int" where
  "pthread_spin_unlock l = 0"

record once_t =
  once_done :: bool
  once_started :: int
  once_lock :: int

definition PTHREAD_ONCE_INIT :: once_t where
  "PTHREAD_ONCE_INIT = \<lparr>once_done = False, once_started = -1, once_lock = 0\<rparr>"

text \<open>
  Where a thread is in \<^verbatim>\<open>pthread_once\<close>: before the compare-and-swap, in the loop of the spin lock, at the
  test of \<^verbatim>\<open>done\<close>, in the initialisation routine, before \<^verbatim>\<open>done = TRUE\<close>, at the unlock, returned,
  or cancelled in the routine.
\<close>

datatype opc = O_Start | O_Spin | O_Test | O_Init | O_Set | O_Unlock | O_Returned | O_Cancelled

text \<open>
  The next step of a thread. \<open>cancel\<close>: it is cancelled in the initialisation routine, and the
  handler \<^verbatim>\<open>OnceCleanup\<close> releases the lock.
\<close>

fun once_step :: "bool \<Rightarrow> opc \<Rightarrow> once_t \<Rightarrow> opc \<times> once_t" where
  "once_step cancel O_Start c =
     (let old = once_started c
      in (if old \<noteq> 0 then O_Spin else O_Returned, c\<lparr>once_started := if old = 0 then 1 else old\<rparr>))"
| "once_step cancel O_Spin c = (case spin_try (once_lock c) of (ok, l) \<Rightarrow> (if ok then O_Test else O_Spin, c\<lparr>once_lock := l\<rparr>))"
| "once_step cancel O_Test c = (if \<not> once_done c then O_Init else O_Unlock, c)"
| "once_step cancel O_Init c =
     (if cancel then (O_Cancelled, c\<lparr>once_lock := pthread_spin_unlock (once_lock c)\<rparr>) else (O_Set, c))"
| "once_step cancel O_Set c = (O_Unlock, c\<lparr>once_done := True\<rparr>)"
| "once_step cancel O_Unlock c = (O_Returned, c\<lparr>once_lock := pthread_spin_unlock (once_lock c)\<rparr>)"
| "once_step cancel O_Returned c = (O_Returned, c)"
| "once_step cancel O_Cancelled c = (O_Cancelled, c)"

text \<open>The third component counts the calls of the initialisation routine.\<close>

inductive once_reach :: "nat \<Rightarrow> once_t \<times> opc list \<times> nat \<Rightarrow> bool" for m where
  once_start: "once_reach m (PTHREAD_ONCE_INIT, replicate m O_Start, 0)"
| once_next: "once_reach m (c, pcs, inits) \<Longrightarrow> i < length pcs \<Longrightarrow> once_step cancel (pcs ! i) c = (p, c') \<Longrightarrow>
    once_reach m (c', pcs[i := p], if pcs ! i = O_Test \<and> p = O_Init then inits + 1 else inits)"

definition holds_lock :: "opc \<Rightarrow> bool" where
  "holds_lock p \<longleftrightarrow> p \<in> {O_Test, O_Init, O_Set, O_Unlock}"

definition in_init :: "opc \<Rightarrow> bool" where
  "in_init p \<longleftrightarrow> p = O_Init \<or> p = O_Set"

definition once_inv :: "once_t \<times> opc list \<times> nat \<Rightarrow> bool" where
  "once_inv = (\<lambda>(c, pcs, inits). once_started c = -1 \<and> once_lock c = int (num_at holds_lock pcs) \<and> num_at holds_lock pcs \<le> 1 \<and>
     inits = num_at ((=) O_Cancelled) pcs + num_at in_init pcs + of_bool (once_done c) \<and>
     (once_done c \<longrightarrow> num_at in_init pcs = 0) \<and> (\<not> once_done c \<longrightarrow> num_at (\<lambda>p. p = O_Unlock \<or> p = O_Returned) pcs = 0))"

lemma num_at_mono: "(\<And>x. P x \<Longrightarrow> Q x) \<Longrightarrow> num_at P xs \<le> num_at Q xs"
  unfolding num_at_def by (induction xs) auto

lemma once_step_inv:
  assumes inv: "once_inv (c, pcs, inits)" and i: "i < length pcs" and st: "once_step cancel (pcs ! i) c = (p, c')"
  shows "once_inv (c', pcs[i := p], if pcs ! i = O_Test \<and> p = O_Init then inits + 1 else inits)"
proof -
  have sub: "num_at in_init pcs \<le> num_at holds_lock pcs" by (rule num_at_mono) (auto simp: in_init_def holds_lock_def)
  note u = num_at_update [OF i, of holds_lock p] num_at_update [OF i, of "(=) O_Cancelled" p]
    num_at_update [OF i, of in_init p] num_at_update [OF i, of "\<lambda>p. p = O_Unlock \<or> p = O_Returned" p]
  have pos: "holds_lock (pcs ! i) \<Longrightarrow> 0 < num_at holds_lock pcs" "in_init (pcs ! i) \<Longrightarrow> 0 < num_at in_init pcs"
    "pcs ! i = O_Unlock \<or> pcs ! i = O_Returned \<Longrightarrow> 0 < num_at (\<lambda>p. p = O_Unlock \<or> p = O_Returned) pcs"
    using num_at_pos [OF i, of holds_lock] num_at_pos [OF i, of in_init] num_at_pos [OF i, of "\<lambda>p. p = O_Unlock \<or> p = O_Returned"] by auto
  note d = once_inv_def holds_lock_def in_init_def spin_try_def pthread_spin_unlock_def
  show ?thesis
    using inv st u pos sub by (cases "pcs ! i") (auto simp: d split: if_splits)
qed

lemma once_reach_inv:
  assumes "once_reach m s" shows "once_inv s"
  using assms
proof induction
  case once_start
  show ?case by (simp add: once_inv_def PTHREAD_ONCE_INIT_def holds_lock_def in_init_def)
next
  case (once_next c pcs inits i cancel p c')
  from once_step_inv [OF once_next.IH once_next.hyps(2,3)] show ?case .
qed

text \<open>
  C33: From \<^verbatim>\<open>PTHREAD_ONCE_INIT\<close>, whatever the interleaving of the threads in \<^verbatim>\<open>pthread_once\<close>: at most one
  thread is between lock and unlock; the initialisation routine is called once more than it was
  cancelled at most, so once when no thread is cancelled in it; and when a thread has returned the
  routine has been completed.
\<close>

theorem pthread_once_once:
  assumes "once_reach m (c, pcs, inits)"
  shows "num_at holds_lock pcs \<le> 1 \<and> inits \<le> num_at ((=) O_Cancelled) pcs + 1 \<and>
    (O_Returned \<in> set pcs \<longrightarrow> once_done c \<and> num_at in_init pcs = 0 \<and> inits = num_at ((=) O_Cancelled) pcs + 1)"
proof -
  from once_reach_inv [OF assms] have inv: "num_at holds_lock pcs \<le> 1"
    "inits = num_at ((=) O_Cancelled) pcs + num_at in_init pcs + of_bool (once_done c)"
    "once_done c \<longrightarrow> num_at in_init pcs = 0"
    "\<not> once_done c \<longrightarrow> num_at (\<lambda>p. p = O_Unlock \<or> p = O_Returned) pcs = 0" by (simp_all add: once_inv_def)
  have sub: "num_at in_init pcs \<le> num_at holds_lock pcs" by (rule num_at_mono) (auto simp: in_init_def holds_lock_def)
  have dn: "once_done c" if "O_Returned \<in> set pcs"
  proof -
    from that obtain i where "i < length pcs" "pcs ! i = O_Returned" by (auto simp: in_set_conv_nth)
    with num_at_pos [of i pcs "\<lambda>p. p = O_Unlock \<or> p = O_Returned"] inv(4) show ?thesis by auto
  qed
  show ?thesis using inv sub dn by (cases "once_done c") auto
qed

text \<open>Steps of the only thread, from start to return.\<close>

lemma once_run: "once_reach 1 (c, [p], n) \<Longrightarrow> once_step False p c = (p', c') \<Longrightarrow>
   once_reach 1 (c', [p'], if p = O_Test \<and> p' = O_Init then n + 1 else n)"
  using once_next [of 1 c "[p]" n 0 False p' c'] by simp

theorem pthread_once_once_witness:
  "once_reach 1 (\<lparr>once_done = True, once_started = -1, once_lock = 0\<rparr>, [O_Returned], 1) \<and>
   num_at holds_lock [O_Returned] \<le> 1 \<and> num_at ((=) O_Cancelled) [O_Returned] + 1 = 1"
proof -
  have 0: "once_reach 1 (PTHREAD_ONCE_INIT, [O_Start], 0)" using once_start [of 1] by simp
  note s = once_run [OF once_run [OF once_run [OF once_run [OF once_run [OF once_run [OF 0]]]]]]
  have r: "once_reach 1 (\<lparr>once_done = True, once_started = -1, once_lock = 0\<rparr>, [O_Returned], 1)"
    using s by (simp add: PTHREAD_ONCE_INIT_def spin_try_def pthread_spin_unlock_def)
  from pthread_once_once [OF r] r show ?thesis by simp
qed

end
