(* ===== verification/Spec2Isabelle.thy ===== *)
theory Spec2Isabelle
  imports File_Read Search_Table Wmem_List Wmem_Array Pthread_Sem
begin

text \<open>
  A verification development for clib4, the C runtime library for AmigaOS 4. Paths are below
  \<^verbatim>\<open>src/library\<close>.

  \<^bold>\<open>The program and the theories.\<close>

  \<^item> \<open>Clib4_Prelude\<close>: machine types of the 32-bit target, the flag macros of \<^verbatim>\<open>macros.h\<close>, the
    values of \<^verbatim>\<open>errno\<close>, and the lemmas on words, lists and \<^verbatim>\<open>size_t\<close> arithmetic that the
    components share.
  \<^item> \<open>Clib4_State\<close>: the state of the stdio layer. The record \<open>clib4\<close> holds \<^verbatim>\<open>errno\<close>, the
    streams (\<^verbatim>\<open>struct iob\<close>), the descriptors (\<^verbatim>\<open>struct fd\<close>), the two tables of pointers to
    them, and the states of exec.library and dos.library. Objects live at addresses: \<open>c_iobs\<close> and
    \<open>c_fds\<close> are stores, so that aliases are visible. The record \<open>env\<close> has the functions that are
    not part of the library, such as semaphores, allocation and the action of a descriptor.
  \<^item> \<open>Fd_Table\<close> and \<open>Fd_Ops\<close>: descriptors. Lookup, aliases of one file (\<^verbatim>\<open>duplicatefd.c\<close>,
    \<^verbatim>\<open>removefdalias.c\<close>), growing the table, and \<^verbatim>\<open>dup\<close>, \<^verbatim>\<open>dup2\<close>, \<^verbatim>\<open>close\<close>, \<^verbatim>\<open>read\<close>,
    \<^verbatim>\<open>write\<close> and \<^verbatim>\<open>lseek\<close>. The invariant \<open>fd_wf\<close> says that the table and the alias lists are
    well-formed.
  \<^item> \<open>Iob_Core\<close>: the buffer of a stream: filling, flushing and dropping it, the actions of files
    and strings, and the character operations. \<open>Stream_Write\<close> has \<^verbatim>\<open>fputs\<close>, \<^verbatim>\<open>puts\<close> and
    \<^verbatim>\<open>fwrite\<close>, \<open>Stream_Read\<close> has \<^verbatim>\<open>fread\<close>, \<^verbatim>\<open>fgets\<close>, \<^verbatim>\<open>gets\<close>, \<^verbatim>\<open>getdelim\<close> and
    \<^verbatim>\<open>getline\<close>.
  \<^item> \<open>Stream_Sink\<close>: the contract between the buffered layer and the action behind a stream, as
    the locale \<open>write_sink\<close>; the correctness of every output operation is proved in it once.
    The string action of \<^verbatim>\<open>vsprintf\<close> interprets it. The locale \<open>read_source\<close> of \<open>Stream_Read\<close>
    is its counterpart for input, interpreted by the string action of \<^verbatim>\<open>sscanf\<close>.
  \<^item> \<open>Fd_Hook\<close> and \<open>File_Read\<close>: \<^verbatim>\<open>fdhookentry.c\<close>, the action behind every file, in terms of
    dos.library. The record \<open>dos\<close> has the calls of dos.library; \<open>writes_all\<close> and \<open>reads_all\<close> state
    what \<^verbatim>\<open>Write()\<close> and \<^verbatim>\<open>Read()\<close> are documented to do. The locales \<open>dos_files\<close> and
    \<open>dos_readable\<close> derive the contracts above from them, and a RAM disk interprets both.
  \<^item> \<open>Sort_Search\<close>: \<^verbatim>\<open>qsort\<close>, \<^verbatim>\<open>bsearch\<close>, \<^verbatim>\<open>lfind\<close> and \<^verbatim>\<open>lsearch\<close>.
  \<^item> \<open>Search_Table\<close>: the trees of \<^verbatim>\<open>tsearch\<close> and the hash tables of \<^verbatim>\<open>hsearch\<close>. The locale
    \<open>first_wins\<close> is what both promise a client.

  \<^bold>\<open>How the code is modelled.\<close> A function of the library is a function on the state that it
  changes, with the result first. A pointer is an address, or \<open>None\<close> for \<^verbatim>\<open>NULL\<close>. A pointer to
  memory of the caller is the list of bytes it points to. Where C leaves the behaviour undefined
  because memory outside an object is accessed, the result of the model is \<open>None\<close>; a theorem that
  concludes \<open>Some\<close> therefore states that this does not happen. A loop is a recursive function
  with a termination proof. \<^verbatim>\<open>bsearch\<close>, whose index arithmetic can overflow, and the lists of
  aliases, which may be circular in a corrupt table, are partial functions with the value \<open>None\<close>
  when they do not return. Flags, hash values and the comparison results of \<^verbatim>\<open>qsort\<close> are 32-bit
  words; sizes are natural numbers with the wrap-around of \<^verbatim>\<open>size_t\<close> written out where the code
  multiplies or adds them. No fuel is used anywhere.

  \<^bold>\<open>What the theorems show.\<close> Descriptors: \<^verbatim>\<open>dup\<close> and \<^verbatim>\<open>dup2\<close> do what POSIX says and keep the
  table well-formed, closed descriptors give \<^verbatim>\<open>EBADF\<close>, and closing an alias leaves the file
  open. Streams of files: what a client writes is, byte for byte and in order, what dos.library is
  given after \<^verbatim>\<open>fflush\<close>, in every buffering mode in which the code is correct; what a client
  reads is what the file holds, \<^verbatim>\<open>fgets\<close> stays inside its buffer and \<^verbatim>\<open>getdelim\<close> ends. Arrays:
  \<^verbatim>\<open>qsort\<close> permutes, and sorts when no two elements compare equal; a counterexample shows that it
  does not sort otherwise. Dictionaries: trees stay ordered, hash tables stay well-formed, and both
  implement a finite map. Lemmas next to the properties exhibit the defects that are listed as
  findings of the manifest.

  \<^bold>\<open>Not modelled.\<close> Floating point (\<^verbatim>\<open>math\<close>, \<^verbatim>\<open>strtod\<close>, and with it \<^verbatim>\<open>vfprintf\<close> and
  \<^verbatim>\<open>vfscanf\<close>): there is no model of the floating point unit. Code driven by generated tables or by
  other libraries of the system (\<^verbatim>\<open>iconv\<close>, \<^verbatim>\<open>wchar\<close>, \<^verbatim>\<open>locale\<close>, \<^verbatim>\<open>socket\<close>, \<^verbatim>\<open>dirent\<close>,
  \<^verbatim>\<open>stat\<close>, \<^verbatim>\<open>usergroup\<close>, \<^verbatim>\<open>termios\<close>, \<^verbatim>\<open>amiga\<close>). Opening files, which is path translation and
  calls of dos.library. Assembly in \<^verbatim>\<open>cpu\<close> and the generated stubs of \<^verbatim>\<open>shared_library\<close>. Large
  independent packages that the rest does not use: \<^verbatim>\<open>regex\<close>, \<^verbatim>\<open>ndbm\<close>, \<^verbatim>\<open>crypt\<close>, \<^verbatim>\<open>resolv\<close>.
\<close>

end
